(* ===== verification/Prelude.thy ===== *)
theory Prelude
  imports Complex_Main "HOL-Library.AList" "HOL-Library.Word"
begin

text \<open>
  What every component of the pub/sub library shares: the exceptions its code raises, the
  pieces of Python and \<open>asyncio\<close> it is built on (insertion-ordered dictionaries,
  \<open>str.split\<close>, \<open>repr\<close> of a string, bounded queues), and the generic facts on them that
  carry the component proofs.  A Python dictionary is an association list with distinct
  keys: \<open>AList.update\<close> overwrites in place or appends, and \<open>AList.delete\<close> removes, as
  \<open>d[k] = v\<close> and \<open>d.pop(k, None)\<close> do, so iteration order is the list's order.
\<close>

named_theorems dict_simps "lookups, keys and lengths of dictionaries"
named_theorems inv_intros "invariant preservation, one fact for each operation"
named_theorems frame_simps "state components an operation leaves alone"

section \<open>Exceptions\<close>

text \<open>Every \<open>raise\<close> of the modelled code, and the ones of the libraries it catches.\<close>

datatype py_exn =
    TopicError string
  | ProtocolError string
  | ConnectionError string
  | RuntimeError string
  | ValueError string
  | KeyError string
  | AttributeError string
  | OverflowError
  | QueueFull
  | IncompleteReadError
  | StopAsyncIteration
  | CancelledError
  | BackendError string

type_synonym 'a result = "py_exn + 'a"

fun is_ok :: "'a result \<Rightarrow> bool" where
  "is_ok (Inr _) = True"
| "is_ok (Inl _) = False"

fun bind_result :: "'a result \<Rightarrow> ('a \<Rightarrow> 'b result) \<Rightarrow> 'b result" where
  "bind_result (Inl e) f = Inl e"
| "bind_result (Inr x) f = f x"

lemma bind_result_Inr_iff:
  "bind_result r f = Inr y \<longleftrightarrow> (\<exists>x. r = Inr x \<and> f x = Inr y)"
  by (cases r) auto

section \<open>Strings\<close>

text \<open>\<open>s.split(sep)\<close> for a one-character separator: always at least one piece.\<close>

fun py_split :: "char \<Rightarrow> string \<Rightarrow> string list" where
  "py_split sep [] = [[]]"
| "py_split sep (c # cs) =
     (if c = sep then [] # py_split sep cs
      else (case py_split sep cs of [] \<Rightarrow> [[c]] | t # ts \<Rightarrow> (c # t) # ts))"

text \<open>\<open>sep.join(parts)\<close>.\<close>

fun py_join :: "char \<Rightarrow> string list \<Rightarrow> string" where
  "py_join sep [] = []"
| "py_join sep [t] = t"
| "py_join sep (t # ts) = t @ sep # py_join sep ts"

lemma py_split_not_Nil [simp]: "py_split sep s \<noteq> []"
  by (cases s) (auto split: list.split)

lemma py_join_py_split [simp]: "py_join sep (py_split sep s) = s"
proof (induction s)
  case Nil
  then show ?case by simp
next
  case (Cons c cs)
  obtain t ts where "py_split sep cs = t # ts"
    by (cases "py_split sep cs") auto
  with Cons show ?case by (cases ts) auto
qed

lemma py_split_no_sep: "t \<in> set (py_split sep s) \<Longrightarrow> sep \<notin> set t"
proof (induction s arbitrary: t)
  case Nil
  then show ?case by simp
next
  case (Cons c cs)
  obtain u us where "py_split sep cs = u # us"
    by (cases "py_split sep cs") auto
  with Cons show ?case by (auto split: if_splits)
qed

lemma py_join_append:
  "ts \<noteq> [] \<Longrightarrow> us \<noteq> [] \<Longrightarrow> py_join sep (ts @ us) = py_join sep ts @ sep # py_join sep us"
proof (induction sep ts rule: py_join.induct)
  case (2 sep t)
  then show ?case by (cases us) simp_all
qed simp_all

lemma py_split_token: "sep \<notin> set t \<Longrightarrow> py_split sep t = [t]"
  by (induction t) auto

lemma py_split_append_sep:
  "sep \<notin> set t \<Longrightarrow> py_split sep (t @ sep # s) = t # py_split sep s"
  by (induction t) auto

lemma py_split_append: "py_split sep (s @ sep # t) = py_split sep s @ py_split sep t"
proof (induction s)
  case Nil
  then show ?case by simp
next
  case (Cons c s)
  obtain u us where "py_split sep s = u # us"
    by (cases "py_split sep s") auto
  with Cons show ?case by simp
qed

lemma py_split_py_join:
  "ts \<noteq> [] \<Longrightarrow> \<forall>t\<in>set ts. sep \<notin> set t \<Longrightarrow> py_split sep (py_join sep ts) = ts"
  by (induction sep ts rule: py_join.induct) (auto simp: py_split_token py_split_append_sep)

lemma py_split_inject: "py_split sep s = py_split sep s' \<Longrightarrow> s = s'"
  by (metis py_join_py_split)

text \<open>
  \<open>repr\<close> of a string over the first 256 code points: single quotes unless the text holds a
  single and no double quote; the quote, the backslash and unprintable characters escaped.
\<close>

definition hex_digit :: "nat \<Rightarrow> char" where
  "hex_digit n = (if n < 10 then char_of (48 + n) else char_of (87 + n))"

definition repr_char :: "char \<Rightarrow> char \<Rightarrow> string" where
  "repr_char q c =
     (let n = of_char c :: nat; bs = CHR 0x5C in
      if c = q \<or> c = bs then [bs, c]
      else if n = 9 then [bs, CHR ''t'']
      else if n = 10 then [bs, CHR ''n'']
      else if n = 13 then [bs, CHR ''r'']
      else if n < 32 \<or> (127 \<le> n \<and> n \<le> 160) \<or> n = 173
        then [bs, CHR ''x'', hex_digit (n div 16), hex_digit (n mod 16)]
      else [c])"

definition py_repr :: "string \<Rightarrow> string" where
  "py_repr s =
     (let q = (if CHR 0x27 \<in> set s \<and> CHR 0x22 \<notin> set s then CHR 0x22 else CHR 0x27)
      in [q] @ concat (map (repr_char q) s) @ [q])"

text \<open>Decimal numbers.\<close>

fun dec :: "nat \<Rightarrow> string" where
  "dec n = (if n < 10 then [char_of (48 + n)] else dec (n div 10) @ [char_of (48 + n mod 10)])"

declare dec.simps [simp del]

definition int_repr :: "int \<Rightarrow> string" where
  "int_repr n = (if n < 0 then CHR ''-'' # dec (nat (- n)) else dec (nat n))"

section \<open>Lists\<close>

lemma map_update_same: "f y = f (xs ! a) \<Longrightarrow> map f (xs[a := y]) = map f xs"
  by (cases "a < length xs") (simp_all add: map_update list_update_same_conv list_update_beyond)

section \<open>Dictionaries\<close>

type_synonym ('k, 'v) dict = "('k \<times> 'v) list"

abbreviation dict_get :: "('k, 'v) dict \<Rightarrow> 'k \<Rightarrow> 'v option" where
  "dict_get d k \<equiv> map_of d k"

abbreviation dict_set :: "'k \<Rightarrow> 'v \<Rightarrow> ('k, 'v) dict \<Rightarrow> ('k, 'v) dict" where
  "dict_set k v d \<equiv> AList.update k v d"

abbreviation dict_pop :: "'k \<Rightarrow> ('k, 'v) dict \<Rightarrow> ('k, 'v) dict" where
  "dict_pop k d \<equiv> AList.delete k d"

abbreviation dict_keys :: "('k, 'v) dict \<Rightarrow> 'k set" where
  "dict_keys d \<equiv> fst ` set d"

abbreviation dict_wf :: "('k, 'v) dict \<Rightarrow> bool" where
  "dict_wf d \<equiv> distinct (map fst d)"

lemma dict_get_set [dict_simps]:
  "dict_get (dict_set k v d) k' = (if k' = k then Some v else dict_get d k')"
  by (simp add: update_conv')

lemma dict_get_pop [dict_simps]:
  "dict_get (dict_pop k d) k' = (if k' = k then None else dict_get d k')"
  by (simp add: delete_conv')

lemma dict_wf_set [dict_simps]: "dict_wf d \<Longrightarrow> dict_wf (dict_set k v d)"
  by (rule distinct_update)

lemma dict_wf_pop [dict_simps]: "dict_wf d \<Longrightarrow> dict_wf (dict_pop k d)"
  by (rule distinct_delete)

lemma dict_keys_set [dict_simps]: "dict_keys (dict_set k v d) = insert k (dict_keys d)"
  by (simp add: dom_update)

lemma dict_keys_pop [dict_simps]: "dict_keys (dict_pop k d) = dict_keys d - {k}"
  by (auto simp: AList.delete_eq image_iff)

lemma set_dict_setD: "p \<in> set (dict_set k v d) \<Longrightarrow> p = (k, v) \<or> p \<in> set d"
  by (induction d) (auto split: if_splits)

lemma set_dict_pop: "set (dict_pop k d) \<subseteq> set d"
  by (auto simp: AList.delete_eq)

lemma snd_set_dict_pop: "snd ` set (dict_pop k d) \<subseteq> snd ` set d"
  using set_dict_pop by (rule image_mono)

lemma dict_get_None_iff: "dict_get d k = None \<longleftrightarrow> k \<notin> dict_keys d"
  by (simp add: map_of_eq_None_iff)

lemma dict_set_absent: "k \<notin> dict_keys d \<Longrightarrow> dict_set k v d = d @ [(k, v)]"
  by (induction d) auto

lemma dict_pop_absent: "k \<notin> dict_keys d \<Longrightarrow> dict_pop k d = d"
  by (induction d) auto

lemma dict_pop_set_absent: "k \<notin> dict_keys d \<Longrightarrow> dict_pop k (dict_set k v d) = d"
  by (induction d) (auto simp: dict_pop_absent)

lemma length_dict_set [dict_simps]:
  "length (dict_set k v d) = (if k \<in> dict_keys d then length d else Suc (length d))"
  by (induction d) auto

lemma length_dict_pop_present:
  "dict_wf d \<Longrightarrow> k \<in> dict_keys d \<Longrightarrow> Suc (length (dict_pop k d)) = length d"
  by (induction d) (auto simp: dict_pop_absent)

lemma dict_wf_set_get: "dict_wf d \<Longrightarrow> (k, v) \<in> set d \<Longrightarrow> dict_get d k = Some v"
  by simp

section \<open>Totals over a dictionary of counters\<close>

definition dict_total :: "('k, int) dict \<Rightarrow> int" where
  "dict_total d = sum_list (map snd d)"

lemma dict_total_Nil [simp]: "dict_total [] = 0"
  by (simp add: dict_total_def)

lemma dict_total_Cons [simp]: "dict_total (p # d) = snd p + dict_total d"
  by (simp add: dict_total_def)

lemma dict_total_set:
  "dict_total (dict_set k v d)
     = dict_total d + v - (case dict_get d k of None \<Rightarrow> 0 | Some w \<Rightarrow> w)"
  by (induction d) (auto split: option.split)

lemma dict_total_pop:
  "dict_wf d \<Longrightarrow>
   dict_total (dict_pop k d) = dict_total d - (case dict_get d k of None \<Rightarrow> 0 | Some w \<Rightarrow> w)"
  by (induction d) (auto simp: dict_pop_absent split: option.split)

definition counters_pos :: "('k, int) dict \<Rightarrow> bool" where
  "counters_pos d \<longleftrightarrow> (\<forall>p\<in>set d. 1 \<le> snd p)"

lemma counters_pos_Nil [simp]: "counters_pos []"
  by (simp add: counters_pos_def)

lemma counters_posD: "counters_pos d \<Longrightarrow> dict_get d k = Some n \<Longrightarrow> 1 \<le> n"
  by (force simp: counters_pos_def dest: map_of_SomeD)

lemma counters_pos_set: "counters_pos d \<Longrightarrow> 1 \<le> v \<Longrightarrow> counters_pos (dict_set k v d)"
  by (induction d) (auto simp: counters_pos_def)

lemma counters_pos_pop: "counters_pos d \<Longrightarrow> counters_pos (dict_pop k d)"
  by (auto simp: counters_pos_def AList.delete_eq)

lemma counters_pos_total: "counters_pos d \<Longrightarrow> 0 \<le> dict_total d"
  by (induction d) (auto simp: counters_pos_def)

section \<open>Counting the entries of a dictionary\<close>

definition dict_count :: "('v \<Rightarrow> bool) \<Rightarrow> ('k, 'v) dict \<Rightarrow> nat" where
  "dict_count P d = length (filter (\<lambda>e. P (snd e)) d)"

lemma dict_count_Nil [simp]: "dict_count P [] = 0"
  by (simp add: dict_count_def)

lemma dict_count_Cons [simp]: "dict_count P (e # d) = of_bool (P (snd e)) + dict_count P d"
  by (simp add: dict_count_def)

lemma dict_count_set_new: "dict_get d k = None \<Longrightarrow> dict_count P (dict_set k v d) = dict_count P d + of_bool (P v)"
  by (induction d) (auto split: if_splits)

lemma dict_count_set:
  "dict_get d k = Some w \<Longrightarrow> dict_count P (dict_set k v d) + of_bool (P w) = dict_count P d + of_bool (P v)"
  by (induction d) (auto split: if_splits)

lemma dict_count_pop:
  "dict_wf d \<Longrightarrow> dict_get d k = Some w \<Longrightarrow> dict_count P (dict_pop k d) + of_bool (P w) = dict_count P d"
  by (induction d) (auto simp: dict_pop_absent image_iff split: if_splits)

lemma dict_count_zero: "dict_count P d = 0 \<Longrightarrow> dict_get d k = Some v \<Longrightarrow> \<not> P v"
  by (induction d) (auto split: if_splits)

text \<open>An entry that is the only one of its kind.\<close>

lemma dict_count_unique:
  "dict_count P d \<le> 1 \<Longrightarrow> dict_get d k = Some v \<Longrightarrow> P v \<Longrightarrow> dict_get d k' = Some v' \<Longrightarrow> P v' \<Longrightarrow> k' = k"
  by (induction d) (auto dest: dict_count_zero split: if_splits)

section \<open>Bounded queues\<close>

text \<open>
  \<open>asyncio.Queue(maxsize)\<close> through the two calls the code makes: \<open>put_nowait\<close> raises
  \<open>QueueFull\<close> at the bound (a bound of 0 means none); a ready \<open>get\<close> takes the oldest item.
\<close>

record 'a aqueue =
  q_items :: "'a list"
  q_maxsize :: nat

definition new_queue :: "nat \<Rightarrow> 'a aqueue" where
  "new_queue n = \<lparr>q_items = [], q_maxsize = n\<rparr>"

definition put_nowait :: "'a \<Rightarrow> 'a aqueue \<Rightarrow> 'a aqueue result" where
  "put_nowait x q =
     (if 0 < q_maxsize q \<and> q_maxsize q \<le> length (q_items q) then Inl QueueFull
      else Inr (q\<lparr>q_items := q_items q @ [x]\<rparr>))"

definition get_ready :: "'a aqueue \<Rightarrow> ('a \<times> 'a aqueue) option" where
  "get_ready q =
     (case q_items q of [] \<Rightarrow> None | x # xs \<Rightarrow> Some (x, q\<lparr>q_items := xs\<rparr>))"

definition queue_within :: "'a aqueue \<Rightarrow> bool" where
  "queue_within q \<longleftrightarrow> 0 < q_maxsize q \<longrightarrow> length (q_items q) \<le> q_maxsize q"

lemma new_queue_sel [simp]: "q_items (new_queue n) = []" "q_maxsize (new_queue n) = n"
  by (simp_all add: new_queue_def)

lemma put_nowait_Inr:
  "put_nowait x q = Inr q' \<longleftrightarrow>
     (0 < q_maxsize q \<longrightarrow> length (q_items q) < q_maxsize q) \<and>
     q' = q\<lparr>q_items := q_items q @ [x]\<rparr>"
  by (auto simp: put_nowait_def)

lemma put_nowait_Inl:
  "put_nowait x q = Inl e \<longleftrightarrow>
     0 < q_maxsize q \<and> q_maxsize q \<le> length (q_items q) \<and> e = QueueFull"
  by (auto simp: put_nowait_def)

lemma get_ready_Some:
  "get_ready q = Some (x, q') \<longleftrightarrow>
     (\<exists>xs. q_items q = x # xs \<and> q' = q\<lparr>q_items := xs\<rparr>)"
  by (auto simp: get_ready_def split: list.splits)

section \<open>Transition systems\<close>

text \<open>
  A component with state is an initial predicate and a step relation; an invariant of it
  holds in every reachable state.
\<close>

inductive reach :: "('s \<Rightarrow> bool) \<Rightarrow> ('s \<Rightarrow> 's \<Rightarrow> bool) \<Rightarrow> 's \<Rightarrow> bool"
  for init and step where
  reach_init: "init s \<Longrightarrow> reach init step s"
| reach_step: "reach init step s \<Longrightarrow> step s t \<Longrightarrow> reach init step t"

locale invariant_system =
  fixes init :: "'s \<Rightarrow> bool"
    and step :: "'s \<Rightarrow> 's \<Rightarrow> bool"
    and inv :: "'s \<Rightarrow> bool"
  assumes inv_init: "init s \<Longrightarrow> inv s"
    and inv_step: "inv s \<Longrightarrow> step s t \<Longrightarrow> inv t"
begin

lemma reachable_inv: "reach init step s \<Longrightarrow> inv s"
  by (induction rule: reach.induct) (auto intro: inv_init inv_step)

end

end
