(* ===== verification/Types.thy ===== *)
theory Types
  imports Prelude
begin

text \<open>
  The shared domain objects of \<open>pubsub/shared/types.py\<close>: MessagePack values, messages,
  deliveries, subscriptions, publish results and dead-letter entries, with the guard that
  makes the envelopes immutable.  A timestamp (a Python \<open>float\<close> of Unix seconds) is a
  \<open>real\<close>: the code only compares timestamps, and a clock reading is never a NaN.
  Python strings are HOL strings, the first 256 code points.
\<close>

type_synonym timestamp = real
type_synonym byte = "8 word"

datatype mpval =
    MStr string
  | MInt int
  | MFloat real
  | MBool bool
  | MNone
  | MBytes "byte list"
  | MList "mpval list"
  | MDict "(mpval \<times> mpval) list"

section \<open>Immutability guard\<close>

text \<open>
  An envelope as an attribute store: its class name and its slots.  Construction goes
  through \<open>_set\<close>; ordinary assignment and deletion raise.
\<close>

record frozen_obj =
  fz_class :: string
  fz_slots :: "(string, mpval) dict"

definition frozen_setattr :: "frozen_obj \<Rightarrow> string \<Rightarrow> mpval \<Rightarrow> frozen_obj result" where
  "frozen_setattr self name v =
     Inl (AttributeError (''cannot set '' @ py_repr name @ '': '' @ fz_class self @ '' is immutable''))"

definition frozen_delattr :: "frozen_obj \<Rightarrow> string \<Rightarrow> frozen_obj result" where
  "frozen_delattr self name =
     Inl (AttributeError (''cannot delete '' @ py_repr name @ '': '' @ fz_class self @ '' is immutable''))"

definition object_set :: "frozen_obj \<Rightarrow> string \<Rightarrow> mpval \<Rightarrow> frozen_obj" where
  "object_set obj name v = obj\<lparr>fz_slots := dict_set name v (fz_slots obj)\<rparr>"

section \<open>Envelopes\<close>

datatype replay_policy = FutureOnly | FromUnixTimestamp timestamp

record topic_config =
  tc_topic :: string
  tc_replayable :: bool

record message =
  msg_id :: string
  msg_topic :: string
  msg_payload :: mpval
  msg_extras :: "(string, mpval) dict"
  msg_created_at :: timestamp

record delivery =
  dl_id :: string
  dl_sid :: string
  dl_message :: message
  dl_attempt :: int

record subscription =
  sub_id :: string
  sub_selector :: string
  sub_replay :: replay_policy

record publish_error =
  pe_code :: string
  pe_detail :: string

record publish_result =
  pr_accepted :: bool
  pr_message_id :: "string option"
  pr_error :: "publish_error option"

definition publish_ok :: "string \<Rightarrow> publish_result" where
  "publish_ok mid = \<lparr>pr_accepted = True, pr_message_id = Some mid, pr_error = None\<rparr>"

definition publish_rejected :: "publish_error \<Rightarrow> publish_result" where
  "publish_rejected e = \<lparr>pr_accepted = False, pr_message_id = None, pr_error = Some e\<rparr>"

record dlq_entry =
  dq_message :: message
  dq_sid :: string
  dq_attempts :: int

text \<open>The \<open>__repr__\<close> of the envelopes; \<open>float_repr\<close> is how Python shows a float.\<close>

definition message_repr :: "(timestamp \<Rightarrow> string) \<Rightarrow> message \<Rightarrow> string" where
  "message_repr float_repr m =
     ''Message(message_id='' @ py_repr (msg_id m) @ '', topic='' @ py_repr (msg_topic m) @
     '', created_at='' @ float_repr (msg_created_at m) @ '')''"

definition delivery_repr :: "delivery \<Rightarrow> string" where
  "delivery_repr d =
     ''Delivery(delivery_id='' @ py_repr (dl_id d) @ '', subscription_id='' @ py_repr (dl_sid d) @
     '', attempt='' @ int_repr (dl_attempt d) @ '')''"

definition subscription_repr :: "subscription \<Rightarrow> string" where
  "subscription_repr s =
     ''Subscription(subscription_id='' @ py_repr (sub_id s) @ '', selector='' @ py_repr (sub_selector s) @ '')''"

definition publish_error_repr :: "publish_error \<Rightarrow> string" where
  "publish_error_repr e = ''PublishError(code='' @ py_repr (pe_code e) @ '', detail='' @ py_repr (pe_detail e) @ '')''"

definition none_or :: "('a \<Rightarrow> string) \<Rightarrow> 'a option \<Rightarrow> string" where
  "none_or f x = (case x of None \<Rightarrow> ''None'' | Some v \<Rightarrow> f v)"

definition publish_result_repr :: "publish_result \<Rightarrow> string" where
  "publish_result_repr r =
     (if pr_accepted r then ''PublishResult(accepted=True, message_id='' @ none_or py_repr (pr_message_id r) @ '')''
      else ''PublishResult(accepted=False, error='' @ none_or publish_error_repr (pr_error r) @ '')'')"

lemma publish_ok_sel [simp]:
  "pr_accepted (publish_ok i)" "pr_message_id (publish_ok i) = Some i" "pr_error (publish_ok i) = None"
  by (simp_all add: publish_ok_def)

lemma publish_rejected_sel [simp]:
  "\<not> pr_accepted (publish_rejected e)" "pr_message_id (publish_rejected e) = None"
  "pr_error (publish_rejected e) = Some e"
  by (simp_all add: publish_rejected_def)

end
