(* ===== verification/Retry.thy ===== *)
theory Retry
  imports Types
begin

text \<open>
  The retry policy of \<open>pubsub/server/retry.py\<close>: full-jitter exponential backoff with a
  capped exponent and the delivery budget, and the decision \<open>RetryEngine.schedule\<close> takes.
  The draw of \<open>rng()\<close> is an argument.  Delays are reals: rounding is not modelled, but the
  one exception of the arithmetic is, converting an integer from \<open>2 ** 1024\<close> on to a float.
\<close>

definition DEFAULT_MAX_ATTEMPTS :: int where "DEFAULT_MAX_ATTEMPTS = 10"
definition DEFAULT_BASE_SECONDS :: real where "DEFAULT_BASE_SECONDS = 1"
definition DEFAULT_CAP_EXPONENT :: int where "DEFAULT_CAP_EXPONENT = 10"

text \<open>\<open>x * (2 ** e)\<close> for a float \<open>x\<close>: a negative \<open>e\<close> makes the power a float itself.\<close>

definition scale_by_pow2 :: "real \<Rightarrow> int \<Rightarrow> real result" where
  "scale_by_pow2 x e =
     (if e < 0 then Inr (x / 2 ^ nat (- e))
      else if 1024 \<le> e then Inl OverflowError
      else Inr (x * 2 ^ nat e))"

definition full_jitter_backoff :: "int \<Rightarrow> real \<Rightarrow> int \<Rightarrow> real \<Rightarrow> real result" where
  "full_jitter_backoff attempt base cap_exponent draw =
     (let exponent = min (max attempt 0) cap_exponent
      in bind_result (scale_by_pow2 base exponent) (\<lambda>d. Inr (draw * d)))"

record retry_policy =
  rp_max_attempts :: int
  rp_base :: real
  rp_cap_exponent :: int

definition default_retry_policy :: retry_policy where
  "default_retry_policy =
     \<lparr>rp_max_attempts = DEFAULT_MAX_ATTEMPTS, rp_base = DEFAULT_BASE_SECONDS,
      rp_cap_exponent = DEFAULT_CAP_EXPONENT\<rparr>"

definition exhausted :: "retry_policy \<Rightarrow> int \<Rightarrow> bool" where
  "exhausted p attempt \<longleftrightarrow> rp_max_attempts p \<le> attempt"

definition backoff :: "retry_policy \<Rightarrow> int \<Rightarrow> real \<Rightarrow> real result" where
  "backoff p attempt draw = full_jitter_backoff attempt (rp_base p) (rp_cap_exponent p) draw"

section \<open>The engine's data\<close>

text \<open>
  A background task of \<open>RetryEngine._tasks\<close>: the arguments of \<open>_delayed\<close> it was spawned
  with.  The queue is an object reference, here an address in the broker's heap.
\<close>

record retry_task =
  rt_queue :: nat
  rt_delivery :: delivery
  rt_next_attempt :: int

datatype schedule_decision = ToDlq dlq_entry | Spawn retry_task

definition dlq_entry_of :: "delivery \<Rightarrow> int \<Rightarrow> dlq_entry" where
  "dlq_entry_of d attempts =
     \<lparr>dq_message = dl_message d, dq_sid = dl_sid d, dq_attempts = attempts\<rparr>"

definition schedule_decision :: "retry_policy \<Rightarrow> nat \<Rightarrow> delivery \<Rightarrow> schedule_decision" where
  "schedule_decision p queue d =
     (let next_attempt = dl_attempt d + 1 in
      if exhausted p next_attempt then ToDlq (dlq_entry_of d next_attempt)
      else Spawn \<lparr>rt_queue = queue, rt_delivery = d, rt_next_attempt = next_attempt\<rparr>)"

text \<open>The redelivery a task makes once its backoff has elapsed.\<close>

definition retried_delivery :: "string \<Rightarrow> retry_task \<Rightarrow> delivery" where
  "retried_delivery did t =
     \<lparr>dl_id = did, dl_sid = dl_sid (rt_delivery t), dl_message = dl_message (rt_delivery t),
      dl_attempt = rt_next_attempt t\<rparr>"

section \<open>Bounds of the backoff\<close>

lemma scale_by_pow2_bounds:
  assumes "0 \<le> x" "e \<le> c" "0 \<le> c" "c < 1024"
  shows "\<exists>d. scale_by_pow2 x e = Inr d \<and> 0 \<le> d \<and> d \<le> x * 2 ^ nat c"
proof (cases "e < 0")
  case True
  have "x / 2 ^ nat (- e) \<le> x"
    using assms(1) by (simp add: divide_le_eq mult_le_cancel_left1)
  also have "x \<le> x * 2 ^ nat c"
    using assms(1) by (simp add: mult_le_cancel_left1)
  finally show ?thesis
    using True assms(1) by (simp add: scale_by_pow2_def)
next
  case False
  have "x * 2 ^ nat e \<le> x * 2 ^ nat c"
    using assms False by (intro mult_left_mono power_increasing) auto
  then show ?thesis
    using False assms by (simp add: scale_by_pow2_def)
qed

lemma backoff_bounds:
  assumes "0 \<le> rp_base p" "0 \<le> rp_cap_exponent p" "rp_cap_exponent p < 1024"
    and "0 \<le> draw" "draw < 1"
  shows "\<exists>d. backoff p attempt draw = Inr d \<and> 0 \<le> d \<and> d \<le> rp_base p * 2 ^ nat (rp_cap_exponent p)"
proof -
  obtain d where d: "scale_by_pow2 (rp_base p) (min (max attempt 0) (rp_cap_exponent p)) = Inr d"
    and "0 \<le> d" "d \<le> rp_base p * 2 ^ nat (rp_cap_exponent p)"
    using scale_by_pow2_bounds [of "rp_base p" "min (max attempt 0) (rp_cap_exponent p)"] assms
    by (metis min.cobounded2)
  moreover from \<open>0 \<le> d\<close> assms(4,5) have "draw * d \<le> d"
    by (simp add: mult_left_le_one_le)
  ultimately show ?thesis
    using assms(4) by (force simp: backoff_def full_jitter_backoff_def Let_def)
qed

lemma schedule_decision_ToDlq:
  "schedule_decision p q d = ToDlq e \<longleftrightarrow>
     rp_max_attempts p \<le> dl_attempt d + 1 \<and> e = dlq_entry_of d (dl_attempt d + 1)"
  by (auto simp: schedule_decision_def exhausted_def Let_def)

lemma schedule_decision_Spawn:
  "schedule_decision p q d = Spawn t \<longleftrightarrow>
     dl_attempt d + 1 < rp_max_attempts p \<and>
     t = \<lparr>rt_queue = q, rt_delivery = d, rt_next_attempt = dl_attempt d + 1\<rparr>"
  by (auto simp: schedule_decision_def exhausted_def Let_def)

section \<open>Properties\<close>

text \<open>
  The backoff is bounded full jitter: with a non-negative base, a cap exponent from 0 to 1023
  and a draw from the unit interval, the delay of every attempt exists, is not negative and
  never exceeds the base times two to the cap; before the draw is applied, the window doubles
  with each attempt until the cap.
\<close>

theorem backoff_bounded_jitter:
  assumes "0 \<le> rp_base p" "0 \<le> rp_cap_exponent p" "rp_cap_exponent p < 1024" "0 \<le> draw" "draw < 1"
  shows "\<exists>d. backoff p attempt draw = Inr d \<and> 0 \<le> d \<and> d \<le> rp_base p * 2 ^ nat (rp_cap_exponent p) \<and>
             (0 \<le> attempt \<longrightarrow> d = draw * (rp_base p * 2 ^ nat (min attempt (rp_cap_exponent p))))"
proof -
  obtain d where d: "backoff p attempt draw = Inr d" "0 \<le> d" "d \<le> rp_base p * 2 ^ nat (rp_cap_exponent p)"
    using backoff_bounds [OF assms] by blast
  moreover have "d = draw * (rp_base p * 2 ^ nat (min attempt (rp_cap_exponent p)))" if "0 \<le> attempt"
  proof -
    have "\<not> min attempt (rp_cap_exponent p) < 0" "\<not> 1024 \<le> min attempt (rp_cap_exponent p)"
      using that assms(2,3) by auto
    with d(1) that show ?thesis
      by (auto simp: backoff_def full_jitter_backoff_def scale_by_pow2_def Let_def split: if_splits)
  qed
  ultimately show ?thesis by blast
qed

theorem backoff_bounded_jitter_witness:
  "\<exists>d. backoff default_retry_policy 3 (1 / 2) = Inr d \<and> 0 \<le> d \<and> d \<le> 1024 \<and> d = 4"
  using backoff_bounded_jitter [of default_retry_policy "1 / 2" 3]
  by (auto simp: default_retry_policy_def DEFAULT_BASE_SECONDS_def DEFAULT_CAP_EXPONENT_def)

text \<open>
  The delivery budget: a delivery goes to the dead-letter store exactly when its next attempt
  number reaches the budget, with that number recorded; otherwise the backoff task that is
  spawned carries the delivery, the queue it came from and the next attempt number, which is
  still below the budget.
\<close>

theorem schedule_respects_budget:
  "schedule_decision p q d =
     (if rp_max_attempts p \<le> dl_attempt d + 1
      then ToDlq \<lparr>dq_message = dl_message d, dq_sid = dl_sid d, dq_attempts = dl_attempt d + 1\<rparr>
      else Spawn \<lparr>rt_queue = q, rt_delivery = d, rt_next_attempt = dl_attempt d + 1\<rparr>)"
  by (simp add: schedule_decision_def exhausted_def dlq_entry_of_def Let_def)

end
