(* ===== verification/Topic.thy ===== *)
theory Topic
  imports Prelude
begin

text \<open>
  Subjects and subscription patterns (\<open>pubsub/shared/topic.py\<close>): splitting, validation and
  matching with the two NATS wildcards.  The loops of the code are recursive functions with
  their early returns; \<open>subject_match\<close> is the declarative meaning of a pattern that
  \<open>matches_tokens\<close> implements.
\<close>

definition TOKEN_WILDCARD :: string where "TOKEN_WILDCARD = ''*''"
definition TAIL_WILDCARD :: string where "TAIL_WILDCARD = ''>''"

lemmas wildcard_defs = TOKEN_WILDCARD_def TAIL_WILDCARD_def

text \<open>\<open>"*" in token or ">" in token\<close>: a one-character substring test.\<close>

definition has_wildcard :: "string \<Rightarrow> bool" where
  "has_wildcard t \<longleftrightarrow> CHR ''*'' \<in> set t \<or> CHR ''>'' \<in> set t"

section \<open>The code\<close>

definition split_subject :: "string \<Rightarrow> string list result" where
  "split_subject subject =
     (if subject = [] then Inl (TopicError ''subject is empty'')
      else let tokens = py_split (CHR ''.'') subject in
        if list_ex (\<lambda>t. t = []) tokens
        then Inl (TopicError (''empty token in subject '' @ py_repr subject))
        else Inr tokens)"

definition validate_subject :: "string \<Rightarrow> string list result" where
  "validate_subject subject =
     bind_result (split_subject subject) (\<lambda>tokens.
       if list_ex has_wildcard tokens
       then Inl (TopicError (''published subject may not contain wildcards: '' @ py_repr subject))
       else Inr tokens)"

text \<open>The body of the token loop of \<open>validate_pattern\<close>: the first offending token raises.\<close>

fun check_tokens :: "string \<Rightarrow> nat \<Rightarrow> nat \<Rightarrow> string list \<Rightarrow> unit result" where
  "check_tokens pattern lst i [] = Inr ()"
| "check_tokens pattern lst i (t # ts) =
     (if t = TAIL_WILDCARD then
        (if i \<noteq> lst
         then Inl (TopicError (CHR 0x27 # ''>'' @ CHR 0x27 # '' must be the final token: '' @ py_repr pattern))
         else check_tokens pattern lst (Suc i) ts)
      else if t = TOKEN_WILDCARD then check_tokens pattern lst (Suc i) ts
      else if has_wildcard t
        then Inl (TopicError (''wildcard must be a whole token: '' @ py_repr t))
      else check_tokens pattern lst (Suc i) ts)"

definition validate_pattern :: "string \<Rightarrow> string list result" where
  "validate_pattern pattern =
     bind_result (split_subject pattern) (\<lambda>tokens.
       bind_result (check_tokens pattern (length tokens - 1) 0 tokens) (\<lambda>_. Inr tokens))"

text \<open>The token loop of \<open>matches_tokens\<close>: \<open>Some\<close> is an early return, \<open>None\<close> falls through.\<close>

fun match_loop :: "nat \<Rightarrow> string list \<Rightarrow> string list \<Rightarrow> bool option" where
  "match_loop i [] sub = None"
| "match_loop i (t # ts) sub =
     (if t = TAIL_WILDCARD then Some (i < length sub)
      else if length sub \<le> i then Some False
      else if t = TOKEN_WILDCARD then match_loop (Suc i) ts sub
      else if t \<noteq> sub ! i then Some False
      else match_loop (Suc i) ts sub)"

definition matches_tokens :: "string list \<Rightarrow> string \<Rightarrow> bool result" where
  "matches_tokens pattern_tokens subject =
     bind_result (split_subject subject) (\<lambda>sub.
       Inr (case match_loop 0 pattern_tokens sub of
              Some b \<Rightarrow> b
            | None \<Rightarrow> length pattern_tokens = length sub))"

definition matches :: "string \<Rightarrow> string \<Rightarrow> bool result" where
  "matches pattern subject =
     bind_result (validate_pattern pattern) (\<lambda>ts. matches_tokens ts subject)"

section \<open>The meaning of patterns\<close>

text \<open>
  A pattern token list describes subjects token by token: \<open>*\<close> any one token, a final \<open>>\<close>
  one or more remaining tokens, anything else itself.
\<close>

inductive subject_match :: "string list \<Rightarrow> string list \<Rightarrow> bool" where
  match_end: "subject_match [] []"
| match_tail: "ts \<noteq> [] \<Longrightarrow> subject_match [TAIL_WILDCARD] ts"
| match_star: "subject_match ps ts \<Longrightarrow> subject_match (TOKEN_WILDCARD # ps) (t # ts)"
| match_literal: "p \<noteq> TAIL_WILDCARD \<Longrightarrow> p \<noteq> TOKEN_WILDCARD \<Longrightarrow> subject_match ps ts \<Longrightarrow>
    subject_match (p # ps) (p # ts)"

inductive_simps subject_match_Nil [simp]: "subject_match [] ts"
inductive_simps subject_match_Cons: "subject_match (p # ps) ts"

text \<open>Token lists the pattern validator lets through.\<close>

fun wf_pattern :: "string list \<Rightarrow> bool" where
  "wf_pattern [] = True"
| "wf_pattern (t # ts) =
     ((t = TAIL_WILDCARD \<longrightarrow> ts = []) \<and>
      (has_wildcard t \<longrightarrow> t = TAIL_WILDCARD \<or> t = TOKEN_WILDCARD) \<and> wf_pattern ts)"

section \<open>Validation\<close>

lemma split_subject_Inr:
  "split_subject s = Inr ts \<longleftrightarrow> s \<noteq> [] \<and> ts = py_split (CHR ''.'') s \<and> [] \<notin> set ts"
  by (auto simp: split_subject_def Let_def list_ex_iff)

lemma split_subject_not_Nil: "split_subject s = Inr ts \<Longrightarrow> ts \<noteq> []"
  by (auto simp: split_subject_Inr)

lemma split_subject_inject: "split_subject s = Inr ts \<Longrightarrow> split_subject s' = Inr ts \<Longrightarrow> s = s'"
  by (auto simp: split_subject_Inr dest: py_split_inject)

lemma has_wildcard_tail: "has_wildcard TAIL_WILDCARD"
  by (simp add: has_wildcard_def TAIL_WILDCARD_def)

lemma has_wildcard_token: "has_wildcard TOKEN_WILDCARD"
  by (simp add: has_wildcard_def TOKEN_WILDCARD_def)

lemma check_tokens_Inr:
  "check_tokens pat (i + length ts - 1) i ts = Inr () \<longleftrightarrow> wf_pattern ts"
proof (induction ts arbitrary: i)
  case Nil
  then show ?case by simp
next
  case (Cons t ts)
  from Cons [of "Suc i"]
  have "check_tokens pat (i + length ts) (Suc i) ts = Inr () \<longleftrightarrow> wf_pattern ts"
    by simp
  then show ?case
    using has_wildcard_tail has_wildcard_token by (auto simp: wildcard_defs)
qed

lemma validate_pattern_Inr:
  "validate_pattern p = Inr ts \<longleftrightarrow> split_subject p = Inr ts \<and> wf_pattern ts"
proof -
  have "check_tokens p (length us - 1) 0 us = Inr () \<longleftrightarrow> wf_pattern us" for us
    using check_tokens_Inr [of p 0 us] by simp
  then show ?thesis
    by (auto simp: validate_pattern_def bind_result_Inr_iff)
qed

lemma validate_subject_Inr:
  "validate_subject s = Inr ts \<longleftrightarrow> split_subject s = Inr ts \<and> (\<forall>t\<in>set ts. \<not> has_wildcard t)"
  by (auto simp: validate_subject_def bind_result_Inr_iff list_ex_iff)

lemma wf_pattern_literal: "\<forall>t\<in>set ts. \<not> has_wildcard t \<Longrightarrow> wf_pattern ts"
  using has_wildcard_tail by (induction ts) auto

lemma wf_pattern_append: "\<forall>t\<in>set ps. \<not> has_wildcard t \<Longrightarrow> wf_pattern (ps @ qs) = wf_pattern qs"
  using has_wildcard_tail by (induction ps) auto

section \<open>Matching\<close>

lemma wildcards_distinct [simp]: "TAIL_WILDCARD \<noteq> TOKEN_WILDCARD" "TOKEN_WILDCARD \<noteq> TAIL_WILDCARD"
  by (simp_all add: wildcard_defs)

definition loop_verdict :: "nat \<Rightarrow> string list \<Rightarrow> string list \<Rightarrow> bool" where
  "loop_verdict i ps sub =
     (case match_loop i ps sub of Some b \<Rightarrow> b | None \<Rightarrow> i + length ps = length sub)"

lemma loop_verdict_Nil: "loop_verdict i [] sub \<longleftrightarrow> i = length sub"
  by (simp add: loop_verdict_def)

lemma loop_verdict_Cons:
  "loop_verdict i (p # ps) sub \<longleftrightarrow>
     i < length sub \<and>
     (p = TAIL_WILDCARD \<or> (p = TOKEN_WILDCARD \<or> p = sub ! i) \<and> loop_verdict (Suc i) ps sub)"
  by (auto simp: loop_verdict_def split: option.split)

lemma loop_verdict_correct:
  "wf_pattern ps \<Longrightarrow> i \<le> length sub \<Longrightarrow>
   loop_verdict i ps sub \<longleftrightarrow> subject_match ps (drop i sub)"
proof (induction ps arbitrary: i)
  case Nil
  then show ?case by (auto simp: loop_verdict_Nil)
next
  case (Cons p ps)
  show ?case
  proof (cases "i < length sub")
    case True
    then have drop: "drop i sub = sub ! i # drop (Suc i) sub"
      by (simp add: Cons_nth_drop_Suc)
    have IH: "loop_verdict (Suc i) ps sub \<longleftrightarrow> subject_match ps (drop (Suc i) sub)"
      using Cons True by simp
    show ?thesis
      using Cons.prems(1) True
      by (simp only: loop_verdict_Cons IH drop subject_match_Cons) auto
  next
    case False
    with Cons.prems show ?thesis by (simp add: loop_verdict_Cons subject_match_Cons)
  qed
qed

lemma matches_tokens_correct:
  assumes "wf_pattern ps" "split_subject s = Inr ts"
  shows "matches_tokens ps s = Inr (subject_match ps ts)"
  using loop_verdict_correct [OF assms(1), of 0 ts] assms(2)
  by (auto simp: matches_tokens_def loop_verdict_def split: option.splits)

lemma subject_match_literal:
  "\<forall>p\<in>set ps. \<not> has_wildcard p \<Longrightarrow> subject_match ps ts \<longleftrightarrow> ps = ts"
  using has_wildcard_tail has_wildcard_token
  by (induction ps arbitrary: ts) (auto simp: subject_match_Cons)

lemma matches_tokens_Inl: "matches_tokens ps s = Inl e \<longleftrightarrow> split_subject s = Inl e"
  by (cases "split_subject s") (auto simp: matches_tokens_def)

lemma subject_match_append_tail:
  "\<forall>p\<in>set ps. \<not> has_wildcard p \<Longrightarrow>
   subject_match (ps @ [TAIL_WILDCARD]) ts \<longleftrightarrow> (\<exists>us. us \<noteq> [] \<and> ts = ps @ us)"
  using has_wildcard_tail has_wildcard_token
  by (induction ps arbitrary: ts) (auto simp: subject_match_Cons)

section \<open>Properties\<close>

text \<open>
  C18. Matching implements the wildcard semantics: for every selector and every subject, \<open>matches\<close>
  raises what the validation of the selector raises, else what splitting the subject raises,
  and otherwise returns whether the subject's tokens are an instance of the pattern in the
  declarative sense of \<open>subject_match\<close>.
\<close>

theorem matches_implements_wildcards:
  "matches p s =
     (case validate_pattern p of
        Inl e \<Rightarrow> Inl e
      | Inr ps \<Rightarrow> (case split_subject s of Inl e \<Rightarrow> Inl e | Inr ts \<Rightarrow> Inr (subject_match ps ts)))"
proof (cases "validate_pattern p")
  case (Inr ps)
  then have "wf_pattern ps" by (simp add: validate_pattern_Inr)
  with Inr matches_tokens_correct [of ps s] show ?thesis
    by (cases "split_subject s") (simp_all add: matches_def matches_tokens_Inl)
qed (simp add: matches_def)

lemma wf_pattern_positions:
  "wf_pattern ts \<longleftrightarrow>
     (\<forall>i < length ts. (ts ! i = TAIL_WILDCARD \<longrightarrow> Suc i = length ts) \<and>
        (has_wildcard (ts ! i) \<longrightarrow> ts ! i = TAIL_WILDCARD \<or> ts ! i = TOKEN_WILDCARD))"
proof (induction ts)
  case Nil
  then show ?case by simp
next
  case (Cons t ts)
  then show ?case by (auto simp: All_less_Suc2)
qed

text \<open>
  The validator accepts exactly the well-formed selectors: those with no empty token where
  the tail wildcard is only ever the last token and a wildcard character only ever a token of
  its own; and it returns the tokens of the split.
\<close>

theorem validate_pattern_accepts:
  "validate_pattern p = Inr ts \<longleftrightarrow>
     p \<noteq> [] \<and> ts = py_split (CHR ''.'') p \<and> [] \<notin> set ts \<and>
     (\<forall>i < length ts. (ts ! i = TAIL_WILDCARD \<longrightarrow> Suc i = length ts) \<and>
        (has_wildcard (ts ! i) \<longrightarrow> ts ! i = TAIL_WILDCARD \<or> ts ! i = TOKEN_WILDCARD))"
  by (simp add: validate_pattern_Inr split_subject_Inr wf_pattern_positions)

theorem validate_pattern_accepts_witness:
  "validate_pattern ''a.*.>'' = Inr [''a'', ''*'', ''>''] \<and> \<not> validate_pattern ''a.>.b'' = Inr [''a'', ''>'', ''b'']"
  unfolding validate_pattern_accepts
  by (simp add: All_less_Suc2 wildcard_defs has_wildcard_def numeral_3_eq_3)

text \<open>
  A selector without wildcards is an exact subscription: it matches a valid subject if and
  only if the two strings are equal.
\<close>

theorem literal_selector_is_exact:
  assumes "validate_subject p = Inr ps" "split_subject s = Inr ts"
  shows "matches p s = Inr (p = s)"
proof -
  have ps: "split_subject p = Inr ps" "\<forall>t\<in>set ps. \<not> has_wildcard t"
    using assms(1) by (simp_all add: validate_subject_Inr)
  then have "validate_pattern p = Inr ps" by (simp add: validate_pattern_Inr wf_pattern_literal)
  moreover have "subject_match ps ts \<longleftrightarrow> p = s"
    unfolding subject_match_literal [OF ps(2)]
    using split_subject_inject ps(1) assms(2) by (metis Inr_inject)
  ultimately show ?thesis
    using matches_tokens_correct [OF wf_pattern_literal [OF ps(2)] assms(2)] by (simp add: matches_def)
qed

theorem literal_selector_is_exact_witness: "matches ''a.b'' ''a.c'' = Inr (''a.b'' = ''a.c'')"
  by (rule literal_selector_is_exact [of _ "[''a'', ''b'']" _ "[''a'', ''c'']"]) code_simp+

text \<open>
  The tail wildcard matches one or more further tokens, never zero: a literal prefix followed
  by it matches a valid subject if and only if the subject is the prefix, a dot, and more.
\<close>

theorem tail_wildcard_needs_more:
  assumes "validate_subject p = Inr ps" "split_subject s = Inr ts"
  shows "matches (p @ ''.>'') s = Inr (\<exists>r. s = p @ ''.'' @ r)"
proof -
  have p: "p \<noteq> []" "ps = py_split (CHR ''.'') p" "[] \<notin> set ps" "\<forall>t\<in>set ps. \<not> has_wildcard t"
    using assms(1) unfolding validate_subject_Inr split_subject_Inr by blast+
  have s: "ts = py_split (CHR ''.'') s" using assms(2) by (simp add: split_subject_Inr)
  have split: "py_split (CHR ''.'') (p @ ''.>'') = ps @ [TAIL_WILDCARD]"
    using py_split_append [of "CHR ''.''" p "''>''"] p(2) by (simp add: TAIL_WILDCARD_def)
  have wf: "wf_pattern (ps @ [TAIL_WILDCARD])"
    using wf_pattern_append [OF p(4)] by simp
  then have valid: "validate_pattern (p @ ''.>'') = Inr (ps @ [TAIL_WILDCARD])"
    using p(3) split by (simp add: validate_pattern_Inr split_subject_Inr) (simp add: TAIL_WILDCARD_def)
  have "(\<exists>us. us \<noteq> [] \<and> ts = ps @ us) \<longleftrightarrow> (\<exists>r. s = p @ ''.'' @ r)"
  proof
    assume "\<exists>us. us \<noteq> [] \<and> ts = ps @ us"
    then obtain us where us: "us \<noteq> []" "ts = ps @ us" by blast
    have "py_join (CHR ''.'') (ps @ us) = py_join (CHR ''.'') ps @ CHR ''.'' # py_join (CHR ''.'') us"
      using us(1) p(2) by (intro py_join_append) simp_all
    then have "s = p @ ''.'' @ py_join (CHR ''.'') us"
      using us(2) s p(2) by (metis append_Cons append_Nil py_join_py_split)
    then show "\<exists>r. s = p @ ''.'' @ r" by blast
  next
    assume "\<exists>r. s = p @ ''.'' @ r"
    then show "\<exists>us. us \<noteq> [] \<and> ts = ps @ us"
      using s p(2) by (auto simp: py_split_append)
  qed
  with valid matches_tokens_correct [OF wf assms(2)] show ?thesis
    by (simp add: matches_def subject_match_append_tail [OF p(4)])
qed

theorem tail_wildcard_needs_more_witness: "matches (''a'' @ ''.>'') ''a'' = Inr (\<exists>r. ''a'' = ''a'' @ ''.'' @ r)"
  by (rule tail_wildcard_needs_more [of _ "[''a'']" _ "[''a'']"]) code_simp+

end
