(* ===== verification/Router.thy ===== *)
theory Router
  imports Types Topic
begin

text \<open>
  The subscriber registry of \<open>pubsub/server/router.py\<close>.  A \<open>Registration\<close> is a shared
  mutable object (the router, a running replay and a fanout snapshot all hold it), so the
  registrations live in a heap, a list indexed by address, and the router's dictionary maps
  subscription ids to addresses.  Its queue is an address too: stream and retry tasks share it.
\<close>

record registration =
  reg_sub :: subscription
  reg_queue :: nat
  reg_tokens :: "string list"
  reg_replaying :: bool
  reg_buffer :: "delivery list"

type_synonym reg_heap = "registration list"
type_synonym router = "(string, nat) dict"

text \<open>\<open>selector_tokens or subscription.selector.split(".")\<close>: no or empty tokens are split again.\<close>

definition new_registration :: "subscription \<Rightarrow> nat \<Rightarrow> string list option \<Rightarrow> registration" where
  "new_registration sub queue tokens =
     \<lparr>reg_sub = sub, reg_queue = queue,
      reg_tokens = (case tokens of
          Some (t # ts) \<Rightarrow> t # ts
        | _ \<Rightarrow> py_split (CHR ''.'') (sub_selector sub)),
      reg_replaying = False, reg_buffer = []\<rparr>"

definition router_register :: "reg_heap \<Rightarrow> nat \<Rightarrow> router \<Rightarrow> router" where
  "router_register h a r = dict_set (sub_id (reg_sub (h ! a))) a r"

definition router_unregister :: "string \<Rightarrow> router \<Rightarrow> nat option \<times> router" where
  "router_unregister sid r = (dict_get r sid, dict_pop sid r)"

definition router_get :: "router \<Rightarrow> string \<Rightarrow> nat option" where
  "router_get r sid = dict_get r sid"

text \<open>The generator \<open>match\<close>, run to its end: an invalid subject raises at the first test.\<close>

fun match_addresses :: "reg_heap \<Rightarrow> nat list \<Rightarrow> string \<Rightarrow> nat list result" where
  "match_addresses h [] subject = Inr []"
| "match_addresses h (a # as) subject =
     bind_result (matches_tokens (reg_tokens (h ! a)) subject) (\<lambda>hit.
       bind_result (match_addresses h as subject) (\<lambda>rest.
         Inr (if hit then a # rest else rest)))"

definition router_match :: "reg_heap \<Rightarrow> router \<Rightarrow> string \<Rightarrow> nat list result" where
  "router_match h r subject = match_addresses h (map snd r) subject"

definition active_count :: "router \<Rightarrow> nat" where
  "active_count r = length r"

section \<open>Matching\<close>

definition reg_matches :: "registration \<Rightarrow> string list \<Rightarrow> bool" where
  "reg_matches reg ts \<longleftrightarrow> subject_match (reg_tokens reg) ts"

lemma match_addresses_correct:
  assumes "split_subject s = Inr ts" "\<forall>a\<in>set as. wf_pattern (reg_tokens (h ! a))"
  shows "match_addresses h as s = Inr (filter (\<lambda>a. reg_matches (h ! a) ts) as)"
  using assms(2)
  by (induction as) (auto simp: matches_tokens_correct [OF _ assms(1)] reg_matches_def)

lemma match_addresses_sound:
  "match_addresses h as s = Inr bs \<Longrightarrow>
   set bs \<subseteq> {a \<in> set as. matches_tokens (reg_tokens (h ! a)) s = Inr True}"
proof (induction as arbitrary: bs)
  case Nil
  then show ?case by simp
next
  case (Cons a as)
  then obtain hit rest where "matches_tokens (reg_tokens (h ! a)) s = Inr hit"
    and "match_addresses h as s = Inr rest" and "bs = (if hit then a # rest else rest)"
    by (auto simp: bind_result_Inr_iff)
  with Cons.IH [of rest] show ?case by (cases hit) auto
qed

lemma match_addresses_frame:
  "\<forall>a\<in>set as. reg_tokens (h' ! a) = reg_tokens (h ! a) \<Longrightarrow>
   match_addresses h' as s = match_addresses h as s"
  by (induction as) auto

lemma router_match_correct:
  assumes "split_subject s = Inr ts" "\<forall>a\<in>snd ` set r. wf_pattern (reg_tokens (h ! a))"
  shows "router_match h r s = Inr (filter (\<lambda>a. reg_matches (h ! a) ts) (map snd r))"
  unfolding router_match_def by (rule match_addresses_correct) (use assms in auto)

lemma router_match_invalid:
  "split_subject s = Inl e \<Longrightarrow> router_match h r s = (if r = [] then Inr [] else Inl e)"
  by (cases r) (auto simp: router_match_def matches_tokens_def)

end
