(* ===== verification/Durability.thy ===== *)
theory Durability
  imports Types
begin

text \<open>
  The durability contract (\<open>pubsub/server/durability/abc.py\<close>) and the two backends without
  a database, \<open>memory.py\<close> and \<open>null.py\<close>.  A backend is a record of its operations over its
  own state \<open>'d\<close>; an operation returns a value or raises, and the state it leaves behind.
\<close>

type_synonym ('d, 'a) dur_op = "'d \<Rightarrow> 'a result \<times> 'd"

record 'd backend =
  be_register_topic :: "string \<Rightarrow> bool \<Rightarrow> ('d, unit) dur_op"
  be_append :: "message \<Rightarrow> ('d, unit) dur_op"
  be_read_from :: "timestamp \<Rightarrow> ('d, message list) dur_op"
  be_record_ack :: "string \<Rightarrow> string \<Rightarrow> ('d, unit) dur_op"
  be_last_acked :: "string \<Rightarrow> ('d, string option) dur_op"
  be_to_dlq :: "dlq_entry \<Rightarrow> ('d, unit) dur_op"
  be_read_dlq :: "('d, dlq_entry list) dur_op"
  be_close :: "('d, unit) dur_op"

text \<open>\<open>sorted(ms, key=created_at)\<close> over the retained messages from \<open>ts\<close> on: both are stable.\<close>

definition history_from :: "timestamp \<Rightarrow> message list \<Rightarrow> message list" where
  "history_from ts ms = sort_key msg_created_at (filter (\<lambda>m. ts \<le> msg_created_at m) ms)"

lemma history_from_sorted [simp]: "sorted (map msg_created_at (history_from ts ms))"
  by (simp add: history_from_def)

lemma set_history_from [simp]: "set (history_from ts ms) = {m \<in> set ms. ts \<le> msg_created_at m}"
  by (auto simp: history_from_def)

lemma history_from_stable:
  "t \<ge> ts \<Longrightarrow>
   filter (\<lambda>m. msg_created_at m = t) (history_from ts ms) = filter (\<lambda>m. msg_created_at m = t) ms"
proof (induction ms)
  case Nil
  then show ?case by (simp add: history_from_def)
next
  case (Cons m ms)
  have "filter (\<lambda>m. msg_created_at m = t) (insort_key msg_created_at m xs)
      = (if msg_created_at m = t then m # filter (\<lambda>m. msg_created_at m = t) xs
         else filter (\<lambda>m. msg_created_at m = t) xs)"
    if "sorted (map msg_created_at xs)" for xs
    using that
    by (simp add: filter_insort insort_is_Cons filter_insort_triv)
  with Cons show ?case by (auto simp: history_from_def)
qed

section \<open>The contract\<close>

text \<open>
  What the abstract base class promises, over three views of the backend's state: the
  retained history in append order, the last ack of each subscription, the dead letters.
  A backend may drop a message and may fail; it never invents, reorders or loses one
  that it retained.  \<open>storable\<close> are the messages the backend can give back: a backend that
  serialises them only promises something for the ones its format can carry.
\<close>

locale durability_backend =
  fixes be :: "'d backend"
    and inv :: "'d \<Rightarrow> bool"
    and retained :: "'d \<Rightarrow> message list"
    and acked :: "'d \<Rightarrow> string \<Rightarrow> string option"
    and dead :: "'d \<Rightarrow> dlq_entry list"
    and storable :: "message \<Rightarrow> bool"
  assumes register_frame: "inv d \<Longrightarrow> be_register_topic be t b d = (r, d') \<Longrightarrow>
        inv d' \<and> retained d' = retained d \<and> acked d' = acked d \<and> dead d' = dead d"
    and append_frame: "inv d \<Longrightarrow> be_append be m d = (r, d') \<Longrightarrow>
        inv d' \<and> acked d' = acked d \<and> dead d' = dead d"
    and append_retained: "inv d \<Longrightarrow> storable m \<Longrightarrow> be_append be m d = (r, d') \<Longrightarrow>
        retained d' = retained d \<or> retained d' = retained d @ [m]"
    and append_atomic: "inv d \<Longrightarrow> be_append be m d = (Inl x, d') \<Longrightarrow> retained d' = retained d"
    and read_frame: "inv d \<Longrightarrow> be_read_from be ts d = (rm, d') \<Longrightarrow>
        inv d' \<and> retained d' = retained d \<and> acked d' = acked d \<and> dead d' = dead d"
    and read_result: "inv d \<Longrightarrow> be_read_from be ts d = (Inr ms, d') \<Longrightarrow>
        ms = history_from ts (retained d)"
    and ack_frame: "inv d \<Longrightarrow> be_record_ack be sid mid d = (r, d') \<Longrightarrow>
        inv d' \<and> retained d' = retained d \<and> dead d' = dead d \<and>
        (acked d' = acked d \<or> acked d' = (acked d)(sid \<mapsto> mid))"
    and last_acked_frame: "inv d \<Longrightarrow> be_last_acked be sid d = (ra, d') \<Longrightarrow>
        inv d' \<and> retained d' = retained d \<and> acked d' = acked d \<and> dead d' = dead d"
    and last_acked_result: "inv d \<Longrightarrow> be_last_acked be sid d = (Inr a, d') \<Longrightarrow> a = acked d sid"
    and dlq_frame: "inv d \<Longrightarrow> be_to_dlq be e d = (r, d') \<Longrightarrow>
        inv d' \<and> retained d' = retained d \<and> acked d' = acked d"
    and dlq_dead: "inv d \<Longrightarrow> storable (dq_message e) \<Longrightarrow> be_to_dlq be e d = (r, d') \<Longrightarrow>
        dead d' = dead d \<or> dead d' = dead d @ [e]"
    and read_dlq_frame: "inv d \<Longrightarrow> be_read_dlq be d = (rd, d') \<Longrightarrow>
        inv d' \<and> retained d' = retained d \<and> acked d' = acked d \<and> dead d' = dead d"
    and read_dlq_result: "inv d \<Longrightarrow> be_read_dlq be d = (Inr es, d') \<Longrightarrow> es = dead d"
begin

lemma read_sorted:
  "inv d \<Longrightarrow> be_read_from be ts d = (Inr ms, d') \<Longrightarrow> sorted (map msg_created_at ms)"
  using read_result [of d ts ms d'] by simp

lemma read_inclusive:
  "inv d \<Longrightarrow> be_read_from be ts d = (Inr ms, d') \<Longrightarrow>
   set ms = {m \<in> set (retained d). ts \<le> msg_created_at m}"
  using read_result [of d ts ms d'] by simp

lemma read_ties_in_append_order:
  "inv d \<Longrightarrow> be_read_from be ts d = (Inr ms, d') \<Longrightarrow> ts \<le> t \<Longrightarrow>
   filter (\<lambda>m. msg_created_at m = t) ms = filter (\<lambda>m. msg_created_at m = t) (retained d)"
  using read_result [of d ts ms d'] by (simp add: history_from_stable)

end

text \<open>
  A backend that keeps what it accepts: the topic's current mode decides, at the append,
  whether the message enters the history, and a successful write is visible.
\<close>

locale retaining_backend = durability_backend +
  fixes mode :: "'a \<Rightarrow> string \<Rightarrow> bool"
  assumes register_ok: "inv d \<Longrightarrow> be_register_topic be t b d = (Inr u, d') \<Longrightarrow>
        mode d' = (mode d)(t := b)"
    and append_ok: "inv d \<Longrightarrow> storable m \<Longrightarrow> be_append be m d = (Inr u, d') \<Longrightarrow>
        retained d' = (if mode d (msg_topic m) then retained d @ [m] else retained d)"
    and append_mode: "inv d \<Longrightarrow> be_append be m d = (r, d') \<Longrightarrow> mode d' = mode d"
    and ack_ok: "inv d \<Longrightarrow> be_record_ack be sid mid d = (Inr u, d') \<Longrightarrow>
        acked d' = (acked d)(sid \<mapsto> mid)"
    and ack_mode: "inv d \<Longrightarrow> be_record_ack be sid mid d = (r, d') \<Longrightarrow> mode d' = mode d"
    and dlq_ok: "inv d \<Longrightarrow> storable (dq_message e) \<Longrightarrow> be_to_dlq be e d = (Inr u, d') \<Longrightarrow> dead d' = dead d @ [e]"
    and dlq_mode: "inv d \<Longrightarrow> be_to_dlq be e d = (r, d') \<Longrightarrow> mode d' = mode d"
begin

lemma append_then_read:
  assumes "inv d" "storable m" "mode d (msg_topic m)" "be_append be m d = (Inr u, d')"
    and "be_read_from be ts d' = (Inr ms, d'')" "ts \<le> msg_created_at m"
  shows "m \<in> set ms"
proof -
  have "inv d'" "retained d' = retained d @ [m]"
    using append_frame [OF assms(1,4)] append_ok [OF assms(1,2,4)] assms(3) by simp_all
  then show ?thesis
    using read_inclusive [OF _ assms(5)] assms(6) by simp
qed

end

section \<open>Writes, and what a sequence of them means\<close>

datatype dur_write =
    RegisterTopic string bool
  | Append message
  | RecordAck string string
  | DeadLetter dlq_entry

definition run_write :: "'d backend \<Rightarrow> dur_write \<Rightarrow> ('d, unit) dur_op" where
  "run_write be w d = (case w of
       RegisterTopic t b \<Rightarrow> be_register_topic be t b d
     | Append m \<Rightarrow> be_append be m d
     | RecordAck sid mid \<Rightarrow> be_record_ack be sid mid d
     | DeadLetter e \<Rightarrow> be_to_dlq be e d)"

text \<open>Runs writes in order and stops at the first that raises.\<close>

fun run_writes :: "'d backend \<Rightarrow> dur_write list \<Rightarrow> ('d, unit) dur_op" where
  "run_writes be [] d = (Inr (), d)"
| "run_writes be (w # ws) d =
     (case run_write be w d of
        (Inl e, d') \<Rightarrow> (Inl e, d')
      | (Inr _, d') \<Rightarrow> run_writes be ws d')"

text \<open>The abstract store: topic modes, history, acks and dead letters as plain values.\<close>

record abs_store =
  as_mode :: "string \<Rightarrow> bool"
  as_history :: "message list"
  as_acks :: "string \<Rightarrow> string option"
  as_dead :: "dlq_entry list"

fun abs_write :: "dur_write \<Rightarrow> abs_store \<Rightarrow> abs_store" where
  "abs_write (RegisterTopic t b) s = s\<lparr>as_mode := (as_mode s)(t := b)\<rparr>"
| "abs_write (Append m) s =
     (if as_mode s (msg_topic m) then s\<lparr>as_history := as_history s @ [m]\<rparr> else s)"
| "abs_write (RecordAck sid mid) s = s\<lparr>as_acks := (as_acks s)(sid \<mapsto> mid)\<rparr>"
| "abs_write (DeadLetter e) s = s\<lparr>as_dead := as_dead s @ [e]\<rparr>"

context retaining_backend
begin

definition view :: "'a \<Rightarrow> abs_store" where
  "view d = \<lparr>as_mode = mode d, as_history = retained d, as_acks = acked d, as_dead = dead d\<rparr>"

fun write_ok :: "dur_write \<Rightarrow> bool" where
  "write_ok (Append m) = storable m"
| "write_ok (DeadLetter e) = storable (dq_message e)"
| "write_ok _ = True"

lemma run_write_view:
  assumes "inv d" "write_ok w" "run_write be w d = (Inr u, d')"
  shows "inv d' \<and> view d' = abs_write w (view d)"
proof (cases w)
  case (RegisterTopic t b)
  with assms have "be_register_topic be t b d = (Inr u, d')"
    by (simp add: run_write_def)
  from register_frame [OF assms(1) this] register_ok [OF assms(1) this] RegisterTopic
  show ?thesis by (simp add: view_def)
next
  case (Append m)
  with assms have "be_append be m d = (Inr u, d')"
    by (simp add: run_write_def)
  from append_frame [OF assms(1) this] append_ok [OF assms(1) _ this]
    append_mode [OF assms(1) this] Append assms(2)
  show ?thesis by (simp add: view_def)
next
  case (RecordAck sid mid)
  with assms have "be_record_ack be sid mid d = (Inr u, d')"
    by (simp add: run_write_def)
  from ack_frame [OF assms(1) this] ack_ok [OF assms(1) this] ack_mode [OF assms(1) this] RecordAck
  show ?thesis by (simp add: view_def)
next
  case (DeadLetter e)
  with assms have "be_to_dlq be e d = (Inr u, d')"
    by (simp add: run_write_def)
  from dlq_frame [OF assms(1) this] dlq_ok [OF assms(1) _ this] dlq_mode [OF assms(1) this] DeadLetter assms(2)
  show ?thesis by (simp add: view_def)
qed

lemma run_writes_view:
  "inv d \<Longrightarrow> list_all write_ok ws \<Longrightarrow> run_writes be ws d = (Inr u, d') \<Longrightarrow> inv d' \<and> view d' = fold abs_write ws (view d)"
proof (induction ws arbitrary: d)
  case Nil
  then show ?case by simp
next
  case (Cons w ws)
  then obtain v d1 where w: "run_write be w d = (Inr v, d1)"
    and ws: "run_writes be ws d1 = (Inr u, d')"
    by (auto split: prod.splits sum.splits)
  from run_write_view [OF Cons.prems(1) _ w] Cons.IH [OF _ _ ws] Cons.prems(2)
  show ?case by simp
qed

end

section \<open>In-memory backend\<close>

record mem_store =
  ms_replayable :: "(string, bool) dict"
  ms_history :: "message list"
  ms_acks :: "(string, string) dict"
  ms_dlq :: "dlq_entry list"

definition mem_init :: mem_store where
  "mem_init = \<lparr>ms_replayable = [], ms_history = [], ms_acks = [], ms_dlq = []\<rparr>"

definition mem_register_topic :: "string \<Rightarrow> bool \<Rightarrow> (mem_store, unit) dur_op" where
  "mem_register_topic topic replayable s =
     (Inr (), s\<lparr>ms_replayable := dict_set topic replayable (ms_replayable s)\<rparr>)"

text \<open>\<open>self._replayable.get(topic, False)\<close>.\<close>

definition mem_mode :: "mem_store \<Rightarrow> string \<Rightarrow> bool" where
  "mem_mode s topic = (case dict_get (ms_replayable s) topic of Some b \<Rightarrow> b | None \<Rightarrow> False)"

definition mem_append :: "message \<Rightarrow> (mem_store, unit) dur_op" where
  "mem_append m s =
     (Inr (), if mem_mode s (msg_topic m) then s\<lparr>ms_history := ms_history s @ [m]\<rparr> else s)"

definition mem_read_from :: "timestamp \<Rightarrow> (mem_store, message list) dur_op" where
  "mem_read_from ts s =
     (Inr (sort_key msg_created_at (filter (\<lambda>m. ts \<le> msg_created_at m) (ms_history s))), s)"

definition mem_record_ack :: "string \<Rightarrow> string \<Rightarrow> (mem_store, unit) dur_op" where
  "mem_record_ack sid mid s = (Inr (), s\<lparr>ms_acks := dict_set sid mid (ms_acks s)\<rparr>)"

definition mem_last_acked :: "string \<Rightarrow> (mem_store, string option) dur_op" where
  "mem_last_acked sid s = (Inr (dict_get (ms_acks s) sid), s)"

definition mem_to_dlq :: "dlq_entry \<Rightarrow> (mem_store, unit) dur_op" where
  "mem_to_dlq e s = (Inr (), s\<lparr>ms_dlq := ms_dlq s @ [e]\<rparr>)"

definition mem_read_dlq :: "(mem_store, dlq_entry list) dur_op" where
  "mem_read_dlq s = (Inr (ms_dlq s), s)"

definition mem_close :: "(mem_store, unit) dur_op" where
  "mem_close s = (Inr (), s)"

definition memory_backend :: "mem_store backend" where
  "memory_backend =
     \<lparr>be_register_topic = mem_register_topic, be_append = mem_append,
      be_read_from = mem_read_from, be_record_ack = mem_record_ack,
      be_last_acked = mem_last_acked, be_to_dlq = mem_to_dlq,
      be_read_dlq = mem_read_dlq, be_close = mem_close\<rparr>"

lemma memory_backend_sel [simp]:
  "be_register_topic memory_backend = mem_register_topic"
  "be_append memory_backend = mem_append"
  "be_read_from memory_backend = mem_read_from"
  "be_record_ack memory_backend = mem_record_ack"
  "be_last_acked memory_backend = mem_last_acked"
  "be_to_dlq memory_backend = mem_to_dlq"
  "be_read_dlq memory_backend = mem_read_dlq"
  "be_close memory_backend = mem_close"
  by (simp_all add: memory_backend_def)

lemmas mem_op_defs = mem_register_topic_def mem_append_def mem_read_from_def mem_record_ack_def
  mem_last_acked_def mem_to_dlq_def mem_read_dlq_def mem_close_def

interpretation mem: retaining_backend memory_backend "\<lambda>_. True" ms_history
    "\<lambda>s. dict_get (ms_acks s)" ms_dlq "\<lambda>_. True" mem_mode
  by unfold_locales
    (auto simp: mem_op_defs mem_mode_def history_from_def dict_simps fun_eq_iff
       split: if_splits option.splits)

section \<open>Null backend\<close>

text \<open>The null backend has no state: it accepts everything and keeps nothing.\<close>

definition null_register_topic :: "string \<Rightarrow> bool \<Rightarrow> (unit, unit) dur_op" where
  "null_register_topic topic replayable s = (Inr (), s)"

definition null_append :: "message \<Rightarrow> (unit, unit) dur_op" where
  "null_append m s = (Inr (), s)"

definition null_read_from :: "timestamp \<Rightarrow> (unit, message list) dur_op" where
  "null_read_from ts s = (Inr [], s)"

definition null_record_ack :: "string \<Rightarrow> string \<Rightarrow> (unit, unit) dur_op" where
  "null_record_ack sid mid s = (Inr (), s)"

definition null_last_acked :: "string \<Rightarrow> (unit, string option) dur_op" where
  "null_last_acked sid s = (Inr None, s)"

definition null_to_dlq :: "dlq_entry \<Rightarrow> (unit, unit) dur_op" where
  "null_to_dlq e s = (Inr (), s)"

definition null_read_dlq :: "(unit, dlq_entry list) dur_op" where
  "null_read_dlq s = (Inr [], s)"

definition null_close :: "(unit, unit) dur_op" where
  "null_close s = (Inr (), s)"

definition null_backend :: "unit backend" where
  "null_backend =
     \<lparr>be_register_topic = null_register_topic, be_append = null_append,
      be_read_from = null_read_from, be_record_ack = null_record_ack,
      be_last_acked = null_last_acked, be_to_dlq = null_to_dlq,
      be_read_dlq = null_read_dlq, be_close = null_close\<rparr>"

lemmas null_op_defs = null_register_topic_def null_append_def null_read_from_def
  null_record_ack_def null_last_acked_def null_to_dlq_def null_read_dlq_def null_close_def

interpretation null: durability_backend null_backend "\<lambda>_. True" "\<lambda>_. []" "\<lambda>_. Map.empty" "\<lambda>_. []" "\<lambda>_. True"
  by unfold_locales (auto simp: null_backend_def null_op_defs history_from_def)

section \<open>Properties\<close>

definition abs_empty :: abs_store where
  "abs_empty = \<lparr>as_mode = \<lambda>_. False, as_history = [], as_acks = Map.empty, as_dead = []\<rparr>"

lemma mem_view_init: "mem.view mem_init = abs_empty"
  by (simp add: mem.view_def mem_init_def abs_empty_def mem_mode_def fun_eq_iff)

lemma mem_write_ok [simp]: "list_all mem.write_ok ws"
proof -
  have "mem.write_ok w" for w by (cases w) simp_all
  then show ?thesis by (simp add: list_all_def)
qed

lemma mem_writes_total: "\<exists>d'. run_writes memory_backend ws d = (Inr (), d')"
proof (induction ws arbitrary: d)
  case Nil
  then show ?case by simp
next
  case (Cons w ws)
  have "\<exists>d1. run_write memory_backend w d = (Inr (), d1)"
    by (cases w) (simp_all add: run_write_def mem_op_defs)
  with Cons show ?case by auto
qed

text \<open>
  C19. The in-memory backend implements the abstract store: any sequence of writes succeeds, and
  afterwards its topic modes, its history in append order, its last acks and its dead letters
  are what the same writes make of the empty abstract store.
\<close>

theorem memory_refines_store:
  "\<exists>d. run_writes memory_backend ws mem_init = (Inr (), d) \<and>
       \<lparr>as_mode = mem_mode d, as_history = ms_history d, as_acks = dict_get (ms_acks d), as_dead = ms_dlq d\<rparr>
         = fold abs_write ws abs_empty"
proof -
  obtain d where d: "run_writes memory_backend ws mem_init = (Inr (), d)"
    using mem_writes_total by blast
  from mem.run_writes_view [OF _ _ d] have "mem.view d = fold abs_write ws abs_empty"
    by (simp add: mem_view_init)
  with d show ?thesis by (auto simp: mem.view_def)
qed

text \<open>
  Reading back from the in-memory backend: after any sequence of writes, reading from a
  timestamp returns exactly the retained messages at or after it, in ascending order of age,
  with messages of the same age in the order they were appended.
\<close>

theorem memory_read_is_sorted_history:
  assumes "run_writes memory_backend ws mem_init = (Inr (), d)" "mem_read_from ts d = (Inr ms, d')"
  shows "sorted (map msg_created_at ms) \<and>
         set ms = {m \<in> set (as_history (fold abs_write ws
           abs_empty)). ts \<le> msg_created_at m} \<and>
         (\<forall>t \<ge> ts. filter (\<lambda>m. msg_created_at m = t) ms =
            filter (\<lambda>m. msg_created_at m = t) (as_history (fold abs_write ws
              abs_empty)))"
proof -
  have "mem.view d = fold abs_write ws abs_empty"
    using mem.run_writes_view [OF _ _ assms(1)] by (simp add: mem_view_init)
  then have h: "as_history (fold abs_write ws abs_empty) = ms_history d"
    by (metis abs_store.select_convs(2) mem.view_def)
  have r: "be_read_from memory_backend ts d = (Inr ms, d')" using assms(2) by simp
  show ?thesis
    unfolding h
    by (intro conjI allI impI mem.read_sorted [OF TrueI r] mem.read_inclusive [OF TrueI r]
        mem.read_ties_in_append_order [OF TrueI r])
qed

definition old_message :: message where
  "old_message = \<lparr>msg_id = ''1'', msg_topic = ''a'', msg_payload = MNone, msg_extras = [], msg_created_at = 1\<rparr>"

definition new_message :: message where
  "new_message = \<lparr>msg_id = ''2'', msg_topic = ''a'', msg_payload = MNone, msg_extras = [], msg_created_at = 2\<rparr>"

theorem memory_read_is_sorted_history_witness:
  "sorted (map msg_created_at [old_message, new_message])"
proof -
  let ?ws = "[RegisterTopic ''a'' True, Append new_message, Append old_message]"
  let ?d = "\<lparr>ms_replayable = [(''a'', True)], ms_history = [new_message, old_message], ms_acks = [], ms_dlq = []\<rparr>"
  have "run_writes memory_backend ?ws mem_init = (Inr (), ?d)"
    by (simp add: run_write_def mem_op_defs mem_init_def mem_mode_def old_message_def new_message_def)
  moreover have "mem_read_from 1 ?d = (Inr [old_message, new_message], ?d)"
    by (simp add: mem_read_from_def old_message_def new_message_def)
  ultimately show ?thesis using memory_read_is_sorted_history by blast
qed

text \<open>
  The null backend accepts every write and keeps nothing: after any sequence of writes,
  reading the history from any timestamp, the last ack of any subscription and the dead
  letters finds nothing.
\<close>

theorem null_keeps_nothing:
  "run_writes null_backend ws () = (Inr (), ()) \<and>
   be_read_from null_backend ts (snd (run_writes null_backend ws ())) = (Inr [], ()) \<and>
   be_last_acked null_backend sid (snd (run_writes null_backend ws ())) = (Inr None, ()) \<and>
   be_read_dlq null_backend (snd (run_writes null_backend ws ())) = (Inr [], ())"
proof -
  have "run_write null_backend w () = (Inr (), ())" for w
    by (cases w) (simp_all add: run_write_def null_backend_def null_op_defs)
  then have "run_writes null_backend ws () = (Inr (), ())"
    by (induction ws) simp_all
  then show ?thesis by (simp add: null_backend_def null_op_defs)
qed

end
