(* ===== verification/Observability.thy ===== *)
theory Observability
  imports Types
begin

text \<open>
  The observer seam (\<open>pubsub/observability/__init__.py\<close>) and its OpenTelemetry adapter
  (\<open>otel.py\<close>).  The broker's calls of the hooks, in order, are a list of events; the adapter
  turns each into one increment of one counter with its attributes.
\<close>

datatype obs_event =
    OnPublish string bool "string option"
  | OnDeliver string string int
  | OnAck string
  | OnNack string int
  | OnRetryExhausted string

datatype counter = Publishes | Deliveries | Acks | Nacks | Exhausted

definition counter_name :: "counter \<Rightarrow> string" where
  "counter_name c = (case c of
       Publishes \<Rightarrow> ''pubsub.publishes''
     | Deliveries \<Rightarrow> ''pubsub.deliveries''
     | Acks \<Rightarrow> ''pubsub.acks''
     | Nacks \<Rightarrow> ''pubsub.nacks''
     | Exhausted \<Rightarrow> ''pubsub.retry_exhausted'')"

type_synonym attrs = "(string, mpval) dict"

text \<open>One \<open>counter.add(1, attrs)\<close> for each hook.\<close>

fun otel_add :: "obs_event \<Rightarrow> counter \<times> attrs" where
  "otel_add (OnPublish topic accepted reason) =
     (Publishes,
      [(''topic'', MStr topic), (''accepted'', MBool accepted)] @
      (case reason of None \<Rightarrow> [] | Some r \<Rightarrow> [(''reason'', MStr r)]))"
| "otel_add (OnDeliver topic sid attempt) =
     (Deliveries, [(''topic'', MStr topic), (''subscription_id'', MStr sid), (''attempt'', MInt attempt)])"
| "otel_add (OnAck sid) = (Acks, [(''subscription_id'', MStr sid)])"
| "otel_add (OnNack sid attempt) =
     (Nacks, [(''subscription_id'', MStr sid), (''attempt'', MInt attempt)])"
| "otel_add (OnRetryExhausted sid) = (Exhausted, [(''subscription_id'', MStr sid)])"

definition counter_value :: "counter \<Rightarrow> obs_event list \<Rightarrow> nat" where
  "counter_value c es = length (filter (\<lambda>e. fst (otel_add e) = c) es)"

lemma counter_value_Nil [simp]: "counter_value c [] = 0"
  by (simp add: counter_value_def)

lemma counter_value_append [simp]: "counter_value c (es @ fs) = counter_value c es + counter_value c fs"
  by (simp add: counter_value_def)

lemma counter_value_Cons [simp]:
  "counter_value c (e # es) = (if fst (otel_add e) = c then 1 else 0) + counter_value c es"
  by (simp add: counter_value_def)

end
