(* ===== verification/Ids.thy ===== *)
theory Ids
  imports Prelude
begin

text \<open>
  Identifiers (\<open>pubsub/shared/ids.py\<close>).  \<open>random.getrandbits(128)\<close> is the argument of
  \<open>new_id\<close>; the formatting \<open>"%032x"\<close> is written out.  Distinct draws give distinct
  identifiers of 32 characters, so identifiers collide exactly when the draws do.
\<close>

fun to_hex :: "nat \<Rightarrow> string" where
  "to_hex n = (if n < 16 then [hex_digit n] else to_hex (n div 16) @ [hex_digit (n mod 16)])"

declare to_hex.simps [simp del]

definition format_032x :: "nat \<Rightarrow> string" where
  "format_032x n = replicate (32 - length (to_hex n)) (CHR ''0'') @ to_hex n"

definition new_id :: "128 word \<Rightarrow> string" where
  "new_id draw = format_032x (unat draw)"

section \<open>Reading an identifier back\<close>

definition hex_digit_val :: "char \<Rightarrow> nat" where
  "hex_digit_val c = (let n = of_char c :: nat in if n < 58 then n - 48 else n - 87)"

definition hex_val :: "string \<Rightarrow> nat" where
  "hex_val s = foldl (\<lambda>a c. 16 * a + hex_digit_val c) 0 s"

lemma hex_digit_val_hex_digit [simp]: "d < 16 \<Longrightarrow> hex_digit_val (hex_digit d) = d"
  by (auto simp: hex_digit_val_def hex_digit_def Let_def)

lemma hex_val_snoc [simp]: "hex_val (s @ [c]) = 16 * hex_val s + hex_digit_val c"
  by (simp add: hex_val_def)

lemma hex_val_to_hex [simp]: "hex_val (to_hex n) = n"
proof (induction n rule: to_hex.induct)
  case (1 n)
  show ?case
  proof (cases "n < 16")
    case True
    then show ?thesis by (subst to_hex.simps) (simp add: hex_val_def)
  next
    case False
    with "1.IH" show ?thesis by (subst to_hex.simps) simp
  qed
qed

lemma hex_val_zero_pad [simp]: "hex_val (replicate k (CHR ''0'') @ s) = hex_val s"
proof (induction k)
  case 0
  then show ?case by simp
next
  case (Suc k)
  have "hex_digit_val (CHR ''0'') = 0"
    by (simp add: hex_digit_val_def)
  with Suc show ?case by (simp add: hex_val_def)
qed

lemma hex_val_format_032x [simp]: "hex_val (format_032x n) = n"
  by (simp add: format_032x_def)

lemma length_to_hex: "n < 16 ^ Suc k \<Longrightarrow> length (to_hex n) \<le> Suc k"
proof (induction k arbitrary: n)
  case 0
  then show ?case by (subst to_hex.simps) simp
next
  case (Suc k)
  show ?case
  proof (cases "n < 16")
    case True
    then show ?thesis by (subst to_hex.simps) simp
  next
    case False
    from Suc.prems have "n div 16 < 16 ^ Suc k"
      by (simp add: less_mult_imp_div_less)
    with Suc.IH False show ?thesis by (subst to_hex.simps) simp
  qed
qed

lemma hex_val_new_id [simp]: "hex_val (new_id w) = unat w"
  by (simp add: new_id_def)

lemma new_id_eq_iff [simp]: "new_id v = new_id w \<longleftrightarrow> v = w"
  by (metis hex_val_new_id word_unat_eq_iff)

lemma length_new_id [simp]: "length (new_id w) = 32"
proof -
  have "unat w < 16 ^ Suc 31"
    using unsigned_less [of w, where ?'a = nat] by simp
  then have "length (to_hex (unat w)) \<le> 32"
    using length_to_hex [of "unat w" 31] by simp
  then show ?thesis by (simp add: new_id_def format_032x_def)
qed

lemma to_hex_digits: "c \<in> set (to_hex n) \<Longrightarrow> \<exists>d < 16. c = hex_digit d"
proof (induction n rule: to_hex.induct)
  case (1 n)
  then show ?case
    by (subst (asm) to_hex.simps) (force split: if_splits)
qed

text \<open>
  Identifiers: two identifiers are equal exactly when the 128-bit draws they were made of
  are, and each is a string of 32 lower-case hexadecimal digits.
\<close>

theorem new_id_faithful:
  "(new_id v = new_id w \<longleftrightarrow> v = w) \<and> length (new_id v) = 32 \<and> set (new_id v) \<subseteq> hex_digit ` {..<16}"
proof -
  have "CHR ''0'' = hex_digit 0" by code_simp
  then have "c \<in> hex_digit ` {..<16}" if "c \<in> set (new_id v)" for c
    using that to_hex_digits [of c "unat v"] by (auto simp: new_id_def format_032x_def)
  then show ?thesis by auto
qed

end
