(* ===== verification/Broker.thy ===== *)
theory Broker
  imports Retry Router Durability Observability Ids
begin

text \<open>
  The broker engine of \<open>pubsub/server/broker.py\<close> with the scheduling part of
  \<open>pubsub/server/retry.py\<close>.  The record \<open>broker\<close> has the fields of \<open>Broker\<close>; registrations,
  queues and streams are shared objects and live in heaps indexed by address.  A coroutine is
  cut where it can suspend: at the admission gate, at \<open>append\<close> and at \<open>read_from\<close>; the code
  between two cuts is one function.  \<open>random.getrandbits\<close> is the stream \<open>bk_draws\<close>.
\<close>

definition DEFAULT_QUEUE_BOUND :: nat where "DEFAULT_QUEUE_BOUND = 128"
definition DEFAULT_MAX_INFLIGHT_PER_SUBSCRIBER :: int where
  "DEFAULT_MAX_INFLIGHT_PER_SUBSCRIBER = int DEFAULT_QUEUE_BOUND"

record stream_obj =
  st_sub :: subscription
  st_queue :: nat
  st_closed :: bool

record 'd broker =
  bk_backend :: "'d backend"
  bk_dur :: 'd
  bk_router :: router
  bk_policy :: retry_policy
  bk_tasks :: "retry_task list"
  bk_inflight :: "(string, delivery) dict"
  bk_retry_pending :: "(string, int) dict"
  bk_retry_pending_total :: int
  bk_streams :: "(string, nat) dict"
  bk_max_inflight :: "int option"
  bk_admit :: bool
  bk_regs :: reg_heap
  bk_queues :: "delivery aqueue list"
  bk_stream_heap :: "stream_obj list"
  bk_draws :: "nat \<Rightarrow> 128 word"
  bk_drawn :: nat
  bk_events :: "obs_event list"

definition broker_init ::
    "'d backend \<Rightarrow> 'd \<Rightarrow> retry_policy \<Rightarrow> int option \<Rightarrow> (nat \<Rightarrow> 128 word) \<Rightarrow> 'd broker" where
  "broker_init be d policy max_inflight draws =
     \<lparr>bk_backend = be, bk_dur = d, bk_router = [], bk_policy = policy, bk_tasks = [],
      bk_inflight = [], bk_retry_pending = [], bk_retry_pending_total = 0, bk_streams = [],
      bk_max_inflight = max_inflight, bk_admit = True, bk_regs = [], bk_queues = [],
      bk_stream_heap = [], bk_draws = draws, bk_drawn = 0, bk_events = []\<rparr>"

type_synonym ('d, 'a) bk_op = "'d broker \<Rightarrow> 'a result \<times> 'd broker"

definition emit :: "obs_event \<Rightarrow> 'd broker \<Rightarrow> 'd broker" where
  "emit e b = b\<lparr>bk_events := bk_events b @ [e]\<rparr>"

definition mint :: "'d broker \<Rightarrow> string \<times> 'd broker" where
  "mint b = (new_id (bk_draws b (bk_drawn b)), b\<lparr>bk_drawn := Suc (bk_drawn b)\<rparr>)"

section \<open>Admission control\<close>

definition backlog :: "'d broker \<Rightarrow> int" where
  "backlog b = int (length (bk_inflight b)) + bk_retry_pending_total b"

definition watermark :: "int \<Rightarrow> 'd broker \<Rightarrow> int" where
  "watermark max_inflight b = max_inflight * int (max 1 (active_count (bk_router b)))"

text \<open>The test of \<open>_gate\<close>'s loop and of \<open>_refresh_admission\<close>: is a new publish let through?\<close>

definition below_watermark :: "'d broker \<Rightarrow> bool" where
  "below_watermark b \<longleftrightarrow>
     (case bk_max_inflight b of None \<Rightarrow> True | Some n \<Rightarrow> backlog b < watermark n b)"

definition refresh_admission :: "'d broker \<Rightarrow> 'd broker" where
  "refresh_admission b = (if below_watermark b then b\<lparr>bk_admit := True\<rparr> else b)"

text \<open>
  One pass of the \<open>while\<close> loop of \<open>_gate\<close>: either through, or the event is cleared and the
  publisher waits on it.
\<close>

definition gate_pass :: "'d broker \<Rightarrow> bool \<times> 'd broker" where
  "gate_pass b = (if below_watermark b then (True, b) else (False, b\<lparr>bk_admit := False\<rparr>))"

section \<open>Retry-limbo and inflight accounting\<close>

definition enter_retry :: "string \<Rightarrow> 'd broker \<Rightarrow> 'd broker" where
  "enter_retry sid b =
     b\<lparr>bk_retry_pending :=
         dict_set sid ((case dict_get (bk_retry_pending b) sid of Some n \<Rightarrow> n | None \<Rightarrow> 0) + 1)
           (bk_retry_pending b),
       bk_retry_pending_total := bk_retry_pending_total b + 1\<rparr>"

definition leave_retry :: "string \<Rightarrow> 'd broker \<Rightarrow> 'd broker" where
  "leave_retry sid b =
     (case dict_get (bk_retry_pending b) sid of
        None \<Rightarrow> b
      | Some remaining \<Rightarrow>
          if remaining = 0 then b
          else b\<lparr>bk_retry_pending :=
                  (if remaining = 1 then dict_pop sid (bk_retry_pending b)
                   else dict_set sid (remaining - 1) (bk_retry_pending b)),
                 bk_retry_pending_total := bk_retry_pending_total b - 1\<rparr>)"

definition record_inflight :: "delivery \<Rightarrow> 'd broker \<Rightarrow> 'd broker" where
  "record_inflight d b = b\<lparr>bk_inflight := dict_set (dl_id d) d (bk_inflight b)\<rparr>"

definition record_retried :: "delivery \<Rightarrow> 'd broker \<Rightarrow> 'd broker" where
  "record_retried d b = record_inflight d (leave_retry (dl_sid d) b)"

definition stale_ids :: "string \<Rightarrow> (string, delivery) dict \<Rightarrow> string list" where
  "stale_ids sid inflight = map fst (filter (\<lambda>(k, d). dl_sid d = sid) inflight)"

definition drop_inflight :: "string \<Rightarrow> 'd broker \<Rightarrow> 'd broker" where
  "drop_inflight sid b =
     (let b1 = b\<lparr>bk_inflight := fold dict_pop (stale_ids sid (bk_inflight b)) (bk_inflight b)\<rparr>;
          share = (case dict_get (bk_retry_pending b1) sid of Some n \<Rightarrow> n | None \<Rightarrow> 0);
          b2 = b1\<lparr>bk_retry_pending := dict_pop sid (bk_retry_pending b1),
                  bk_retry_pending_total := bk_retry_pending_total b1 - share\<rparr>
      in refresh_admission b2)"

section \<open>Eviction and redelivery\<close>

definition mark_closed :: "nat \<Rightarrow> 'd broker \<Rightarrow> 'd broker" where
  "mark_closed a b =
     b\<lparr>bk_stream_heap := (bk_stream_heap b)[a := (bk_stream_heap b ! a)\<lparr>st_closed := True\<rparr>]\<rparr>"

definition disconnect :: "string \<Rightarrow> 'd broker \<Rightarrow> 'd broker" where
  "disconnect sid b =
     (let b1 = b\<lparr>bk_router := snd (router_unregister sid (bk_router b))\<rparr>;
          b2 = drop_inflight sid b1;
          b3 = b2\<lparr>bk_streams := dict_pop sid (bk_streams b2)\<rparr>
      in case dict_get (bk_streams b2) sid of
           None \<Rightarrow> b3
         | Some a \<Rightarrow> mark_closed a b3)"

definition on_exhausted :: "string \<Rightarrow> 'd broker \<Rightarrow> 'd broker" where
  "on_exhausted sid b = disconnect sid (emit (OnRetryExhausted sid) b)"

definition to_dlq :: "dlq_entry \<Rightarrow> ('d, unit) bk_op" where
  "to_dlq e b = (let (r, d') = be_to_dlq (bk_backend b) e (bk_dur b) in (r, b\<lparr>bk_dur := d'\<rparr>))"

definition schedule :: "nat \<Rightarrow> delivery \<Rightarrow> ('d, unit) bk_op" where
  "schedule queue d b =
     (case schedule_decision (bk_policy b) queue d of
        ToDlq e \<Rightarrow>
          (case to_dlq e b of
             (Inl x, b') \<Rightarrow> (Inl x, b')
           | (Inr _, b') \<Rightarrow> (Inr (), on_exhausted (dl_sid d) b'))
      | Spawn t \<Rightarrow> (Inr (), b\<lparr>bk_tasks := bk_tasks b @ [t]\<rparr>))"

definition set_queue :: "nat \<Rightarrow> delivery aqueue \<Rightarrow> 'd broker \<Rightarrow> 'd broker" where
  "set_queue q v b = b\<lparr>bk_queues := (bk_queues b)[q := v]\<rparr>"

text \<open>
  A backoff task when its sleep is over.  The delay is computed when the task starts: if that
  raises, the task dies and nothing is redelivered.
\<close>

definition wake_task :: "nat \<Rightarrow> real \<Rightarrow> ('d, unit) bk_op" where
  "wake_task i draw b =
     (let t = bk_tasks b ! i;
          b1 = b\<lparr>bk_tasks := take i (bk_tasks b) @ drop (Suc i) (bk_tasks b)\<rparr>
      in case backoff (bk_policy b) (rt_next_attempt t) draw of
           Inl e \<Rightarrow> (Inl e, b1)
         | Inr _ \<Rightarrow>
             (let (did, b2) = mint b1; retry = retried_delivery did t in
              case put_nowait retry (bk_queues b2 ! rt_queue t) of
                Inl _ \<Rightarrow> schedule (rt_queue t) retry b2
              | Inr q' \<Rightarrow> (Inr (), record_retried retry (set_queue (rt_queue t) q' b2))))"

section \<open>Delivery\<close>

definition enqueue :: "nat \<Rightarrow> delivery \<Rightarrow> ('d, unit) bk_op" where
  "enqueue a d b =
     (let reg = bk_regs b ! a;
          b1 = emit (OnDeliver (msg_topic (dl_message d)) (dl_sid d) (dl_attempt d)) b
      in case put_nowait d (bk_queues b1 ! reg_queue reg) of
           Inl _ \<Rightarrow> schedule (reg_queue reg) d (enter_retry (sub_id (reg_sub reg)) b1)
         | Inr q' \<Rightarrow> (Inr (), record_inflight d (set_queue (reg_queue reg) q' b1)))"

definition make_delivery :: "registration \<Rightarrow> message \<Rightarrow> int \<Rightarrow> string \<Rightarrow> delivery" where
  "make_delivery reg m attempt did =
     \<lparr>dl_id = did, dl_sid = sub_id (reg_sub reg), dl_message = m, dl_attempt = attempt\<rparr>"

definition set_reg :: "nat \<Rightarrow> registration \<Rightarrow> 'd broker \<Rightarrow> 'd broker" where
  "set_reg a reg b = b\<lparr>bk_regs := (bk_regs b)[a := reg]\<rparr>"

definition deliver :: "nat \<Rightarrow> message \<Rightarrow> int \<Rightarrow> ('d, unit) bk_op" where
  "deliver a m attempt b =
     (let (did, b1) = mint b; reg = bk_regs b1 ! a; d = make_delivery reg m attempt did in
      if reg_replaying reg
      then (Inr (), set_reg a (reg\<lparr>reg_buffer := reg_buffer reg @ [d]\<rparr>) b1)
      else enqueue a d b1)"

fun deliver_each :: "nat list \<Rightarrow> message \<Rightarrow> ('d, unit) bk_op" where
  "deliver_each [] m b = (Inr (), b)"
| "deliver_each (a # as) m b =
     (case deliver a m 1 b of
        (Inl e, b') \<Rightarrow> (Inl e, b')
      | (Inr _, b') \<Rightarrow> deliver_each as m b')"

section \<open>Publish\<close>

text \<open>Up to the gate: a bad subject is rejected, a good one becomes a message.\<close>

definition publish_begin ::
    "string \<Rightarrow> mpval \<Rightarrow> (string, mpval) dict option \<Rightarrow> timestamp \<Rightarrow>
     ('d, publish_result + message) bk_op" where
  "publish_begin topic payload extras now b =
     (case validate_subject topic of
        Inl (TopicError text) \<Rightarrow>
          (Inr (Inl (publish_rejected \<lparr>pe_code = ''invalid_topic'', pe_detail = text\<rparr>)),
           emit (OnPublish topic False (Some ''invalid_topic'')) b)
      | Inl e \<Rightarrow> (Inl e, b)
      | Inr _ \<Rightarrow>
          (let (mid, b1) = mint b in
           (Inr (Inr \<lparr>msg_id = mid, msg_topic = topic, msg_payload = payload,
                       msg_extras = (case extras of None \<Rightarrow> [] | Some d \<Rightarrow> d),
                       msg_created_at = now\<rparr>), b1)))"

definition publish_store :: "message \<Rightarrow> ('d, unit) bk_op" where
  "publish_store m b =
     (let (r, d') = be_append (bk_backend b) m (bk_dur b) in (r, b\<lparr>bk_dur := d'\<rparr>))"

definition publish_fanout :: "message \<Rightarrow> ('d, publish_result) bk_op" where
  "publish_fanout m b =
     (case router_match (bk_regs b) (bk_router b) (msg_topic m) of
        Inl e \<Rightarrow> (Inl e, b)
      | Inr as \<Rightarrow>
          (case deliver_each as m b of
             (Inl e, b') \<Rightarrow> (Inl e, b')
           | (Inr _, b') \<Rightarrow>
               (Inr (publish_ok (msg_id m)), emit (OnPublish (msg_topic m) True None) b')))"

datatype publish_outcome = Published publish_result | Parked message

text \<open>From the gate on; a publisher that does not get through is parked with its message.\<close>

definition publish_resume :: "message \<Rightarrow> ('d, publish_outcome) bk_op" where
  "publish_resume m b =
     (case gate_pass b of
        (False, b') \<Rightarrow> (Inr (Parked m), b')
      | (True, b') \<Rightarrow>
          (case publish_store m b' of
             (Inl e, b2) \<Rightarrow> (Inl e, b2)
           | (Inr _, b2) \<Rightarrow>
               (case publish_fanout m b2 of
                  (Inl e, b3) \<Rightarrow> (Inl e, b3)
                | (Inr r, b3) \<Rightarrow> (Inr (Published r), b3))))"

definition publish ::
    "string \<Rightarrow> mpval \<Rightarrow> (string, mpval) dict option \<Rightarrow> timestamp \<Rightarrow> ('d, publish_outcome) bk_op" where
  "publish topic payload extras now b =
     (case publish_begin topic payload extras now b of
        (Inl e, b') \<Rightarrow> (Inl e, b')
      | (Inr (Inl r), b') \<Rightarrow> (Inr (Published r), b')
      | (Inr (Inr m), b') \<Rightarrow> publish_resume m b')"

definition register_topic :: "string \<Rightarrow> bool \<Rightarrow> ('d, unit) bk_op" where
  "register_topic topic replayable b =
     (let (r, d') = be_register_topic (bk_backend b) topic replayable (bk_dur b)
      in (r, b\<lparr>bk_dur := d'\<rparr>))"

section \<open>Subscribe and replay\<close>

text \<open>
  Up to the first suspension: the registration, its queue and its stream are allocated at the
  next address and registered; a replaying subscription starts buffering at once.
\<close>

definition subscribe_begin :: "string \<Rightarrow> replay_policy option \<Rightarrow> ('d, nat) bk_op" where
  "subscribe_begin selector replay b =
     (case validate_pattern selector of
        Inl e \<Rightarrow> (Inl e, b)
      | Inr tokens \<Rightarrow>
          (let policy = (case replay of None \<Rightarrow> FutureOnly | Some p \<Rightarrow> p);
               (sid, b1) = mint b;
               sub = \<lparr>sub_id = sid, sub_selector = selector, sub_replay = policy\<rparr>;
               a = length (bk_regs b1);
               reg = new_registration sub a (Some tokens);
               b2 = b1\<lparr>bk_queues := bk_queues b1 @ [new_queue DEFAULT_QUEUE_BOUND],
                       bk_regs := bk_regs b1 @ [reg],
                       bk_stream_heap := bk_stream_heap b1 @
                         [\<lparr>st_sub = sub, st_queue = a, st_closed = False\<rparr>]\<rparr>;
               b3 = b2\<lparr>bk_router := router_register (bk_regs b2) a (bk_router b2)\<rparr>;
               b4 = refresh_admission b3;
               b5 = b4\<lparr>bk_streams := dict_set sid a (bk_streams b4)\<rparr>
           in (Inr a,
               (case policy of
                  FutureOnly \<Rightarrow> b5
                | FromUnixTimestamp _ \<Rightarrow> set_reg a (reg\<lparr>reg_replaying := True\<rparr>) b5))))"

text \<open>The two loops of \<open>_replay\<close> after the history has been read.\<close>

fun replay_history :: "nat \<Rightarrow> message list \<Rightarrow> ('d, unit) bk_op" where
  "replay_history a [] b = (Inr (), b)"
| "replay_history a (m # ms) b =
     (case matches_tokens (reg_tokens (bk_regs b ! a)) (msg_topic m) of
        Inl e \<Rightarrow> (Inl e, b)
      | Inr False \<Rightarrow> replay_history a ms b
      | Inr True \<Rightarrow>
          (let (did, b1) = mint b in
           case enqueue a (make_delivery (bk_regs b1 ! a) m 1 did) b1 of
             (Inl e, b') \<Rightarrow> (Inl e, b')
           | (Inr _, b') \<Rightarrow> replay_history a ms b'))"

fun enqueue_each :: "nat \<Rightarrow> delivery list \<Rightarrow> ('d, unit) bk_op" where
  "enqueue_each a [] b = (Inr (), b)"
| "enqueue_each a (d # ds) b =
     (case enqueue a d b of
        (Inl e, b') \<Rightarrow> (Inl e, b')
      | (Inr _, b') \<Rightarrow> enqueue_each a ds b')"

definition set_replaying :: "nat \<Rightarrow> bool \<Rightarrow> 'd broker \<Rightarrow> 'd broker" where
  "set_replaying a v b = set_reg a ((bk_regs b ! a)\<lparr>reg_replaying := v\<rparr>) b"

definition clear_buffer :: "nat \<Rightarrow> 'd broker \<Rightarrow> 'd broker" where
  "clear_buffer a b = set_reg a ((bk_regs b ! a)\<lparr>reg_buffer := []\<rparr>) b"

definition replay_read :: "timestamp \<Rightarrow> ('d, message list) bk_op" where
  "replay_read ts b =
     (let (r, d') = be_read_from (bk_backend b) ts (bk_dur b) in (r, b\<lparr>bk_dur := d'\<rparr>))"

definition replay_flush :: "nat \<Rightarrow> message list \<Rightarrow> ('d, unit) bk_op" where
  "replay_flush a history b =
     (case replay_history a history b of
        (Inl e, b1) \<Rightarrow> (Inl e, b1)
      | (Inr _, b1) \<Rightarrow>
          (let b2 = set_replaying a False b1 in
           case enqueue_each a
                  (sort_key (\<lambda>d. msg_created_at (dl_message d)) (reg_buffer (bk_regs b2 ! a))) b2 of
             (Inl e, b3) \<Rightarrow> (Inl e, b3)
           | (Inr _, b3) \<Rightarrow> (Inr (), clear_buffer a b3)))"

text \<open>The handler around \<open>_replay\<close>: no registration is left behind without a consumer.\<close>

definition subscribe_fail :: "nat \<Rightarrow> 'd broker \<Rightarrow> 'd broker" where
  "subscribe_fail a b =
     (let sid = sub_id (reg_sub (bk_regs b ! a))
      in b\<lparr>bk_router := snd (router_unregister sid (bk_router b)),
           bk_streams := dict_pop sid (bk_streams b)\<rparr>)"

definition subscribe_replay :: "nat \<Rightarrow> message list result \<Rightarrow> ('d, nat) bk_op" where
  "subscribe_replay a history b =
     (case history of
        Inl e \<Rightarrow> (Inl e, subscribe_fail a (set_replaying a False b))
      | Inr ms \<Rightarrow>
          (case replay_flush a ms b of
             (Inl e, b') \<Rightarrow> (Inl e, subscribe_fail a b')
           | (Inr _, b') \<Rightarrow> (Inr a, b')))"

definition subscribe :: "string \<Rightarrow> replay_policy option \<Rightarrow> ('d, nat) bk_op" where
  "subscribe selector replay b =
     (case subscribe_begin selector replay b of
        (Inl e, b') \<Rightarrow> (Inl e, b')
      | (Inr a, b') \<Rightarrow>
          (case replay of
             Some (FromUnixTimestamp ts) \<Rightarrow>
               (let (history, b2) = replay_read ts b' in subscribe_replay a history b2)
           | _ \<Rightarrow> (Inr a, b')))"

section \<open>Acknowledgement\<close>

definition ack :: "delivery \<Rightarrow> ('d, unit) bk_op" where
  "ack d b =
     (let b1 = refresh_admission (b\<lparr>bk_inflight := dict_pop (dl_id d) (bk_inflight b)\<rparr>);
          b2 = emit (OnAck (dl_sid d)) b1;
          (r, d') = be_record_ack (bk_backend b2) (dl_sid d) (msg_id (dl_message d)) (bk_dur b2)
      in (r, b2\<lparr>bk_dur := d'\<rparr>))"

definition nack :: "delivery \<Rightarrow> ('d, unit) bk_op" where
  "nack d b =
     (let b1 = b\<lparr>bk_inflight := dict_pop (dl_id d) (bk_inflight b)\<rparr>;
          b2 = emit (OnNack (dl_sid d) (dl_attempt d)) b1
      in case router_get (bk_router b2) (dl_sid d) of
           None \<Rightarrow> (Inr (), refresh_admission b2)
         | Some a \<Rightarrow> schedule (reg_queue (bk_regs b2 ! a)) d (enter_retry (dl_sid d) b2))"

definition unsubscribe :: "string \<Rightarrow> 'd broker \<Rightarrow> 'd broker" where
  "unsubscribe sid b =
     (let b1 = b\<lparr>bk_router := snd (router_unregister sid (bk_router b)),
                 bk_streams := dict_pop sid (bk_streams b)\<rparr>
      in drop_inflight sid b1)"

text \<open>\<open>RetryEngine.aclose\<close>: every backoff task is cancelled and awaited.\<close>

definition retry_aclose :: "'d broker \<Rightarrow> 'd broker" where
  [simp]: "retry_aclose b = b\<lparr>bk_tasks := []\<rparr>"

definition close_broker :: "('d, unit) bk_op" where
  "close_broker b =
     (let b1 = retry_aclose b;
          (r, d') = be_close (bk_backend b1) (bk_dur b1)
      in (r, b1\<lparr>bk_dur := d'\<rparr>))"

section \<open>The delivery stream\<close>

datatype next_result = Next delivery | Ended | Waiting

text \<open>
  \<open>__anext__\<close>: a queued delivery wins over the close signal; a closed stream ends once its
  queue is empty; otherwise the consumer waits.
\<close>

definition stream_next :: "nat \<Rightarrow> 'd broker \<Rightarrow> next_result \<times> 'd broker" where
  "stream_next a b =
     (let s = bk_stream_heap b ! a; q = bk_queues b ! st_queue s in
      if st_closed s \<and> q_items q = [] then (Ended, b)
      else case get_ready q of
             Some (d, q') \<Rightarrow> (Next d, set_queue (st_queue s) q' b)
           | None \<Rightarrow> if st_closed s then (Ended, b) else (Waiting, b))"

text \<open>The property and the two calls of the stream that go back to the broker.\<close>

definition stream_subscription_id :: "nat \<Rightarrow> 'd broker \<Rightarrow> string" where
  "stream_subscription_id a b = sub_id (st_sub (bk_stream_heap b ! a))"

definition stream_ack :: "delivery \<Rightarrow> ('d, unit) bk_op" where
  [simp]: "stream_ack = ack"

definition stream_nack :: "delivery \<Rightarrow> ('d, unit) bk_op" where
  [simp]: "stream_nack = nack"

definition stream_unsubscribe :: "nat \<Rightarrow> 'd broker \<Rightarrow> 'd broker" where
  "stream_unsubscribe a b =
     mark_closed a (unsubscribe (sub_id (st_sub (bk_stream_heap b ! a))) b)"

end
