(* ===== verification/Broker_Inv.thy ===== *)
theory Broker_Inv
  imports Broker
begin

text \<open>
  The invariant of the broker: the object heap is well formed, the router and the streams
  agree, every delivery that is queued, buffered, inflight or waiting in a retry task belongs
  to a subscription its topic matches, the retry counters add up and cover the retry tasks of
  every live subscription.  Every operation preserves it.  \<open>gate_ok\<close>, that a closed gate
  means a full backlog, is kept apart: it does not hold between the two halves of a nack.
\<close>

section \<open>Predicates\<close>

definition reg_static :: "registration \<Rightarrow> string \<times> string list" where
  "reg_static r = (sub_id (reg_sub r), reg_tokens r)"

definition statics :: "'d broker \<Rightarrow> (string \<times> string list) list" where
  "statics b = map reg_static (bk_regs b)"

definition minted :: "'d broker \<Rightarrow> string set" where
  "minted b = (\<lambda>i. new_id (bk_draws b i)) ` {..<bk_drawn b}"

definition good_delivery :: "(string \<times> string list) list \<Rightarrow> nat \<Rightarrow> delivery \<Rightarrow> bool" where
  "good_delivery st a d \<longleftrightarrow>
     a < length st \<and> dl_sid d = fst (st ! a) \<and> 1 \<le> dl_attempt d \<and>
     matches_tokens (snd (st ! a)) (msg_topic (dl_message d)) = Inr True"

definition acct_ok :: "'d broker \<Rightarrow> bool" where
  "acct_ok b \<longleftrightarrow>
     dict_wf (bk_retry_pending b) \<and> counters_pos (bk_retry_pending b) \<and>
     bk_retry_pending_total b = dict_total (bk_retry_pending b)"

definition heap_ok :: "'d broker \<Rightarrow> bool" where
  "heap_ok b \<longleftrightarrow>
     length (bk_queues b) = length (bk_regs b) \<and> length (bk_stream_heap b) = length (bk_regs b) \<and>
     (\<forall>a < length (bk_regs b).
        reg_queue (bk_regs b ! a) = a \<and> st_queue (bk_stream_heap b ! a) = a \<and>
        st_sub (bk_stream_heap b ! a) = reg_sub (bk_regs b ! a) \<and>
        split_subject (sub_selector (reg_sub (bk_regs b ! a))) = Inr (reg_tokens (bk_regs b ! a)) \<and>
        wf_pattern (reg_tokens (bk_regs b ! a)))"

definition router_ok :: "'d broker \<Rightarrow> bool" where
  "router_ok b \<longleftrightarrow>
     dict_wf (bk_router b) \<and> bk_streams b = bk_router b \<and>
     (\<forall>p \<in> set (bk_router b).
        snd p < length (bk_regs b) \<and> fst (statics b ! snd p) = fst p \<and>
        \<not> st_closed (bk_stream_heap b ! snd p))"

definition sids_ok :: "'d broker \<Rightarrow> bool" where
  "sids_ok b \<longleftrightarrow> distinct (map fst (statics b)) \<and> fst ` set (statics b) \<subseteq> minted b"

definition flight_good ::
    "(string \<times> string list) list \<Rightarrow> string set \<Rightarrow> string \<times> delivery \<Rightarrow> bool" where
  "flight_good st mi p \<longleftrightarrow>
     fst p = dl_id (snd p) \<and> fst p \<in> mi \<and> (\<exists>a. good_delivery st a (snd p))"

definition flight_ok :: "'d broker \<Rightarrow> bool" where
  "flight_ok b \<longleftrightarrow>
     dict_wf (bk_inflight b) \<and> (\<forall>p \<in> set (bk_inflight b). flight_good (statics b) (minted b) p)"

definition queue_good ::
    "(string \<times> string list) list \<Rightarrow> string set \<Rightarrow> nat \<Rightarrow> delivery aqueue \<Rightarrow> bool" where
  "queue_good st mi a q \<longleftrightarrow>
     q_maxsize q = DEFAULT_QUEUE_BOUND \<and> length (q_items q) \<le> DEFAULT_QUEUE_BOUND \<and>
     (\<forall>d \<in> set (q_items q). good_delivery st a d \<and> dl_id d \<in> mi)"

definition queue_ok :: "'d broker \<Rightarrow> bool" where
  "queue_ok b \<longleftrightarrow>
     (\<forall>a < length (bk_queues b). queue_good (statics b) (minted b) a (bk_queues b ! a))"

definition buffer_good ::
    "(string \<times> string list) list \<Rightarrow> string set \<Rightarrow> nat \<Rightarrow> registration \<Rightarrow> bool" where
  "buffer_good st mi a r \<longleftrightarrow> (\<forall>d \<in> set (reg_buffer r). good_delivery st a d \<and> dl_id d \<in> mi)"

definition buffer_ok :: "'d broker \<Rightarrow> bool" where
  "buffer_ok b \<longleftrightarrow>
     (\<forall>a < length (bk_regs b). buffer_good (statics b) (minted b) a (bk_regs b ! a))"

definition task_good :: "'d broker \<Rightarrow> retry_task \<Rightarrow> bool" where
  "task_good b t \<longleftrightarrow>
     good_delivery (statics b) (rt_queue t) (rt_delivery t) \<and>
     rt_next_attempt t = dl_attempt (rt_delivery t) + 1 \<and>
     rt_next_attempt t < rp_max_attempts (bk_policy b)"

definition task_ok :: "'d broker \<Rightarrow> bool" where
  "task_ok b \<longleftrightarrow> (\<forall>t \<in> set (bk_tasks b). task_good b t)"

definition task_count :: "string \<Rightarrow> retry_task list \<Rightarrow> int" where
  "task_count s ts = int (length (filter (\<lambda>t. dl_sid (rt_delivery t) = s) ts))"

definition pending_of :: "'d broker \<Rightarrow> string \<Rightarrow> int" where
  "pending_of b s = (case dict_get (bk_retry_pending b) s of Some n \<Rightarrow> n | None \<Rightarrow> 0)"

definition registered :: "'d broker \<Rightarrow> string \<Rightarrow> bool" where
  "registered b s \<longleftrightarrow> dict_get (bk_router b) s \<noteq> None"

definition pend_ok :: "'d broker \<Rightarrow> bool" where
  "pend_ok b \<longleftrightarrow> (\<forall>s. registered b s \<longrightarrow> task_count s (bk_tasks b) \<le> pending_of b s)"

definition core_inv :: "'d broker \<Rightarrow> bool" where
  "core_inv b \<longleftrightarrow>
     acct_ok b \<and> heap_ok b \<and> router_ok b \<and> sids_ok b \<and> flight_ok b \<and> queue_ok b \<and> buffer_ok b \<and>
     task_ok b \<and> pend_ok b"

definition gate_ok :: "'d broker \<Rightarrow> bool" where
  "gate_ok b \<longleftrightarrow> bk_admit b \<or> \<not> below_watermark b"

definition max_ok :: "'d broker \<Rightarrow> bool" where
  "max_ok b \<longleftrightarrow> (case bk_max_inflight b of None \<Rightarrow> True | Some n \<Rightarrow> 0 \<le> n)"

text \<open>No two of the identifiers drawn so far collide.\<close>

definition no_collision :: "'d broker \<Rightarrow> bool" where
  "no_collision b \<longleftrightarrow> inj_on (bk_draws b) {..<bk_drawn b}"

lemmas ok_defs = acct_ok_def heap_ok_def router_ok_def sids_ok_def flight_ok_def queue_ok_def
  buffer_ok_def task_ok_def task_good_def pend_ok_def

section \<open>Small facts\<close>

lemma length_statics [simp]: "length (statics b) = length (bk_regs b)"
  by (simp add: statics_def)

lemma statics_nth: "a < length (bk_regs b) \<Longrightarrow> statics b ! a = reg_static (bk_regs b ! a)"
  by (simp add: statics_def)

lemma statics_list_update:
  "reg_static r = reg_static (bk_regs b ! a) \<Longrightarrow> statics (b\<lparr>bk_regs := (bk_regs b)[a := r]\<rparr>) = statics b"
  unfolding statics_def by (simp add: map_update) (metis list_update_id map_update)

lemma good_delivery_append: "good_delivery st a d \<Longrightarrow> good_delivery (st @ us) a d"
  by (auto simp: good_delivery_def nth_append)

lemma flight_good_mono:
  "flight_good st mi p \<Longrightarrow> mi \<subseteq> mi' \<Longrightarrow> flight_good (st @ us) mi' p"
  by (auto simp: flight_good_def dest: good_delivery_append)

lemma queue_good_mono:
  "queue_good st mi a q \<Longrightarrow> mi \<subseteq> mi' \<Longrightarrow> queue_good (st @ us) mi' a q"
  by (auto simp: queue_good_def dest: good_delivery_append)

lemma buffer_good_mono:
  "buffer_good st mi a r \<Longrightarrow> mi \<subseteq> mi' \<Longrightarrow> buffer_good (st @ us) mi' a r"
  by (auto simp: buffer_good_def dest: good_delivery_append)

lemma nth_update_all:
  "\<forall>a < length xs. P a (xs ! a) \<Longrightarrow> P i v \<Longrightarrow> \<forall>a < length xs. P a (xs[i := v] ! a)"
  by (cases "i < length xs") (auto simp: nth_list_update list_update_beyond)

text \<open>
  Each predicate reads a few fields; an update of the others keeps it.  Instantiated at the
  new and the old state these are rewrite rules.
\<close>

lemma statics_cong: "bk_regs b' = bk_regs b \<Longrightarrow> statics b' = statics b"
  by (simp add: statics_def)

lemma minted_cong: "bk_draws b' = bk_draws b \<Longrightarrow> bk_drawn b' = bk_drawn b \<Longrightarrow> minted b' = minted b"
  by (simp add: minted_def)

lemma acct_cong:
  "bk_retry_pending b' = bk_retry_pending b \<Longrightarrow>
   bk_retry_pending_total b' = bk_retry_pending_total b \<Longrightarrow> acct_ok b' = acct_ok b"
  by (simp add: acct_ok_def)

lemma heap_cong:
  "bk_regs b' = bk_regs b \<Longrightarrow> length (bk_queues b') = length (bk_queues b) \<Longrightarrow>
   bk_stream_heap b' = bk_stream_heap b \<Longrightarrow> heap_ok b' = heap_ok b"
  by (simp add: heap_ok_def)

lemma router_cong:
  "bk_router b' = bk_router b \<Longrightarrow> bk_streams b' = bk_streams b \<Longrightarrow> statics b' = statics b \<Longrightarrow>
   bk_stream_heap b' = bk_stream_heap b \<Longrightarrow> router_ok b' = router_ok b"
  unfolding router_ok_def by (simp add: length_statics [symmetric] del: length_statics)

lemma sids_cong:
  "statics b' = statics b \<Longrightarrow> bk_draws b' = bk_draws b \<Longrightarrow> bk_drawn b' = bk_drawn b \<Longrightarrow>
   sids_ok b' = sids_ok b"
  by (simp add: sids_ok_def minted_def)

lemma flight_cong:
  "bk_inflight b' = bk_inflight b \<Longrightarrow> statics b' = statics b \<Longrightarrow> bk_draws b' = bk_draws b \<Longrightarrow>
   bk_drawn b' = bk_drawn b \<Longrightarrow> flight_ok b' = flight_ok b"
  by (simp add: flight_ok_def minted_def)

lemma queue_cong:
  "bk_queues b' = bk_queues b \<Longrightarrow> statics b' = statics b \<Longrightarrow> bk_draws b' = bk_draws b \<Longrightarrow>
   bk_drawn b' = bk_drawn b \<Longrightarrow> queue_ok b' = queue_ok b"
  by (simp add: queue_ok_def minted_def)

lemma buffer_cong:
  "bk_regs b' = bk_regs b \<Longrightarrow> bk_draws b' = bk_draws b \<Longrightarrow> bk_drawn b' = bk_drawn b \<Longrightarrow>
   buffer_ok b' = buffer_ok b"
  by (simp add: buffer_ok_def statics_def minted_def)

lemma task_good_cong:
  "bk_policy b' = bk_policy b \<Longrightarrow> statics b' = statics b \<Longrightarrow> task_good b' t = task_good b t"
  by (simp add: task_good_def)

lemma task_cong:
  "bk_tasks b' = bk_tasks b \<Longrightarrow> bk_policy b' = bk_policy b \<Longrightarrow> statics b' = statics b \<Longrightarrow>
   task_ok b' = task_ok b"
  by (simp add: task_ok_def task_good_def)

lemma pend_cong:
  "bk_router b' = bk_router b \<Longrightarrow> bk_tasks b' = bk_tasks b \<Longrightarrow>
   bk_retry_pending b' = bk_retry_pending b \<Longrightarrow> pend_ok b' = pend_ok b"
  by (simp add: pend_ok_def registered_def pending_of_def)

lemmas ok_congs = acct_cong heap_cong router_cong sids_cong flight_cong queue_cong buffer_cong
  task_cong pend_cong statics_cong minted_cong

lemma minted_fresh:
  assumes "inj_on (bk_draws b) {..<Suc (bk_drawn b)}"
  shows "new_id (bk_draws b (bk_drawn b)) \<notin> minted b"
proof
  assume "new_id (bk_draws b (bk_drawn b)) \<in> minted b"
  then obtain i where "i < bk_drawn b" "bk_draws b (bk_drawn b) = bk_draws b i"
    by (auto simp: minted_def)
  with assms have "bk_drawn b = i"
    by (auto simp: inj_on_def)
  with \<open>i < bk_drawn b\<close> show False by simp
qed

lemma task_count_append [simp]: "task_count s (ts @ us) = task_count s ts + task_count s us"
  by (simp add: task_count_def)

lemma task_count_simps [simp]:
  "task_count s [] = 0"
  "task_count s (t # ts) = (if dl_sid (rt_delivery t) = s then 1 else 0) + task_count s ts"
  by (simp_all add: task_count_def)

lemma task_count_remove:
  assumes "i < length ts"
  shows "task_count s (take i ts @ drop (Suc i) ts)
           = task_count s ts - (if dl_sid (rt_delivery (ts ! i)) = s then 1 else 0)"
proof -
  have "task_count s ts = task_count s (take i ts @ ts ! i # drop (Suc i) ts)"
    using assms by (simp add: id_take_nth_drop [symmetric])
  then show ?thesis by simp
qed

lemma fold_dict_pop: "fold dict_pop ks d = filter (\<lambda>(k, v). k \<notin> set ks) d"
proof (induction ks arbitrary: d)
  case Nil
  then show ?case by simp
next
  case (Cons k ks)
  have "filter (\<lambda>(k, v). k \<notin> set ks) (dict_pop k d) = filter (\<lambda>(k', v). k' \<notin> set (k # ks)) d"
    by (auto simp: AList.delete_eq intro!: filter_cong)
  with Cons show ?case by simp
qed

lemma dict_wf_filter: "dict_wf d \<Longrightarrow> dict_wf (filter P d)"
  by (simp add: distinct_map inj_on_def)

lemma fold_pop_stale:
  assumes "dict_wf fl"
  shows "fold dict_pop (stale_ids sid fl) fl = filter (\<lambda>(k, d). dl_sid d \<noteq> sid) fl"
  unfolding fold_dict_pop
proof (rule filter_cong)
  fix p assume "p \<in> set fl"
  moreover obtain k d where "p = (k, d)" by (cases p)
  ultimately have p: "p = (k, d)" "(k, d) \<in> set fl" by simp_all
  have "k \<in> set (stale_ids sid fl) \<longleftrightarrow> dl_sid d = sid"
  proof
    assume "k \<in> set (stale_ids sid fl)"
    then obtain d' where "(k, d') \<in> set fl" "dl_sid d' = sid"
      by (auto simp: stale_ids_def)
    with p assms show "dl_sid d = sid" by (metis dict_wf_set_get option.inject)
  qed (use p in \<open>force simp: stale_ids_def\<close>)
  with p show "(case p of (k, v) \<Rightarrow> k \<notin> set (stale_ids sid fl)) \<longleftrightarrow> (case p of (k, d) \<Rightarrow> dl_sid d \<noteq> sid)"
    by simp
qed simp

section \<open>Retry counters\<close>

lemma acct_ok_pendingD:
  "acct_ok b \<Longrightarrow> dict_get (bk_retry_pending b) s = Some n \<Longrightarrow> 1 \<le> n"
  by (auto simp: acct_ok_def dest: counters_posD)

lemma pending_of_nonneg: "acct_ok b \<Longrightarrow> 0 \<le> pending_of b s"
  by (auto simp: pending_of_def dest: acct_ok_pendingD split: option.split)

lemma backlog_nonneg: "acct_ok b \<Longrightarrow> 0 \<le> backlog b"
  by (simp add: acct_ok_def backlog_def counters_pos_total)

lemma acct_enter_retry: "acct_ok b \<Longrightarrow> acct_ok (enter_retry s b)"
  by (auto simp: acct_ok_def enter_retry_def dict_wf_set dict_total_set
      intro!: counters_pos_set dest: counters_posD split: option.split)

lemma acct_leave_retry: "acct_ok b \<Longrightarrow> acct_ok (leave_retry s b)"
  by (auto simp: acct_ok_def leave_retry_def dict_wf_set dict_wf_pop dict_total_set dict_total_pop
      intro!: counters_pos_set counters_pos_pop dest: counters_posD split: option.split)

lemma pending_enter_retry [simp]:
  "pending_of (enter_retry s b) s' = pending_of b s' + (if s' = s then 1 else 0)"
  by (simp add: pending_of_def enter_retry_def dict_simps split: option.splits)

lemma pending_leave_retry:
  "acct_ok b \<Longrightarrow>
   pending_of (leave_retry s b) s' = (if s' = s then max 0 (pending_of b s - 1) else pending_of b s')"
  by (auto simp: pending_of_def leave_retry_def dict_simps dest: acct_ok_pendingD split: option.splits)

lemma total_enter_retry [simp]:
  "bk_retry_pending_total (enter_retry s b) = bk_retry_pending_total b + 1"
  by (simp add: enter_retry_def)

lemma total_leave_retry: "bk_retry_pending_total b - 1 \<le> bk_retry_pending_total (leave_retry s b)"
  by (auto simp: leave_retry_def split: option.split)

text \<open>What the two counter updates leave alone.\<close>

lemma enter_retry_frame [frame_simps]:
  "bk_backend (enter_retry s b) = bk_backend b" "bk_dur (enter_retry s b) = bk_dur b"
  "bk_router (enter_retry s b) = bk_router b" "bk_policy (enter_retry s b) = bk_policy b"
  "bk_tasks (enter_retry s b) = bk_tasks b" "bk_inflight (enter_retry s b) = bk_inflight b"
  "bk_streams (enter_retry s b) = bk_streams b" "bk_max_inflight (enter_retry s b) = bk_max_inflight b"
  "bk_admit (enter_retry s b) = bk_admit b" "bk_regs (enter_retry s b) = bk_regs b"
  "bk_queues (enter_retry s b) = bk_queues b" "bk_stream_heap (enter_retry s b) = bk_stream_heap b"
  "bk_draws (enter_retry s b) = bk_draws b" "bk_drawn (enter_retry s b) = bk_drawn b"
  "bk_events (enter_retry s b) = bk_events b"
  by (simp_all add: enter_retry_def)

lemma leave_retry_frame [frame_simps]:
  "bk_backend (leave_retry s b) = bk_backend b" "bk_dur (leave_retry s b) = bk_dur b"
  "bk_router (leave_retry s b) = bk_router b" "bk_policy (leave_retry s b) = bk_policy b"
  "bk_tasks (leave_retry s b) = bk_tasks b" "bk_inflight (leave_retry s b) = bk_inflight b"
  "bk_streams (leave_retry s b) = bk_streams b" "bk_max_inflight (leave_retry s b) = bk_max_inflight b"
  "bk_admit (leave_retry s b) = bk_admit b" "bk_regs (leave_retry s b) = bk_regs b"
  "bk_queues (leave_retry s b) = bk_queues b" "bk_stream_heap (leave_retry s b) = bk_stream_heap b"
  "bk_draws (leave_retry s b) = bk_draws b" "bk_drawn (leave_retry s b) = bk_drawn b"
  "bk_events (leave_retry s b) = bk_events b"
  by (simp_all add: leave_retry_def split: option.split)

lemma refresh_frame [frame_simps]:
  "bk_backend (refresh_admission b) = bk_backend b" "bk_dur (refresh_admission b) = bk_dur b"
  "bk_router (refresh_admission b) = bk_router b" "bk_policy (refresh_admission b) = bk_policy b"
  "bk_tasks (refresh_admission b) = bk_tasks b" "bk_inflight (refresh_admission b) = bk_inflight b"
  "bk_streams (refresh_admission b) = bk_streams b"
  "bk_max_inflight (refresh_admission b) = bk_max_inflight b"
  "bk_regs (refresh_admission b) = bk_regs b" "bk_queues (refresh_admission b) = bk_queues b"
  "bk_stream_heap (refresh_admission b) = bk_stream_heap b"
  "bk_draws (refresh_admission b) = bk_draws b" "bk_drawn (refresh_admission b) = bk_drawn b"
  "bk_retry_pending (refresh_admission b) = bk_retry_pending b"
  "bk_retry_pending_total (refresh_admission b) = bk_retry_pending_total b"
  "bk_events (refresh_admission b) = bk_events b"
  by (simp_all add: refresh_admission_def)

section \<open>The core invariant, primitive by primitive\<close>

lemma core_events [simp]: "core_inv (b\<lparr>bk_events := x\<rparr>) = core_inv b"
  by (simp add: core_inv_def ok_congs [of "b\<lparr>bk_events := x\<rparr>" b])

lemma core_dur [simp]: "core_inv (b\<lparr>bk_dur := x\<rparr>) = core_inv b"
  by (simp add: core_inv_def ok_congs [of "b\<lparr>bk_dur := x\<rparr>" b])

lemma core_admit [simp]: "core_inv (b\<lparr>bk_admit := x\<rparr>) = core_inv b"
  by (simp add: core_inv_def ok_congs [of "b\<lparr>bk_admit := x\<rparr>" b])

lemma core_emit [simp]: "core_inv (emit e b) = core_inv b"
  by (simp add: emit_def)

lemma core_refresh [simp]: "core_inv (refresh_admission b) = core_inv b"
  by (simp add: refresh_admission_def)

lemma minted_drawn:
  "minted (b\<lparr>bk_drawn := Suc (bk_drawn b)\<rparr>) = insert (new_id (bk_draws b (bk_drawn b))) (minted b)"
  by (auto simp: minted_def lessThan_Suc)

lemma core_drawn:
  assumes "core_inv b"
  shows "core_inv (b\<lparr>bk_drawn := Suc (bk_drawn b)\<rparr>)" (is "core_inv ?b")
proof -
  have sub: "minted b \<subseteq> minted ?b" by (auto simp: minted_drawn)
  have st: "statics ?b = statics b" by (simp add: statics_def)
  have "flight_ok ?b"
    using assms flight_good_mono [OF _ sub, of "statics b" _ "[]"]
    by (simp add: core_inv_def flight_ok_def st)
  moreover have "queue_ok ?b"
    using assms queue_good_mono [OF _ sub, of "statics b" _ _ "[]"]
    by (simp add: core_inv_def queue_ok_def st)
  moreover have "buffer_ok ?b"
    using assms buffer_good_mono [OF _ sub, of "statics b" _ _ "[]"]
    by (simp add: core_inv_def buffer_ok_def st)
  moreover have "sids_ok ?b"
    using assms sub by (auto simp: core_inv_def sids_ok_def st)
  ultimately show ?thesis
    using assms by (simp add: core_inv_def ok_congs [of ?b b])
qed

lemma core_inflight_sub:
  assumes "core_inv b" "dict_wf fl" "set fl \<subseteq> set (bk_inflight b)"
  shows "core_inv (b\<lparr>bk_inflight := fl\<rparr>)" (is "core_inv ?b")
proof -
  have "flight_ok ?b"
    using assms by (auto simp: core_inv_def flight_ok_def statics_def minted_def)
  with assms(1) show ?thesis by (simp add: core_inv_def ok_congs [of ?b b])
qed

lemma core_inflight_pop:
  assumes "core_inv b"
  shows "core_inv (b\<lparr>bk_inflight := dict_pop k (bk_inflight b)\<rparr>)"
  by (rule core_inflight_sub [OF assms _ set_dict_pop])
    (use assms in \<open>simp add: core_inv_def flight_ok_def dict_wf_pop\<close>)

lemma core_pending:
  assumes "core_inv b" "acct_ok b'"
    and "\<forall>s. registered b s \<longrightarrow> task_count s (bk_tasks b) \<le> pending_of b' s"
    and "bk_router b' = bk_router b" "bk_policy b' = bk_policy b" "bk_tasks b' = bk_tasks b"
    "bk_inflight b' = bk_inflight b" "bk_streams b' = bk_streams b" "bk_regs b' = bk_regs b"
    "bk_queues b' = bk_queues b" "bk_stream_heap b' = bk_stream_heap b" "bk_draws b' = bk_draws b"
    "bk_drawn b' = bk_drawn b"
  shows "core_inv b'"
proof -
  have "pend_ok b'" using assms by (simp add: pend_ok_def registered_def)
  with assms show ?thesis by (simp add: core_inv_def ok_congs [of b' b])
qed

lemma core_routerD:
  "core_inv b \<Longrightarrow> (s, a) \<in> set (bk_router b) \<Longrightarrow>
   a < length (bk_regs b) \<and> fst (statics b ! a) = s \<and> \<not> st_closed (bk_stream_heap b ! a)"
  by (fastforce simp: core_inv_def router_ok_def)

lemma core_acct: "core_inv b \<Longrightarrow> acct_ok b"
  by (simp add: core_inv_def)

lemma core_pend: "core_inv b \<Longrightarrow> registered b s \<Longrightarrow> task_count s (bk_tasks b) \<le> pending_of b s"
  by (simp add: core_inv_def pend_ok_def)

lemma core_enter_retry:
  assumes "core_inv b"
  shows "core_inv (enter_retry s b)"
proof (rule core_pending [OF assms acct_enter_retry [OF core_acct [OF assms]]])
  show "\<forall>s'. registered b s' \<longrightarrow> task_count s' (bk_tasks b) \<le> pending_of (enter_retry s b) s'"
    using core_pend [OF assms] by fastforce
qed (simp_all add: frame_simps)

lemma core_leave_retry:
  assumes "core_inv b" "registered b s \<Longrightarrow> task_count s (bk_tasks b) < pending_of b s"
  shows "core_inv (leave_retry s b)"
proof (rule core_pending [OF assms(1) acct_leave_retry [OF core_acct [OF assms(1)]]])
  show "\<forall>s'. registered b s' \<longrightarrow> task_count s' (bk_tasks b) \<le> pending_of (leave_retry s b) s'"
    using core_pend [OF assms(1)] assms(2)
    by (auto simp: pending_leave_retry [OF core_acct [OF assms(1)]])
qed (simp_all add: frame_simps)

lemma core_set_queue:
  assumes "core_inv b" "queue_good (statics b) (minted b) q v"
  shows "core_inv (set_queue q v b)"
proof -
  have "queue_ok (set_queue q v b)"
    using assms nth_update_all [of "bk_queues b" "queue_good (statics b) (minted b)" q v]
    by (simp add: core_inv_def queue_ok_def set_queue_def statics_def minted_def)
  with assms(1) show ?thesis
    by (simp add: core_inv_def set_queue_def ok_congs [of "b\<lparr>bk_queues := (bk_queues b)[q := v]\<rparr>" b])
qed

lemma core_record_inflight:
  assumes "core_inv b" "dl_id d \<in> minted b" "\<exists>a. good_delivery (statics b) a d"
  shows "core_inv (record_inflight d b)"
proof -
  have "set (dict_set (dl_id d) d fl) \<subseteq> insert (dl_id d, d) (set fl)" for fl :: "(string, delivery) dict"
    by (induction fl) auto
  moreover have "flight_good (statics b) (minted b) (dl_id d, d)"
    using assms by (simp add: flight_good_def)
  ultimately have "flight_ok (record_inflight d b)"
    using assms(1)
    by (auto simp: core_inv_def flight_ok_def statics_def minted_def record_inflight_def dict_wf_set)
  with assms(1) show ?thesis
    by (simp add: core_inv_def record_inflight_def
        ok_congs [of "b\<lparr>bk_inflight := dict_set (dl_id d) d (bk_inflight b)\<rparr>" b])
qed

lemma core_tasks:
  assumes "core_inv b" "\<forall>t\<in>set ts. task_good b t"
    and "\<forall>s. registered b s \<longrightarrow> task_count s ts \<le> pending_of b s"
  shows "core_inv (b\<lparr>bk_tasks := ts\<rparr>)" (is "core_inv ?b")
proof -
  have "task_ok ?b" "pend_ok ?b"
    using assms by (simp_all add: task_ok_def task_good_cong [of ?b b] statics_cong [of ?b b]
        pend_ok_def registered_def pending_of_def)
  with assms(1) show ?thesis by (simp add: core_inv_def ok_congs [of ?b b])
qed

lemma core_add_task:
  assumes "core_inv b" "task_good b t"
    and "registered b (dl_sid (rt_delivery t)) \<Longrightarrow>
         task_count (dl_sid (rt_delivery t)) (bk_tasks b) < pending_of b (dl_sid (rt_delivery t))"
  shows "core_inv (b\<lparr>bk_tasks := bk_tasks b @ [t]\<rparr>)"
proof (rule core_tasks [OF assms(1)])
  show "\<forall>t'\<in>set (bk_tasks b @ [t]). task_good b t'"
    using assms(1,2) by (simp add: core_inv_def task_ok_def)
  show "\<forall>s. registered b s \<longrightarrow> task_count s (bk_tasks b @ [t]) \<le> pending_of b s"
    using core_pend [OF assms(1)] assms(3) by auto
qed

lemma core_remove_task:
  assumes "core_inv b" "i < length (bk_tasks b)"
  shows "core_inv (b\<lparr>bk_tasks := take i (bk_tasks b) @ drop (Suc i) (bk_tasks b)\<rparr>)"
proof (rule core_tasks [OF assms(1)])
  show "\<forall>t\<in>set (take i (bk_tasks b) @ drop (Suc i) (bk_tasks b)). task_good b t"
    using assms(1) by (auto simp: core_inv_def task_ok_def dest: in_set_takeD in_set_dropD)
  show "\<forall>s. registered b s \<longrightarrow>
      task_count s (take i (bk_tasks b) @ drop (Suc i) (bk_tasks b)) \<le> pending_of b s"
    using core_pend [OF assms(1)] by (force simp: task_count_remove [OF assms(2)] simp del: task_count_append)
qed

section \<open>Eviction\<close>

lemma drop_inflight_fields:
  assumes "dict_wf (bk_inflight b)"
  shows "bk_inflight (drop_inflight s b) = filter (\<lambda>(k, d). dl_sid d \<noteq> s) (bk_inflight b)"
    and "bk_retry_pending (drop_inflight s b) = dict_pop s (bk_retry_pending b)"
    and "bk_retry_pending_total (drop_inflight s b) = bk_retry_pending_total b - pending_of b s"
  by (simp_all add: drop_inflight_def Let_def frame_simps fold_pop_stale [OF assms] pending_of_def)

lemma drop_inflight_frame [frame_simps]:
  "bk_backend (drop_inflight s b) = bk_backend b" "bk_dur (drop_inflight s b) = bk_dur b"
  "bk_router (drop_inflight s b) = bk_router b" "bk_policy (drop_inflight s b) = bk_policy b"
  "bk_tasks (drop_inflight s b) = bk_tasks b" "bk_streams (drop_inflight s b) = bk_streams b"
  "bk_max_inflight (drop_inflight s b) = bk_max_inflight b" "bk_regs (drop_inflight s b) = bk_regs b"
  "bk_queues (drop_inflight s b) = bk_queues b" "bk_stream_heap (drop_inflight s b) = bk_stream_heap b"
  "bk_draws (drop_inflight s b) = bk_draws b" "bk_drawn (drop_inflight s b) = bk_drawn b"
  "bk_events (drop_inflight s b) = bk_events b"
  by (simp_all add: drop_inflight_def Let_def frame_simps)

text \<open>
  Dropping the share of a subscription that has left the router.
\<close>

lemma core_unregister_drop:
  assumes "core_inv b"
  shows "core_inv (drop_inflight s
      (b\<lparr>bk_router := dict_pop s (bk_router b), bk_streams := dict_pop s (bk_streams b)\<rparr>))"
    (is "core_inv (drop_inflight s ?b)")
proof -
  let ?c = "drop_inflight s ?b"
  have wf: "dict_wf (bk_inflight ?b)" using assms by (simp add: core_inv_def flight_ok_def)
  note fields = drop_inflight_fields [OF wf, of s]
  have acct: "acct_ok ?c"
    using assms by (auto simp: core_inv_def acct_ok_def fields dict_wf_pop
        pending_of_def dict_total_pop intro: counters_pos_pop split: option.split)
  have flight: "flight_ok ?c"
    using assms by (auto simp: core_inv_def flight_ok_def fields frame_simps
        statics_def minted_def dict_wf_filter)
  have "set (dict_pop s (bk_router b)) \<subseteq> set (bk_router b)" by (rule set_dict_pop)
  then have router: "router_ok ?c"
    using assms by (auto simp: core_inv_def router_ok_def frame_simps statics_def dict_wf_pop)
  have pend: "pend_ok ?c"
    using core_pend [OF assms] by (auto simp: pend_ok_def registered_def frame_simps pending_of_def
        dict_get_pop fields simp del: map_of_eq_None_iff split: if_splits)
  from acct flight router pend assms show ?thesis
    by (simp add: core_inv_def ok_congs [of ?c b] frame_simps)
qed

lemma mark_closed_frame [frame_simps]:
  "bk_backend (mark_closed a b) = bk_backend b" "bk_dur (mark_closed a b) = bk_dur b"
  "bk_router (mark_closed a b) = bk_router b" "bk_policy (mark_closed a b) = bk_policy b"
  "bk_tasks (mark_closed a b) = bk_tasks b" "bk_inflight (mark_closed a b) = bk_inflight b"
  "bk_streams (mark_closed a b) = bk_streams b" "bk_max_inflight (mark_closed a b) = bk_max_inflight b"
  "bk_admit (mark_closed a b) = bk_admit b" "bk_regs (mark_closed a b) = bk_regs b"
  "bk_queues (mark_closed a b) = bk_queues b" "bk_draws (mark_closed a b) = bk_draws b"
  "bk_drawn (mark_closed a b) = bk_drawn b" "bk_retry_pending (mark_closed a b) = bk_retry_pending b"
  "bk_retry_pending_total (mark_closed a b) = bk_retry_pending_total b"
  "bk_events (mark_closed a b) = bk_events b"
  by (simp_all add: mark_closed_def)

lemma core_mark_closed:
  assumes "core_inv b" "a \<notin> snd ` set (bk_router b)"
  shows "core_inv (mark_closed a b)"
proof (cases "a < length (bk_stream_heap b)")
  case True
  have "bk_stream_heap (mark_closed a b) ! snd p = bk_stream_heap b ! snd p"
    if "p \<in> set (bk_router b)" for p
  proof -
    from that assms(2) have "snd p \<noteq> a" by auto
    then show ?thesis by (simp add: mark_closed_def)
  qed
  then have "router_ok (mark_closed a b)"
    using assms(1) by (simp add: core_inv_def router_ok_def frame_simps statics_cong [of "mark_closed a b" b])
  moreover have "heap_ok (mark_closed a b)"
    using assms True by (auto simp: core_inv_def heap_ok_def mark_closed_def nth_list_update)
  ultimately show ?thesis
    using assms(1) by (simp add: core_inv_def ok_congs [of "mark_closed a b" b] frame_simps)
next
  case False
  then have "mark_closed a b = b" by (simp add: mark_closed_def list_update_beyond)
  with assms show ?thesis by simp
qed

text \<open>Distinct subscriptions have distinct addresses.\<close>

lemma router_addresses:
  assumes "core_inv b" "(s, a) \<in> set (bk_router b)" "(s', a) \<in> set (bk_router b)"
  shows "s' = s"
  using core_routerD [OF assms(1,2)] core_routerD [OF assms(1,3)] by simp

lemma drop_inflight_streams: "drop_inflight s (b\<lparr>bk_streams := x\<rparr>) = (drop_inflight s b)\<lparr>bk_streams := x\<rparr>"
  by (simp add: drop_inflight_def Let_def refresh_admission_def below_watermark_def backlog_def
      watermark_def split: option.split)

lemma disconnect_eq:
  "disconnect s b =
     (let b' = drop_inflight s
          (b\<lparr>bk_router := dict_pop s (bk_router b), bk_streams := dict_pop s (bk_streams b)\<rparr>)
      in case dict_get (bk_streams b) s of None \<Rightarrow> b' | Some a \<Rightarrow> mark_closed a b')"
  by (simp add: disconnect_def Let_def router_unregister_def frame_simps drop_inflight_streams [symmetric]
      cong: option.case_cong)

lemma core_disconnect:
  assumes "core_inv b"
  shows "core_inv (disconnect s b)"
proof (cases "dict_get (bk_streams b) s")
  case None
  with core_unregister_drop [OF assms] show ?thesis by (simp add: disconnect_eq)
next
  case (Some a)
  have "bk_streams b = bk_router b" using assms by (simp add: core_inv_def router_ok_def)
  with Some have "(s, a) \<in> set (bk_router b)" by (auto dest: map_of_SomeD)
  then have "a \<notin> snd ` set (dict_pop s (bk_router b))"
    using router_addresses [OF assms] by (auto simp: AList.delete_eq)
  with Some core_unregister_drop [OF assms] show ?thesis
    by (auto simp: disconnect_eq Let_def frame_simps intro!: core_mark_closed)
qed

lemma core_on_exhausted: "core_inv b \<Longrightarrow> core_inv (on_exhausted s b)"
  by (simp add: on_exhausted_def core_disconnect)

end
