(* ===== verification/Broker_Ops.thy ===== *)
theory Broker_Ops
  imports Broker_Inv
begin

text \<open>
  Every operation of the broker preserves the core invariant, on its successful and on its
  raising path, and only ever extends the static part of the state (\<open>evolves\<close>).
\<close>

section \<open>What never changes\<close>

definition evolves :: "'d broker \<Rightarrow> 'd broker \<Rightarrow> bool" where
  "evolves b b' \<longleftrightarrow>
     (\<exists>us. statics b' = statics b @ us) \<and> bk_draws b' = bk_draws b \<and> bk_drawn b \<le> bk_drawn b' \<and>
     bk_policy b' = bk_policy b \<and> bk_max_inflight b' = bk_max_inflight b \<and> bk_backend b' = bk_backend b"

lemma evolves_refl [simp]: "evolves b b"
  by (simp add: evolves_def)

lemma evolves_trans [trans]: "evolves a b \<Longrightarrow> evolves b c \<Longrightarrow> evolves a c"
  by (auto simp: evolves_def)

lemma evolves_minted: "evolves b b' \<Longrightarrow> minted b \<subseteq> minted b'"
  by (auto simp: evolves_def minted_def)

lemma evolves_good: "evolves b b' \<Longrightarrow> good_delivery (statics b) a d \<Longrightarrow> good_delivery (statics b') a d"
  by (auto simp: evolves_def dest: good_delivery_append)

lemma evolves_length: "evolves b b' \<Longrightarrow> length (bk_regs b) \<le> length (bk_regs b')"
  unfolding evolves_def by (metis length_append length_statics le_add1)

lemma evolves_static: "evolves b b' \<Longrightarrow> a < length (bk_regs b) \<Longrightarrow> statics b' ! a = statics b ! a"
  by (auto simp: evolves_def nth_append)

lemma evolves_no_collision: "evolves b b' \<Longrightarrow> no_collision b' \<Longrightarrow> no_collision b"
  unfolding evolves_def no_collision_def by (metis inj_on_subset lessThan_subset_iff)

lemma evolvesI:
  "statics b' = statics b \<Longrightarrow> bk_draws b' = bk_draws b \<Longrightarrow> bk_drawn b \<le> bk_drawn b' \<Longrightarrow>
   bk_policy b' = bk_policy b \<Longrightarrow> bk_max_inflight b' = bk_max_inflight b \<Longrightarrow>
   bk_backend b' = bk_backend b \<Longrightarrow> evolves b b'"
  by (simp add: evolves_def)

lemma evolves_emit [simp]: "evolves b (emit e b)"
  by (simp add: evolves_def emit_def statics_def)

lemma evolves_refresh [simp]: "evolves b (refresh_admission b)"
  by (simp add: evolves_def frame_simps statics_def)

lemma evolves_enter [simp]: "evolves b (enter_retry s b)"
  by (simp add: evolves_def frame_simps statics_def)

lemma evolves_leave [simp]: "evolves b (leave_retry s b)"
  by (simp add: evolves_def frame_simps statics_def)

lemma evolves_record_inflight [simp]: "evolves b (record_inflight d b)"
  by (simp add: evolves_def record_inflight_def statics_def)

lemma evolves_set_queue [simp]: "evolves b (set_queue q v b)"
  by (simp add: evolves_def set_queue_def statics_def)

lemma evolves_mark_closed [simp]: "evolves b (mark_closed a b)"
  by (simp add: evolves_def frame_simps statics_def)

lemma evolves_disconnect [simp]: "evolves b (disconnect s b)"
  by (auto simp: disconnect_eq Let_def evolves_def frame_simps statics_def split: option.split)

lemma evolves_on_exhausted [simp]: "evolves b (on_exhausted s b)"
  by (simp add: on_exhausted_def evolves_trans [OF evolves_emit evolves_disconnect])

lemma evolves_to_dlq [simp]: "evolves b (snd (to_dlq e b))"
  by (simp add: to_dlq_def evolves_def statics_def split: prod.split)

lemma evolves_schedule [simp]: "evolves b (snd (schedule q d b))"
proof (cases "schedule_decision (bk_policy b) q d")
  case (ToDlq e)
  obtain r b1 where r: "to_dlq e b = (r, b1)" by fastforce
  then have "evolves b b1" using evolves_to_dlq [of b e] by simp
  then have "evolves b (on_exhausted (dl_sid d) b1)" by (rule evolves_trans) simp
  with ToDlq r \<open>evolves b b1\<close> show ?thesis
    by (cases r) (simp_all add: schedule_def)
next
  case (Spawn t)
  then show ?thesis by (simp add: schedule_def evolves_def statics_def)
qed

lemma evolves_mint [simp]: "evolves b (b\<lparr>bk_drawn := Suc (bk_drawn b)\<rparr>)"
  by (simp add: evolves_def statics_def)

lemma emit_frame [frame_simps]:
  "bk_backend (emit e b) = bk_backend b" "bk_dur (emit e b) = bk_dur b"
  "bk_router (emit e b) = bk_router b" "bk_policy (emit e b) = bk_policy b"
  "bk_tasks (emit e b) = bk_tasks b" "bk_inflight (emit e b) = bk_inflight b"
  "bk_retry_pending (emit e b) = bk_retry_pending b"
  "bk_retry_pending_total (emit e b) = bk_retry_pending_total b"
  "bk_streams (emit e b) = bk_streams b" "bk_max_inflight (emit e b) = bk_max_inflight b"
  "bk_admit (emit e b) = bk_admit b" "bk_regs (emit e b) = bk_regs b"
  "bk_queues (emit e b) = bk_queues b" "bk_stream_heap (emit e b) = bk_stream_heap b"
  "bk_draws (emit e b) = bk_draws b" "bk_drawn (emit e b) = bk_drawn b"
  "bk_events (emit e b) = bk_events b @ [e]"
  by (simp_all add: emit_def)

lemma evolves_enqueue [simp]: "evolves b (snd (enqueue a d b))"
proof -
  let ?b1 = "emit (OnDeliver (msg_topic (dl_message d)) (dl_sid d) (dl_attempt d)) b"
  let ?s = "sub_id (reg_sub (bk_regs b ! a))" and ?q = "reg_queue (bk_regs b ! a)"
  have "evolves b (snd (schedule ?q d (enter_retry ?s ?b1)))"
    by (rule evolves_trans [OF evolves_emit evolves_trans [OF evolves_enter evolves_schedule]])
  moreover have "evolves b (record_inflight d (set_queue ?q v ?b1))" for v
    by (rule evolves_trans [OF evolves_emit evolves_trans [OF evolves_set_queue evolves_record_inflight]])
  ultimately show ?thesis
    by (simp add: enqueue_def Let_def split: sum.split)
qed

section \<open>Redelivery and dead-lettering\<close>

lemma core_to_dlq: "core_inv b \<Longrightarrow> core_inv (snd (to_dlq e b))"
  by (simp add: to_dlq_def split: prod.split)

lemma core_schedule:
  assumes "core_inv b" "good_delivery (statics b) q d"
    and "registered b (dl_sid d) \<Longrightarrow> task_count (dl_sid d) (bk_tasks b) < pending_of b (dl_sid d)"
  shows "core_inv (snd (schedule q d b))"
proof (cases "schedule_decision (bk_policy b) q d")
  case (ToDlq e)
  have "core_inv (snd (to_dlq e b))" using assms(1) by (rule core_to_dlq)
  with ToDlq show ?thesis
    by (auto simp: schedule_def core_on_exhausted split: prod.split sum.split)
next
  case (Spawn t)
  then have "task_good b t" "rt_delivery t = d"
    using assms(2) by (auto simp: schedule_decision_Spawn task_good_def)
  with assms have "core_inv (b\<lparr>bk_tasks := bk_tasks b @ [t]\<rparr>)"
    by (intro core_add_task) simp_all
  with Spawn show ?thesis by (simp add: schedule_def)
qed

text \<open>A delivery on its way into retry-limbo: counted first, then handed to the engine.\<close>

lemma core_park:
  assumes "core_inv b" "good_delivery (statics b) q d"
  shows "core_inv (snd (schedule q d (enter_retry (dl_sid d) b)))"
proof (rule core_schedule)
  show "core_inv (enter_retry (dl_sid d) b)" using assms(1) by (rule core_enter_retry)
  show "good_delivery (statics (enter_retry (dl_sid d) b)) q d"
    using evolves_enter assms(2) by (rule evolves_good)
  assume "registered (enter_retry (dl_sid d) b) (dl_sid d)"
  then have "registered b (dl_sid d)" by (simp add: registered_def frame_simps)
  with core_pend [OF assms(1)]
  show "task_count (dl_sid d) (bk_tasks (enter_retry (dl_sid d) b))
      < pending_of (enter_retry (dl_sid d) b) (dl_sid d)"
    by (fastforce simp: frame_simps)
qed

lemma core_heapD:
  assumes "core_inv b" "a < length (bk_regs b)"
  shows "reg_queue (bk_regs b ! a) = a" "st_queue (bk_stream_heap b ! a) = a"
    "st_sub (bk_stream_heap b ! a) = reg_sub (bk_regs b ! a)"
    "split_subject (sub_selector (reg_sub (bk_regs b ! a))) = Inr (reg_tokens (bk_regs b ! a))"
    "wf_pattern (reg_tokens (bk_regs b ! a))"
    "length (bk_queues b) = length (bk_regs b)" "length (bk_stream_heap b) = length (bk_regs b)"
  using assms by (auto simp: core_inv_def heap_ok_def)

lemma core_queueD:
  "core_inv b \<Longrightarrow> a < length (bk_regs b) \<Longrightarrow> queue_good (statics b) (minted b) a (bk_queues b ! a)"
  by (simp add: core_inv_def heap_ok_def queue_ok_def)

lemma good_delivery_sid:
  "good_delivery (statics b) a d \<Longrightarrow> a < length (bk_regs b) \<and> dl_sid d = sub_id (reg_sub (bk_regs b ! a))"
  by (auto simp: good_delivery_def statics_nth reg_static_def)

lemma queue_good_put:
  assumes "queue_good st mi a q" "put_nowait d q = Inr q'" "good_delivery st a d" "dl_id d \<in> mi"
  shows "queue_good st mi a q'"
  using assms by (auto simp: queue_good_def put_nowait_Inr DEFAULT_QUEUE_BOUND_def)

text \<open>With the heap in order, \<open>_enqueue\<close> works on the subscription's own queue and counter.\<close>

lemma enqueue_eq:
  assumes "core_inv b" "good_delivery (statics b) a d"
  shows "enqueue a d b =
     (let b1 = emit (OnDeliver (msg_topic (dl_message d)) (dl_sid d) (dl_attempt d)) b
      in case put_nowait d (bk_queues b ! a) of
           Inl _ \<Rightarrow> schedule a d (enter_retry (dl_sid d) b1)
         | Inr q' \<Rightarrow> (Inr (), record_inflight d (set_queue a q' b1)))"
proof -
  have a: "a < length (bk_regs b)" "sub_id (reg_sub (bk_regs b ! a)) = dl_sid d"
    using good_delivery_sid [OF assms(2)] by simp_all
  have q: "reg_queue (bk_regs b ! a) = a" using core_heapD [OF assms(1) a(1)] by simp
  show ?thesis
    by (cases "put_nowait d (bk_queues b ! a)") (simp_all add: enqueue_def Let_def frame_simps q a(2))
qed

lemma core_enqueue:
  assumes "core_inv b" "good_delivery (statics b) a d" "dl_id d \<in> minted b"
  shows "core_inv (snd (enqueue a d b))"
proof -
  define b1 where "b1 = emit (OnDeliver (msg_topic (dl_message d)) (dl_sid d) (dl_attempt d)) b"
  have b1: "core_inv b1" "statics b1 = statics b" "minted b1 = minted b"
    using assms(1) by (simp_all add: b1_def emit_def statics_def minted_def)
  have a: "a < length (bk_regs b)" using good_delivery_sid [OF assms(2)] by simp
  show ?thesis
  proof (cases "put_nowait d (bk_queues b ! a)")
    case (Inl e)
    with b1 assms show ?thesis
      by (simp add: enqueue_eq Let_def b1_def [symmetric] core_park)
  next
    case (Inr v)
    have "queue_good (statics b1) (minted b1) a v"
      using queue_good_put [OF core_queueD [OF assms(1) a] Inr assms(2,3)] b1 by simp
    then have "core_inv (set_queue a v b1)" by (rule core_set_queue [OF b1(1)])
    moreover have "statics (set_queue a v b1) = statics b" "minted (set_queue a v b1) = minted b"
      using b1 by (simp_all add: set_queue_def statics_def minted_def)
    ultimately have "core_inv (record_inflight d (set_queue a v b1))"
      using assms by (metis core_record_inflight)
    with Inr show ?thesis
      by (simp add: enqueue_eq [OF assms(1,2)] Let_def b1_def [symmetric])
  qed
qed

lemma queue_good_get:
  "queue_good st mi a q \<Longrightarrow> get_ready q = Some (d, q') \<Longrightarrow>
   queue_good st mi a q' \<and> good_delivery st a d \<and> dl_id d \<in> mi"
  by (auto simp: queue_good_def get_ready_Some)

section \<open>Registrations\<close>

lemma core_set_reg:
  assumes "core_inv b" "a < length (bk_regs b)"
    and "reg_sub r = reg_sub (bk_regs b ! a)" "reg_queue r = reg_queue (bk_regs b ! a)"
    and "reg_tokens r = reg_tokens (bk_regs b ! a)" "buffer_good (statics b) (minted b) a r"
  shows "core_inv (set_reg a r b)"
proof -
  let ?b = "set_reg a r b"
  have st: "statics ?b = statics b"
    unfolding set_reg_def by (rule statics_list_update) (use assms in \<open>simp add: reg_static_def\<close>)
  have mi: "minted ?b = minted b" by (simp add: set_reg_def minted_def)
  have "heap_ok ?b"
    using assms by (auto simp: core_inv_def heap_ok_def set_reg_def nth_list_update)
  moreover have "buffer_ok ?b"
    using assms nth_update_all [of "bk_regs b" "buffer_good (statics b) (minted b)" a r]
    by (simp add: core_inv_def buffer_ok_def st mi) (simp add: set_reg_def)
  moreover have "bk_router ?b = bk_router b" "bk_streams ?b = bk_streams b" "bk_tasks ?b = bk_tasks b"
    "bk_policy ?b = bk_policy b" "bk_inflight ?b = bk_inflight b" "bk_queues ?b = bk_queues b"
    "bk_retry_pending ?b = bk_retry_pending b" "bk_draws ?b = bk_draws b" "bk_drawn ?b = bk_drawn b"
    "bk_retry_pending_total ?b = bk_retry_pending_total b" "bk_stream_heap ?b = bk_stream_heap b"
    by (simp_all add: set_reg_def)
  ultimately show ?thesis
    using assms(1) st by (simp add: core_inv_def acct_cong [of ?b b] router_cong [of ?b b]
        sids_cong [of ?b b] flight_cong [of ?b b] queue_cong [of ?b b] task_cong [of ?b b]
        pend_cong [of ?b b])
qed

section \<open>Delivering and publishing\<close>

definition hits :: "'d broker \<Rightarrow> nat \<Rightarrow> string \<Rightarrow> bool" where
  "hits b a topic \<longleftrightarrow>
     a < length (bk_regs b) \<and> matches_tokens (snd (statics b ! a)) topic = Inr True"

lemma hits_iff:
  "hits b a topic \<longleftrightarrow>
     a < length (bk_regs b) \<and> matches_tokens (reg_tokens (bk_regs b ! a)) topic = Inr True"
  by (auto simp: hits_def statics_nth reg_static_def)

lemma evolves_hits: "evolves b b' \<Longrightarrow> hits b a topic \<Longrightarrow> hits b' a topic"
  using evolves_static [of b b' a] evolves_length [of b b'] by (simp add: hits_def)

lemma hits_good:
  "hits b a (msg_topic m) \<Longrightarrow> 1 \<le> attempt \<Longrightarrow>
   good_delivery (statics b) a (make_delivery (bk_regs b ! a) m attempt did)"
  by (auto simp: hits_iff good_delivery_def make_delivery_def statics_nth reg_static_def)

lemma evolves_set_reg:
  "reg_static r = reg_static (bk_regs b ! a) \<Longrightarrow> evolves b (set_reg a r b)"
  unfolding set_reg_def by (rule evolvesI) (simp_all add: statics_list_update)

lemma core_bufferD:
  "core_inv b \<Longrightarrow> a < length (bk_regs b) \<Longrightarrow> buffer_good (statics b) (minted b) a (bk_regs b ! a)"
  by (simp add: core_inv_def buffer_ok_def)

lemma deliver_safe:
  assumes "core_inv b" "hits b a (msg_topic m)" "1 \<le> attempt"
  shows "core_inv (snd (deliver a m attempt b)) \<and> evolves b (snd (deliver a m attempt b))"
proof -
  let ?b1 = "b\<lparr>bk_drawn := Suc (bk_drawn b)\<rparr>" and ?did = "new_id (bk_draws b (bk_drawn b))"
  let ?r = "bk_regs b ! a"
  let ?d = "make_delivery ?r m attempt ?did"
  have core: "core_inv ?b1" using assms(1) by (rule core_drawn)
  have a: "a < length (bk_regs b)" using assms(2) by (simp add: hits_def)
  have good: "good_delivery (statics ?b1) a ?d"
    using hits_good [OF assms(2,3)] by (rule evolves_good [OF evolves_mint])
  have id: "dl_id ?d \<in> minted ?b1" by (simp add: make_delivery_def minted_drawn)
  show ?thesis
  proof (cases "reg_replaying ?r")
    case True
    let ?r' = "?r\<lparr>reg_buffer := reg_buffer ?r @ [?d]\<rparr>"
    have "buffer_good (statics ?b1) (minted ?b1) a ?r'"
      using core_bufferD [OF core, of a] a good id by (auto simp: buffer_good_def)
    with core a have "core_inv (set_reg a ?r' ?b1)" by (intro core_set_reg) simp_all
    moreover have "evolves b (set_reg a ?r' ?b1)"
      by (rule evolves_trans [OF evolves_mint evolves_set_reg]) (simp add: reg_static_def)
    ultimately show ?thesis using True by (simp add: deliver_def mint_def Let_def)
  next
    case False
    have "core_inv (snd (enqueue a ?d ?b1))" using core good id by (rule core_enqueue)
    with False evolves_trans [OF evolves_mint evolves_enqueue] show ?thesis
      by (simp add: deliver_def mint_def Let_def)
  qed
qed

lemma deliver_each_safe:
  "core_inv b \<Longrightarrow> \<forall>a\<in>set as. hits b a (msg_topic m) \<Longrightarrow>
   core_inv (snd (deliver_each as m b)) \<and> evolves b (snd (deliver_each as m b))"
proof (induction as arbitrary: b)
  case Nil
  then show ?case by simp
next
  case (Cons a as)
  obtain r b1 where r: "deliver a m 1 b = (r, b1)" by fastforce
  have 1: "core_inv b1" "evolves b b1"
    using deliver_safe [of b a m 1] Cons.prems r by simp_all
  have "core_inv (snd (deliver_each as m b1))" "evolves b1 (snd (deliver_each as m b1))"
    using Cons.IH [of b1] Cons.prems evolves_hits [OF 1(2)] 1(1) by simp_all
  with 1 r show ?case by (cases r) (auto intro: evolves_trans)
qed

lemma publish_begin_safe:
  assumes "core_inv b"
  shows "core_inv (snd (publish_begin topic payload extras now b)) \<and>
         evolves b (snd (publish_begin topic payload extras now b))"
  using assms core_drawn [OF assms]
  by (auto simp: publish_begin_def mint_def Let_def split: sum.split py_exn.split)

lemma publish_store_safe:
  "core_inv b \<Longrightarrow> core_inv (snd (publish_store m b)) \<and> evolves b (snd (publish_store m b))"
  by (auto simp: publish_store_def evolves_def statics_def split: prod.split)

lemma router_match_hits:
  assumes "core_inv b" "router_match (bk_regs b) (bk_router b) topic = Inr as" "a \<in> set as"
  shows "hits b a topic \<and> a \<in> snd ` set (bk_router b)"
proof -
  have a: "a \<in> snd ` set (bk_router b)" "matches_tokens (reg_tokens (bk_regs b ! a)) topic = Inr True"
    using match_addresses_sound [OF assms(2) [unfolded router_match_def]] assms(3) by auto
  then have "a < length (bk_regs b)" using core_routerD [OF assms(1)] by auto
  with a show ?thesis by (simp add: hits_def statics_nth reg_static_def)
qed

lemma publish_fanout_safe:
  assumes "core_inv b"
  shows "core_inv (snd (publish_fanout m b)) \<and> evolves b (snd (publish_fanout m b))"
proof (cases "router_match (bk_regs b) (bk_router b) (msg_topic m)")
  case (Inl e)
  with assms show ?thesis by (simp add: publish_fanout_def)
next
  case (Inr as)
  obtain r b1 where r: "deliver_each as m b = (r, b1)" by fastforce
  have "\<forall>a\<in>set as. hits b a (msg_topic m)" using router_match_hits [OF assms Inr] by blast
  with deliver_each_safe [OF assms] r have 1: "core_inv b1" "evolves b b1" by force+
  have "evolves b (emit e b1)" for e using 1(2) evolves_emit by (rule evolves_trans)
  with 1 Inr r show ?thesis by (cases r) (simp_all add: publish_fanout_def)
qed

lemma gate_pass_safe: "core_inv b \<Longrightarrow> core_inv (snd (gate_pass b)) \<and> evolves b (snd (gate_pass b))"
  by (auto simp: gate_pass_def evolves_def statics_def)

lemma publish_resume_safe:
  assumes "core_inv b"
  shows "core_inv (snd (publish_resume m b)) \<and> evolves b (snd (publish_resume m b))"
proof (cases "fst (gate_pass b)")
  case False
  with gate_pass_safe [OF assms] show ?thesis
    by (auto simp: publish_resume_def split: prod.splits bool.splits)
next
  case True
  then have g: "gate_pass b = (True, b)" by (simp add: gate_pass_def split: if_splits)
  obtain r b1 where s: "publish_store m b = (r, b1)" by fastforce
  have 1: "core_inv b1" "evolves b b1" using publish_store_safe [OF assms, of m] s by simp_all
  obtain r2 b2 where f: "publish_fanout m b1 = (r2, b2)" by fastforce
  have 2: "core_inv b2" "evolves b1 b2" using publish_fanout_safe [OF 1(1), of m] f by simp_all
  from 1(2) 2(2) have "evolves b b2" by (rule evolves_trans)
  with 1 2 s f show ?thesis
    by (cases r; cases r2) (simp_all add: publish_resume_def g)
qed

lemma publish_safe:
  assumes "core_inv b"
  shows "core_inv (snd (publish topic payload extras now b)) \<and>
         evolves b (snd (publish topic payload extras now b))"
proof -
  obtain r b1 where p: "publish_begin topic payload extras now b = (r, b1)" by fastforce
  have 1: "core_inv b1" "evolves b b1"
    using publish_begin_safe [OF assms, of topic payload extras now] p by simp_all
  have "core_inv (snd (publish_resume m b1))" "evolves b (snd (publish_resume m b1))" for m
    using publish_resume_safe [OF 1(1), of m] evolves_trans [OF 1(2)] by simp_all
  with 1 p show ?thesis by (auto simp: publish_def split: sum.split)
qed

section \<open>The retry task\<close>

lemma task_goodD:
  "core_inv b \<Longrightarrow> i < length (bk_tasks b) \<Longrightarrow> task_good b (bk_tasks b ! i)"
  by (simp add: core_inv_def task_ok_def)

lemma good_retried:
  "task_good b t \<Longrightarrow> good_delivery (statics b) (rt_queue t) (retried_delivery did t)"
  by (auto simp: task_good_def good_delivery_def retried_delivery_def)

lemma wake_task_safe:
  assumes "core_inv b" "i < length (bk_tasks b)"
  shows "core_inv (snd (wake_task i draw b)) \<and> evolves b (snd (wake_task i draw b))"
proof -
  define t where "t = bk_tasks b ! i"
  define b1 where "b1 = b\<lparr>bk_tasks := take i (bk_tasks b) @ drop (Suc i) (bk_tasks b)\<rparr>"
  define b2 where "b2 = b1\<lparr>bk_drawn := Suc (bk_drawn b1)\<rparr>"
  define retry where "retry = retried_delivery (new_id (bk_draws b1 (bk_drawn b1))) t"
  have core1: "core_inv b1" unfolding b1_def using assms by (rule core_remove_task)
  have core2: "core_inv b2" unfolding b2_def using core1 by (rule core_drawn)
  have ev1: "evolves b b1" by (simp add: b1_def evolves_def statics_def)
  then have ev: "evolves b b2" unfolding b2_def by (rule evolves_trans) simp
  have good: "good_delivery (statics b2) (rt_queue t) retry"
    unfolding retry_def t_def
    by (rule evolves_good [OF ev good_retried [OF task_goodD [OF assms]]])
  have id: "dl_id retry \<in> minted b2"
    by (simp add: b2_def minted_drawn retry_def retried_delivery_def)
  have sid: "dl_sid retry = dl_sid (rt_delivery t)" by (simp add: retry_def retried_delivery_def)
  have strict: "task_count (dl_sid retry) (bk_tasks b2) < pending_of b2 (dl_sid retry)"
    if "registered b2 (dl_sid retry)"
  proof -
    have "registered b (dl_sid retry)" using that by (simp add: registered_def b1_def b2_def)
    with core_pend [OF assms(1)]
    have "task_count (dl_sid retry) (bk_tasks b) \<le> pending_of b (dl_sid retry)" by simp
    then show ?thesis
      by (simp add: b1_def b2_def pending_of_def task_count_remove [OF assms(2)] sid t_def
          del: task_count_append)
  qed
  show ?thesis
  proof (cases "backoff (bk_policy b) (rt_next_attempt t) draw")
    case (Inl e)
    with core1 ev1 show ?thesis by (simp add: wake_task_def t_def b1_def)
  next
    case (Inr delay)
    show ?thesis
    proof (cases "put_nowait retry (bk_queues b2 ! rt_queue t)")
      case (Inl e)
      have "core_inv (snd (schedule (rt_queue t) retry b2))"
        using core2 good strict by (rule core_schedule)
      moreover have "evolves b (snd (schedule (rt_queue t) retry b2))"
        using ev evolves_schedule by (rule evolves_trans)
      ultimately show ?thesis
        using Inl Inr by (simp add: wake_task_def t_def [symmetric] b1_def [symmetric] mint_def
            Let_def b2_def [symmetric] retry_def [symmetric])
    next
      case put: (Inr v)
      let ?b3 = "set_queue (rt_queue t) v b2"
      have a: "rt_queue t < length (bk_regs b2)" using good_delivery_sid [OF good] by simp
      have core3: "core_inv ?b3"
        using queue_good_put [OF core_queueD [OF core2 a] put good id] by (rule core_set_queue [OF core2])
      have "core_inv (leave_retry (dl_sid retry) ?b3)"
        by (rule core_leave_retry [OF core3])
          (use strict in \<open>simp add: registered_def set_queue_def pending_of_def\<close>)
      then have "core_inv (record_retried retry ?b3)"
        unfolding record_retried_def
        by (rule core_record_inflight)
          (use id good in \<open>auto simp: minted_def statics_def frame_simps set_queue_def\<close>)
      moreover have "evolves b (record_retried retry ?b3)"
        unfolding record_retried_def
        by (rule evolves_trans [OF ev evolves_trans [OF evolves_set_queue
              evolves_trans [OF evolves_leave evolves_record_inflight]]])
      ultimately show ?thesis
        using put Inr by (simp add: wake_task_def t_def [symmetric] b1_def [symmetric] mint_def
            Let_def b2_def [symmetric] retry_def [symmetric])
    qed
  qed
qed

section \<open>Subscribing\<close>

lemma core_alloc:
  assumes "core_inv b" "sub_id sub \<notin> fst ` set (statics b)" "sub_id sub \<in> minted b"
    and "split_subject (sub_selector sub) = Inr tokens" "wf_pattern tokens"
  shows "core_inv (b\<lparr>bk_queues := bk_queues b @ [new_queue DEFAULT_QUEUE_BOUND],
      bk_regs := bk_regs b @ [new_registration sub (length (bk_regs b)) (Some tokens)],
      bk_stream_heap := bk_stream_heap b @
        [\<lparr>st_sub = sub, st_queue = length (bk_regs b), st_closed = False\<rparr>]\<rparr>)" (is "core_inv ?b")
proof -
  let ?r = "new_registration sub (length (bk_regs b)) (Some tokens)"
  have toks: "reg_tokens ?r = tokens"
    using split_subject_not_Nil [OF assms(4)] by (cases tokens) (simp_all add: new_registration_def)
  have r: "reg_sub ?r = sub" "reg_queue ?r = length (bk_regs b)" "reg_buffer ?r = []"
    by (simp_all add: new_registration_def)
  have st: "statics ?b = statics b @ [(sub_id sub, tokens)]"
    by (simp add: statics_def reg_static_def r toks)
  have mi: "minted ?b = minted b" by (simp add: minted_def)
  note parts = assms(1) [unfolded core_inv_def]
  have lens: "length (bk_queues b) = length (bk_regs b)" "length (bk_stream_heap b) = length (bk_regs b)"
    using parts by (simp_all add: heap_ok_def)
  have "heap_ok ?b"
    using parts assms(4,5) by (auto simp: heap_ok_def nth_append less_Suc_eq r toks)
  moreover have "router_ok ?b"
    using parts lens unfolding router_ok_def st by (auto simp: nth_append)
  moreover have "sids_ok ?b"
    using parts assms(2,3) unfolding sids_ok_def st mi by auto
  moreover have "flight_ok ?b"
    using parts flight_good_mono [OF _ subset_refl] unfolding flight_ok_def st mi by auto
  moreover have "queue_ok ?b"
    using parts lens queue_good_mono [OF _ subset_refl] unfolding queue_ok_def st mi
    by (auto simp: nth_append less_Suc_eq) (simp add: queue_good_def)
  moreover have "buffer_ok ?b"
    using parts buffer_good_mono [OF _ subset_refl] unfolding buffer_ok_def st mi
    by (auto simp: nth_append less_Suc_eq) (simp add: buffer_good_def r)
  moreover have "task_ok ?b"
    using parts good_delivery_append unfolding task_ok_def task_good_def st by auto
  ultimately show ?thesis
    using parts by (simp add: core_inv_def acct_cong [of ?b b] pend_cong [of ?b b])
qed

lemma core_register:
  assumes "core_inv b" "a < length (bk_regs b)" "fst (statics b ! a) = s"
    and "\<not> st_closed (bk_stream_heap b ! a)" "task_count s (bk_tasks b) = 0"
  shows "core_inv (b\<lparr>bk_router := dict_set s a (bk_router b), bk_streams := dict_set s a (bk_streams b)\<rparr>)"
    (is "core_inv ?b")
proof -
  note parts = assms(1) [unfolded core_inv_def]
  have "snd p < length (bk_regs b) \<and> fst (statics b ! snd p) = fst p \<and>
      \<not> st_closed (bk_stream_heap b ! snd p)" if "p \<in> set (dict_set s a (bk_router b))" for p
    using set_dict_setD [OF that] assms(2-4) parts by (auto simp: router_ok_def)
  moreover have "statics ?b = statics b" by (simp add: statics_def)
  ultimately have "router_ok ?b"
    using parts by (simp add: router_ok_def dict_wf_set)
  moreover have "pend_ok ?b"
    using core_pend [OF assms(1)] pending_of_nonneg [OF core_acct [OF assms(1)]] assms(5)
    by (auto simp: pend_ok_def registered_def dict_get_set pending_of_def split: if_splits)
  ultimately show ?thesis
    using parts by (simp add: core_inv_def ok_congs [of ?b b])
qed

lemma task_count_unknown:
  assumes "core_inv b" "s \<notin> fst ` set (statics b)"
  shows "task_count s (bk_tasks b) = 0"
proof -
  have "dl_sid (rt_delivery t) \<noteq> s" if "t \<in> set (bk_tasks b)" for t
    using that assms by (auto simp: core_inv_def task_ok_def task_good_def good_delivery_def)
  then show ?thesis by (simp add: task_count_def)
qed

lemma refresh_eq: "refresh_admission b = b\<lparr>bk_admit := bk_admit (refresh_admission b)\<rparr>"
  by (simp add: refresh_admission_def)

lemma subscribe_begin_safe:
  assumes "core_inv b" "subscribe_begin selector replay b = (r, b')" "no_collision b'"
  shows "core_inv b' \<and> evolves b b' \<and> (\<forall>a. r = Inr a \<longrightarrow> a = length (bk_regs b) \<and> a < length (bk_regs b'))"
proof (cases "validate_pattern selector")
  case (Inl e)
  with assms show ?thesis by (auto simp: subscribe_begin_def)
next
  case (Inr tokens)
  define sid where "sid = new_id (bk_draws b (bk_drawn b))"
  define policy where "policy = (case replay of None \<Rightarrow> FutureOnly | Some p \<Rightarrow> p)"
  define sub where "sub = \<lparr>sub_id = sid, sub_selector = selector, sub_replay = policy\<rparr>"
  define a where "a = length (bk_regs b)"
  define reg where "reg = new_registration sub a (Some tokens)"
  define b1 where "b1 = b\<lparr>bk_drawn := Suc (bk_drawn b)\<rparr>"
  define b2 where "b2 = b1\<lparr>bk_queues := bk_queues b1 @ [new_queue DEFAULT_QUEUE_BOUND],
      bk_regs := bk_regs b1 @ [reg],
      bk_stream_heap := bk_stream_heap b1 @ [\<lparr>st_sub = sub, st_queue = a, st_closed = False\<rparr>]\<rparr>"
  define adm where "adm = bk_admit (refresh_admission (b2\<lparr>bk_router := dict_set sid a (bk_router b2)\<rparr>))"
  define b3 where "b3 = b2\<lparr>bk_router := dict_set sid a (bk_router b2),
      bk_streams := dict_set sid a (bk_streams b2)\<rparr>"
  define b5 where "b5 = b3\<lparr>bk_admit := adm\<rparr>"
  have reg_a: "bk_regs b2 ! a = reg" by (simp add: b2_def b1_def a_def)
  have regsub: "reg_sub reg = sub" by (simp add: reg_def new_registration_def)
  have b': "b' = (case policy of FutureOnly \<Rightarrow> b5
      | FromUnixTimestamp _ \<Rightarrow> set_reg a (reg\<lparr>reg_replaying := True\<rparr>) b5)" and r: "r = Inr a"
  proof -
    let ?b3 = "b2\<lparr>bk_router := router_register (bk_regs b2) a (bk_router b2)\<rparr>"
    have "router_register (bk_regs b2) a (bk_router b2) = dict_set sid a (bk_router b2)"
      by (simp add: router_register_def reg_a regsub) (simp add: sub_def)
    then have eq5: "(refresh_admission ?b3)\<lparr>bk_streams := dict_set sid a (bk_streams (refresh_admission ?b3))\<rparr> = b5"
      by (subst refresh_eq) (simp add: b5_def b3_def adm_def frame_simps)
    have "subscribe_begin selector replay b =
        (let B = (refresh_admission ?b3)\<lparr>bk_streams := dict_set sid a (bk_streams (refresh_admission ?b3))\<rparr>
         in (Inr a, case policy of FutureOnly \<Rightarrow> B
              | FromUnixTimestamp _ \<Rightarrow> set_reg a (reg\<lparr>reg_replaying := True\<rparr>) B))"
      by (simp add: subscribe_begin_def Inr mint_def Let_def policy_def sub_def sid_def a_def reg_def
          b2_def b1_def cong: replay_policy.case_cong)
    with assms(2) show "b' = (case policy of FutureOnly \<Rightarrow> b5
        | FromUnixTimestamp _ \<Rightarrow> set_reg a (reg\<lparr>reg_replaying := True\<rparr>) b5)" "r = Inr a"
      unfolding eq5 Let_def by simp_all
  qed
  have "bk_draws b' = bk_draws b" "bk_drawn b' = Suc (bk_drawn b)"
    by (simp_all add: b' b5_def b3_def b2_def b1_def set_reg_def split: replay_policy.split)
  with assms(3) have fresh: "sid \<notin> minted b"
    unfolding sid_def by (intro minted_fresh) (simp add: no_collision_def)
  then have new: "sid \<notin> fst ` set (statics b)"
    using assms(1) by (auto simp: core_inv_def sids_ok_def)
  have core1: "core_inv b1" unfolding b1_def using assms(1) by (rule core_drawn)
  have st1: "statics b1 = statics b" by (simp add: b1_def statics_def)
  have len1: "length (bk_regs b1) = a" by (simp add: b1_def a_def)
  have core2: "core_inv b2"
    unfolding b2_def reg_def
  proof (rule core_alloc [OF core1, of sub tokens, unfolded len1])
    show "sub_id sub \<notin> fst ` set (statics b1)" using new by (simp add: st1 sub_def)
    show "sub_id sub \<in> minted b1" by (simp add: b1_def minted_drawn sub_def sid_def)
  qed (use Inr in \<open>simp_all add: sub_def validate_pattern_Inr\<close>)
  have "core_inv b3"
    unfolding b3_def
  proof (rule core_register [OF core2])
    show "a < length (bk_regs b2)" by (simp add: b2_def b1_def a_def)
    then show "fst (statics b2 ! a) = sid" by (simp add: statics_nth reg_a reg_static_def regsub) (simp add: sub_def)
    show "\<not> st_closed (bk_stream_heap b2 ! a)"
      using core_heapD [OF core2] assms(1)
      by (simp add: b2_def b1_def a_def core_inv_def heap_ok_def nth_append)
    show "task_count sid (bk_tasks b2) = 0"
      using task_count_unknown [OF assms(1) new] by (simp add: b2_def b1_def)
  qed
  then have core5: "core_inv b5" by (simp add: b5_def)
  have regs5: "bk_regs b5 = bk_regs b @ [reg]" by (simp add: b5_def b3_def b2_def b1_def)
  have "evolves b b5"
    by (simp add: evolves_def b5_def b3_def b2_def b1_def statics_def)
  moreover have "evolves b5 (set_reg a (reg\<lparr>reg_replaying := True\<rparr>) b5)"
    by (rule evolves_set_reg) (simp add: regs5 a_def reg_static_def)
  moreover have "core_inv (set_reg a (reg\<lparr>reg_replaying := True\<rparr>) b5)"
    using core5 by (rule core_set_reg)
      (simp_all add: regs5 a_def buffer_good_def reg_def new_registration_def)
  ultimately have "core_inv b' \<and> evolves b b'"
    using core5 by (auto simp: b' split: replay_policy.split intro: evolves_trans)
  moreover have "length (bk_regs b') = Suc (length (bk_regs b))"
    by (simp add: b' regs5 set_reg_def split: replay_policy.split)
  ultimately show ?thesis by (simp add: r a_def)
qed

section \<open>Replay\<close>

lemma replay_history_safe:
  "core_inv b \<Longrightarrow> a < length (bk_regs b) \<Longrightarrow>
   core_inv (snd (replay_history a ms b)) \<and> evolves b (snd (replay_history a ms b))"
proof (induction ms arbitrary: b)
  case Nil
  then show ?case by simp
next
  case (Cons m ms)
  let ?b1 = "b\<lparr>bk_drawn := Suc (bk_drawn b)\<rparr>" and ?did = "new_id (bk_draws b (bk_drawn b))"
  let ?d = "make_delivery (bk_regs b ! a) m 1 ?did"
  show ?case
  proof (cases "matches_tokens (reg_tokens (bk_regs b ! a)) (msg_topic m)")
    case (Inl e)
    with Cons.prems show ?thesis by simp
  next
    case (Inr hit)
    show ?thesis
    proof (cases hit)
      case False
      with Inr Cons show ?thesis by simp
    next
      case True
      with Inr Cons.prems have "hits b a (msg_topic m)" by (simp add: hits_iff)
      then have good: "good_delivery (statics ?b1) a ?d"
        by (intro evolves_good [OF evolves_mint] hits_good) simp_all
      obtain r b2 where r: "enqueue a ?d ?b1 = (r, b2)" by fastforce
      have core2: "core_inv b2"
        using core_enqueue [OF core_drawn [OF Cons.prems(1)] good] r
        by (simp add: make_delivery_def minted_drawn)
      have ev: "evolves b b2"
        using evolves_trans [OF evolves_mint evolves_enqueue [of ?b1 a ?d]] r by simp
      then have a: "a < length (bk_regs b2)" using evolves_length Cons.prems(2) by fastforce
      from Cons.IH [OF core2 a] ev core2 r Inr True show ?thesis
        by (cases r) (auto simp: mint_def Let_def intro: evolves_trans)
    qed
  qed
qed

lemma enqueue_each_safe:
  "core_inv b \<Longrightarrow> \<forall>d\<in>set ds. good_delivery (statics b) a d \<and> dl_id d \<in> minted b \<Longrightarrow>
   core_inv (snd (enqueue_each a ds b)) \<and> evolves b (snd (enqueue_each a ds b))"
proof (induction ds arbitrary: b)
  case Nil
  then show ?case by simp
next
  case (Cons d ds)
  obtain r b1 where r: "enqueue a d b = (r, b1)" by fastforce
  have 1: "core_inv b1" "evolves b b1"
    using core_enqueue [of b a d] evolves_enqueue [of b a d] Cons.prems r by simp_all
  have "\<forall>d\<in>set ds. good_delivery (statics b1) a d \<and> dl_id d \<in> minted b1"
    using Cons.prems(2) evolves_good [OF 1(2)] evolves_minted [OF 1(2)] by auto
  with Cons.IH [OF 1(1)] 1 r show ?case by (cases r) (auto intro: evolves_trans)
qed

lemma set_replaying_safe:
  assumes "core_inv b" "a < length (bk_regs b)"
  shows "core_inv (set_replaying a v b) \<and> evolves b (set_replaying a v b)"
proof -
  have "core_inv (set_replaying a v b)"
    unfolding set_replaying_def
    by (rule core_set_reg [OF assms]) (use core_bufferD [OF assms] in \<open>simp_all add: buffer_good_def\<close>)
  then show ?thesis by (simp add: set_replaying_def evolves_set_reg reg_static_def)
qed

lemma clear_buffer_safe:
  assumes "core_inv b" "a < length (bk_regs b)"
  shows "core_inv (clear_buffer a b) \<and> evolves b (clear_buffer a b)"
proof -
  have "core_inv (clear_buffer a b)"
    unfolding clear_buffer_def by (rule core_set_reg [OF assms]) (simp_all add: buffer_good_def)
  then show ?thesis by (simp add: clear_buffer_def evolves_set_reg reg_static_def)
qed

lemma replay_flush_safe:
  assumes "core_inv b" "a < length (bk_regs b)"
  shows "core_inv (snd (replay_flush a ms b)) \<and> evolves b (snd (replay_flush a ms b))"
proof -
  obtain r1 b1 where h: "replay_history a ms b = (r1, b1)" by fastforce
  have 1: "core_inv b1" "evolves b b1" using replay_history_safe [OF assms, of ms] h by simp_all
  have a1: "a < length (bk_regs b1)" using evolves_length [OF 1(2)] assms(2) by simp
  define b2 where "b2 = set_replaying a False b1"
  have 2: "core_inv b2" "evolves b1 b2" using set_replaying_safe [OF 1(1) a1] by (simp_all add: b2_def)
  have a2: "a < length (bk_regs b2)" using evolves_length [OF 2(2)] a1 by simp
  define ds where "ds = sort_key (\<lambda>d. msg_created_at (dl_message d)) (reg_buffer (bk_regs b2 ! a))"
  have "\<forall>d\<in>set ds. good_delivery (statics b2) a d \<and> dl_id d \<in> minted b2"
    using core_bufferD [OF 2(1) a2] by (simp add: ds_def buffer_good_def)
  then have 3: "core_inv (snd (enqueue_each a ds b2))" "evolves b2 (snd (enqueue_each a ds b2))"
    using enqueue_each_safe [OF 2(1)] by simp_all
  obtain r3 b3 where e: "enqueue_each a ds b2 = (r3, b3)" by fastforce
  have a3: "a < length (bk_regs b3)" using evolves_length [OF 3(2)] a2 e by simp
  have 4: "core_inv (clear_buffer a b3)" "evolves b3 (clear_buffer a b3)"
    using clear_buffer_safe [OF _ a3] 3(1) e by simp_all
  have ev3: "evolves b b3" using evolves_trans [OF 1(2) evolves_trans [OF 2(2) 3(2)]] e by simp
  show ?thesis
    using h e 1 3(1) 4(1) ev3 evolves_trans [OF ev3 4(2)]
    by (cases r1; cases r3) (simp_all add: replay_flush_def b2_def [symmetric] ds_def [symmetric] Let_def)
qed

lemma replay_read_safe:
  "core_inv b \<Longrightarrow> core_inv (snd (replay_read ts b)) \<and> evolves b (snd (replay_read ts b))"
  by (auto simp: replay_read_def evolves_def statics_def split: prod.split)

lemma subscribe_fail_safe:
  assumes "core_inv b"
  shows "core_inv (subscribe_fail a b) \<and> evolves b (subscribe_fail a b)"
proof -
  let ?s = "sub_id (reg_sub (bk_regs b ! a))"
  let ?b = "b\<lparr>bk_router := dict_pop ?s (bk_router b), bk_streams := dict_pop ?s (bk_streams b)\<rparr>"
  have eq: "subscribe_fail a b = ?b" by (simp add: subscribe_fail_def router_unregister_def Let_def)
  note parts = assms [unfolded core_inv_def]
  have "snd p < length (bk_regs b) \<and> fst (statics b ! snd p) = fst p \<and>
      \<not> st_closed (bk_stream_heap b ! snd p)" if "p \<in> set (dict_pop ?s (bk_router b))" for p
    using that set_dict_pop [of ?s "bk_router b"] parts by (auto simp: router_ok_def)
  moreover have st: "statics ?b = statics b" by (simp add: statics_def)
  ultimately have "router_ok ?b" using parts by (simp add: router_ok_def dict_wf_pop)
  moreover have "pend_ok ?b"
    using core_pend [OF assms] by (simp add: pend_ok_def registered_def dict_get_pop pending_of_def)
  ultimately have "core_inv ?b" using parts by (simp add: core_inv_def ok_congs [of ?b b])
  moreover have "evolves b ?b" by (simp add: evolves_def st)
  ultimately show ?thesis by (simp add: eq)
qed

lemma subscribe_replay_safe:
  assumes "core_inv b" "a < length (bk_regs b)"
  shows "core_inv (snd (subscribe_replay a history b)) \<and> evolves b (snd (subscribe_replay a history b))"
proof (cases history)
  case (Inl e)
  have 1: "core_inv (set_replaying a False b)" "evolves b (set_replaying a False b)"
    using set_replaying_safe [OF assms] by simp_all
  with subscribe_fail_safe [OF 1(1), of a] Inl show ?thesis
    by (auto simp: subscribe_replay_def intro: evolves_trans)
next
  case (Inr ms)
  obtain r b1 where r: "replay_flush a ms b = (r, b1)" by fastforce
  have 1: "core_inv b1" "evolves b b1" using replay_flush_safe [OF assms, of ms] r by simp_all
  with subscribe_fail_safe [OF 1(1), of a] Inr r show ?thesis
    by (cases r) (auto simp: subscribe_replay_def intro: evolves_trans)
qed

section \<open>Acknowledgement and the stream\<close>

lemma ack_safe:
  assumes "core_inv b"
  shows "core_inv (snd (ack d b)) \<and> evolves b (snd (ack d b))"
  using core_inflight_pop [OF assms, of "dl_id d"]
  by (simp add: ack_def Let_def evolves_def statics_def frame_simps split: prod.split)

lemma good_delivery_unique:
  assumes "core_inv b" "good_delivery (statics b) a d" "router_get (bk_router b) (dl_sid d) = Some a'"
  shows "a' = a"
proof -
  have "(dl_sid d, a') \<in> set (bk_router b)" using assms(3) by (auto simp: router_get_def dest: map_of_SomeD)
  then have "a' < length (statics b)" "fst (statics b ! a') = dl_sid d"
    using core_routerD [OF assms(1)] by simp_all
  moreover have "a < length (statics b)" "fst (statics b ! a) = dl_sid d"
    using assms(2) by (simp_all add: good_delivery_def)
  moreover have "distinct (map fst (statics b))" using assms(1) by (simp add: core_inv_def sids_ok_def)
  ultimately show ?thesis by (metis length_map nth_eq_iff_index_eq nth_map)
qed

text \<open>A nack of a delivery of a live subscription goes to the retry engine, with its own queue.\<close>

lemma nack_live:
  assumes "core_inv b" "good_delivery (statics b) a d" "registered b (dl_sid d)"
  shows "nack d b = schedule a d (enter_retry (dl_sid d)
     (emit (OnNack (dl_sid d) (dl_attempt d)) (b\<lparr>bk_inflight := dict_pop (dl_id d) (bk_inflight b)\<rparr>)))"
proof -
  obtain a' where a': "router_get (bk_router b) (dl_sid d) = Some a'"
    using assms(3) by (auto simp: registered_def router_get_def)
  then have "a' = a" using good_delivery_unique [OF assms(1,2)] by simp
  moreover have "reg_queue (bk_regs b ! a) = a"
    using core_heapD(1) [OF assms(1)] good_delivery_sid [OF assms(2)] by simp
  ultimately show ?thesis using a' by (simp add: nack_def Let_def frame_simps)
qed

lemma nack_gone:
  "\<not> registered b (dl_sid d) \<Longrightarrow>
   nack d b = (Inr (), refresh_admission (emit (OnNack (dl_sid d) (dl_attempt d))
     (b\<lparr>bk_inflight := dict_pop (dl_id d) (bk_inflight b)\<rparr>)))"
  by (simp add: registered_def nack_def Let_def frame_simps router_get_def)

lemma nack_safe:
  assumes "core_inv b" "good_delivery (statics b) a d"
  shows "core_inv (snd (nack d b)) \<and> evolves b (snd (nack d b))"
proof -
  define b1 where "b1 = b\<lparr>bk_inflight := dict_pop (dl_id d) (bk_inflight b)\<rparr>"
  define b2 where "b2 = emit (OnNack (dl_sid d) (dl_attempt d)) b1"
  have core2: "core_inv b2" by (simp add: b2_def b1_def core_inflight_pop [OF assms(1)])
  have st2: "statics b2 = statics b" "bk_router b2 = bk_router b" "bk_regs b2 = bk_regs b"
    by (simp_all add: b2_def b1_def statics_def emit_def)
  have ev2: "evolves b b2" by (simp add: b2_def b1_def evolves_def statics_def emit_def)
  show ?thesis
  proof (cases "router_get (bk_router b2) (dl_sid d)")
    case None
    have "snd (nack d b) = refresh_admission b2"
      using None by (simp add: nack_def Let_def b1_def [symmetric] b2_def [symmetric])
    with core2 ev2 show ?thesis by (auto intro: evolves_trans)
  next
    case (Some a')
    then have "a' = a" using good_delivery_unique [OF assms] st2 by simp
    moreover have "reg_queue (bk_regs b2 ! a) = a"
      using core_heapD(1) [OF core2] good_delivery_sid [OF assms(2)] st2 by simp
    ultimately have eq: "nack d b = schedule a d (enter_retry (dl_sid d) b2)"
      using Some by (simp add: nack_def Let_def b1_def [symmetric] b2_def [symmetric])
    have "core_inv (snd (schedule a d (enter_retry (dl_sid d) b2)))"
      using core_park [OF core2] assms(2) st2 by simp
    moreover have "evolves b (snd (schedule a d (enter_retry (dl_sid d) b2)))"
      by (rule evolves_trans [OF ev2 evolves_trans [OF evolves_enter evolves_schedule]])
    ultimately show ?thesis by (simp add: eq)
  qed
qed

lemma unsubscribe_eq:
  "unsubscribe s b = drop_inflight s
     (b\<lparr>bk_router := dict_pop s (bk_router b), bk_streams := dict_pop s (bk_streams b)\<rparr>)"
  by (simp add: unsubscribe_def router_unregister_def Let_def)

lemma unsubscribe_safe:
  "core_inv b \<Longrightarrow> core_inv (unsubscribe s b) \<and> evolves b (unsubscribe s b)"
  by (simp add: unsubscribe_eq core_unregister_drop evolves_def frame_simps statics_def)

lemma stream_unsubscribe_safe:
  assumes "core_inv b" "a < length (bk_regs b)"
  shows "core_inv (stream_unsubscribe a b) \<and> evolves b (stream_unsubscribe a b)"
proof -
  let ?s = "sub_id (st_sub (bk_stream_heap b ! a))"
  have s: "?s = fst (statics b ! a)"
    using core_heapD [OF assms] assms(2) by (simp add: statics_nth reg_static_def)
  have 1: "core_inv (unsubscribe ?s b)" "evolves b (unsubscribe ?s b)"
    using unsubscribe_safe [OF assms(1)] by simp_all
  have "a \<notin> snd ` set (bk_router (unsubscribe ?s b))"
  proof
    assume "a \<in> snd ` set (bk_router (unsubscribe ?s b))"
    then obtain s' where "(s', a) \<in> set (dict_pop ?s (bk_router b))"
      by (auto simp: unsubscribe_eq frame_simps)
    then have "(s', a) \<in> set (bk_router b)" "s' \<noteq> ?s" by (auto simp: AList.delete_eq)
    with core_routerD [OF assms(1)] s show False by simp
  qed
  with 1 show ?thesis
    unfolding stream_unsubscribe_def
    by (auto intro: core_mark_closed evolves_trans [OF _ evolves_mark_closed])
qed

lemma stream_next_safe:
  assumes "core_inv b" "a < length (bk_regs b)" "stream_next a b = (r, b')"
  shows "core_inv b' \<and> evolves b b' \<and>
         (\<forall>d. r = Next d \<longrightarrow> good_delivery (statics b) a d \<and> dl_id d \<in> minted b)"
proof -
  have q: "st_queue (bk_stream_heap b ! a) = a" using core_heapD [OF assms(1,2)] by simp
  show ?thesis
  proof (cases "get_ready (bk_queues b ! a)")
    case None
    with assms show ?thesis by (auto simp: stream_next_def Let_def q split: if_splits)
  next
    case (Some p)
    obtain d v where p: "p = (d, v)" by (cases p)
    from queue_good_get [OF core_queueD [OF assms(1,2)] Some [unfolded p]]
    have v: "queue_good (statics b) (minted b) a v" "good_delivery (statics b) a d" "dl_id d \<in> minted b"
      by simp_all
    have "q_items (bk_queues b ! a) \<noteq> []" using Some p by (auto simp: get_ready_Some)
    then have "stream_next a b = (Next d, set_queue a v b)"
      by (simp add: stream_next_def Let_def q Some p)
    with core_set_queue [OF assms(1) v(1)] v(2,3) assms(3) show ?thesis by auto
  qed
qed

lemma register_topic_safe:
  "core_inv b \<Longrightarrow> core_inv (snd (register_topic t v b)) \<and> evolves b (snd (register_topic t v b))"
  by (auto simp: register_topic_def evolves_def statics_def split: prod.split)

lemma close_broker_safe:
  assumes "core_inv b"
  shows "core_inv (snd (close_broker b)) \<and> evolves b (snd (close_broker b))"
proof -
  have "core_inv (b\<lparr>bk_tasks := []\<rparr>)"
    by (rule core_tasks [OF assms]) (simp_all add: pending_of_nonneg [OF core_acct [OF assms]])
  then show ?thesis
    by (auto simp: close_broker_def Let_def evolves_def statics_def split: prod.split)
qed

end
