(* ===== verification/Broker_Gate.thy ===== *)
theory Broker_Gate
  imports Broker_Ops
begin

text \<open>
  Admission control: no operation leaves the gate closed while the backlog is below the
  watermark, so a producer parked on the gate is never forgotten.  Operations that lower the
  backlog or raise the watermark end in \<open>_refresh_admission\<close>; the others only raise it.
\<close>

lemma gate_refresh [simp]: "gate_ok (refresh_admission b)"
  by (auto simp: gate_ok_def refresh_admission_def below_watermark_def backlog_def watermark_def
      split: option.split)

lemma gate_mono:
  assumes "gate_ok b" "max_ok b" "bk_admit b' = bk_admit b" "bk_max_inflight b' = bk_max_inflight b"
    and "length (bk_router b') \<le> length (bk_router b)" "backlog b \<le> backlog b'"
  shows "gate_ok b'"
proof (cases "bk_max_inflight b")
  case None
  with assms(1,3,4) show ?thesis by (simp add: gate_ok_def below_watermark_def)
next
  case (Some n)
  with assms(2) have "0 \<le> n" by (simp add: max_ok_def)
  with assms(5) have "watermark n b' \<le> watermark n b"
    by (simp add: watermark_def active_count_def mult_left_mono)
  with assms Some show ?thesis by (auto simp: gate_ok_def below_watermark_def)
qed

lemma gate_frames [simp]:
  "gate_ok (b\<lparr>bk_dur := d\<rparr>) = gate_ok b" "gate_ok (b\<lparr>bk_events := es\<rparr>) = gate_ok b"
  "gate_ok (b\<lparr>bk_tasks := ts\<rparr>) = gate_ok b" "gate_ok (b\<lparr>bk_streams := ss\<rparr>) = gate_ok b"
  "gate_ok (b\<lparr>bk_drawn := n\<rparr>) = gate_ok b" "gate_ok (emit e b) = gate_ok b"
  "gate_ok (mark_closed a b) = gate_ok b" "gate_ok (set_queue q v b) = gate_ok b"
  "gate_ok (set_reg a r b) = gate_ok b" "gate_ok (set_replaying a f b) = gate_ok b"
  "gate_ok (clear_buffer a b) = gate_ok b"
  by (simp_all add: gate_ok_def below_watermark_def backlog_def watermark_def emit_def mark_closed_def
      set_queue_def set_reg_def set_replaying_def clear_buffer_def cong: option.case_cong)

lemma gate_drop_inflight [simp]: "gate_ok (drop_inflight s b)"
  by (simp add: drop_inflight_def Let_def)

lemma gate_disconnect [simp]: "gate_ok (disconnect s b)"
  by (simp add: disconnect_eq Let_def split: option.split)

lemma gate_on_exhausted [simp]: "gate_ok (on_exhausted s b)"
  by (simp add: on_exhausted_def)

lemma gate_schedule:
  assumes "gate_ok b"
  shows "gate_ok (snd (schedule q d b))"
proof (cases "schedule_decision (bk_policy b) q d")
  case (ToDlq e)
  have "gate_ok (snd (to_dlq e b))" using assms by (simp add: to_dlq_def split: prod.split)
  with ToDlq show ?thesis by (auto simp: schedule_def split: prod.split sum.split)
next
  case (Spawn t)
  with assms show ?thesis by (simp add: schedule_def)
qed

lemma backlog_enter_retry [simp]: "backlog (enter_retry s b) = backlog b + 1"
  by (simp add: backlog_def frame_simps)

lemma gate_enter_retry: "gate_ok b \<Longrightarrow> max_ok b \<Longrightarrow> gate_ok (enter_retry s b)"
  by (rule gate_mono [of b]) (simp_all add: frame_simps)

lemma backlog_record_inflight: "backlog b \<le> backlog (record_inflight d b)"
  by (simp add: backlog_def record_inflight_def length_dict_set)

lemma gate_record_inflight: "gate_ok b \<Longrightarrow> max_ok b \<Longrightarrow> gate_ok (record_inflight d b)"
  by (rule gate_mono [of b _ ]) (simp_all only: backlog_record_inflight, simp_all add: record_inflight_def)

lemma max_frames [simp]:
  "max_ok (b\<lparr>bk_dur := d\<rparr>) = max_ok b" "max_ok (b\<lparr>bk_drawn := n\<rparr>) = max_ok b"
  "max_ok (b\<lparr>bk_tasks := ts\<rparr>) = max_ok b" "max_ok (emit e b) = max_ok b"
  "max_ok (set_queue q v b) = max_ok b" "max_ok (set_reg a r b) = max_ok b"
  "max_ok (b\<lparr>bk_inflight := fl\<rparr>) = max_ok b" "max_ok (set_replaying a f b) = max_ok b"
  by (simp_all add: max_ok_def emit_def set_queue_def set_reg_def set_replaying_def)

lemma evolves_max: "evolves b b' \<Longrightarrow> max_ok b \<Longrightarrow> max_ok b'"
  by (simp add: evolves_def max_ok_def)

lemma gate_enqueue: "gate_ok b \<Longrightarrow> max_ok b \<Longrightarrow> gate_ok (snd (enqueue a d b))"
  by (auto simp: enqueue_def Let_def intro!: gate_schedule gate_enter_retry gate_record_inflight
      split: sum.split)

lemma gate_deliver: "gate_ok b \<Longrightarrow> max_ok b \<Longrightarrow> gate_ok (snd (deliver a m n b))"
  by (simp add: deliver_def mint_def Let_def gate_enqueue)

lemma evolves_deliver_max: "max_ok b \<Longrightarrow> max_ok (snd (deliver a m n b))"
  using evolves_max [OF evolves_enqueue, of "b\<lparr>bk_drawn := Suc (bk_drawn b)\<rparr>"]
  by (simp add: deliver_def mint_def Let_def)

lemma gate_deliver_each: "gate_ok b \<Longrightarrow> max_ok b \<Longrightarrow> gate_ok (snd (deliver_each as m b))"
proof (induction as arbitrary: b)
  case Nil
  then show ?case by simp
next
  case (Cons a as)
  with gate_deliver [of b a m 1] evolves_deliver_max [of b a m 1] show ?case
    by (auto split: prod.split sum.split)
qed

lemma gate_publish_store: "gate_ok b \<Longrightarrow> gate_ok (snd (publish_store m b))"
  by (simp add: publish_store_def split: prod.split)

lemma gate_publish_fanout: "gate_ok b \<Longrightarrow> max_ok b \<Longrightarrow> gate_ok (snd (publish_fanout m b))"
  using gate_deliver_each [of b _ m]
  by (simp add: publish_fanout_def split: prod.split sum.split) (metis snd_conv)

lemma gate_publish_begin: "gate_ok b \<Longrightarrow> gate_ok (snd (publish_begin t p e now b))"
  by (auto simp: publish_begin_def mint_def Let_def split: sum.split py_exn.split)

lemma gate_gate_pass: "gate_ok b \<Longrightarrow> gate_ok (snd (gate_pass b))"
  by (auto simp: gate_pass_def gate_ok_def below_watermark_def backlog_def watermark_def
      split: option.split)

lemma gate_subscribe_begin:
  "gate_ok b \<Longrightarrow> gate_ok (snd (subscribe_begin sel rp b))"
  by (auto simp: subscribe_begin_def mint_def Let_def split: sum.split replay_policy.split)

lemma gate_replay_history: "gate_ok b \<Longrightarrow> max_ok b \<Longrightarrow> gate_ok (snd (replay_history a ms b))"
proof (induction ms arbitrary: b)
  case Nil
  then show ?case by simp
next
  case (Cons m ms)
  let ?b1 = "b\<lparr>bk_drawn := Suc (bk_drawn b)\<rparr>"
  have "gate_ok (snd (enqueue a d ?b1))" "max_ok (snd (enqueue a d ?b1))" for d
    using Cons.prems gate_enqueue [of ?b1] evolves_max [OF evolves_enqueue, of ?b1] by simp_all
  with Cons show ?case
    by (auto simp: mint_def Let_def split: sum.split bool.split prod.split) (metis snd_conv)+
qed

lemma gate_enqueue_each: "gate_ok b \<Longrightarrow> max_ok b \<Longrightarrow> gate_ok (snd (enqueue_each a ds b))"
proof (induction ds arbitrary: b)
  case Nil
  then show ?case by simp
next
  case (Cons d ds)
  with gate_enqueue [of b a d] evolves_max [OF evolves_enqueue, of b a d] show ?case
    by (auto split: prod.split sum.split)
qed

lemma gate_subscribe_fail:
  assumes "gate_ok b" "max_ok b" "core_inv b"
  shows "gate_ok (subscribe_fail a b)"
  using assms by (intro gate_mono [OF assms(1,2)])
    (simp_all add: subscribe_fail_def Let_def router_unregister_def backlog_def AList.delete_eq
      length_filter_le)

lemma gate_subscribe_replay:
  assumes "gate_ok b" "max_ok b" "core_inv b" "a < length (bk_regs b)"
  shows "gate_ok (snd (subscribe_replay a history b))"
proof (cases history)
  case (Inl e)
  with assms set_replaying_safe [OF assms(3,4)] show ?thesis
    by (simp add: subscribe_replay_def gate_subscribe_fail)
next
  case (Inr ms)
  obtain r1 b1 where h: "replay_history a ms b = (r1, b1)" by fastforce
  have 1: "core_inv b1" "evolves b b1" "gate_ok b1"
    using replay_history_safe [OF assms(3,4), of ms] gate_replay_history [OF assms(1,2), of a ms] h
    by simp_all
  have m1: "max_ok b1" using evolves_max [OF 1(2) assms(2)] .
  define b2 where "b2 = set_replaying a False b1"
  define ds where "ds = sort_key (\<lambda>d. msg_created_at (dl_message d)) (reg_buffer (bk_regs b2 ! a))"
  have g3: "gate_ok (snd (enqueue_each a ds b2))"
    by (rule gate_enqueue_each) (simp_all add: b2_def 1(3) m1)
  have flush: "core_inv (snd (replay_flush a ms b))" "evolves b (snd (replay_flush a ms b))"
    using replay_flush_safe [OF assms(3,4), of ms] by simp_all
  have gf: "gate_ok (snd (replay_flush a ms b))"
    using h g3 1(3)
    by (auto simp: replay_flush_def Let_def b2_def [symmetric] ds_def [symmetric]
        split: sum.split prod.split)
  show ?thesis
    using Inr gf gate_subscribe_fail [OF gf evolves_max [OF flush(2) assms(2)] flush(1)]
    by (auto simp: subscribe_replay_def split: sum.split prod.split)
qed

lemma gate_ack: "gate_ok (snd (ack d b))"
  by (simp add: ack_def Let_def split: prod.split)

lemma gate_nack:
  assumes "gate_ok b" "max_ok b" "core_inv b"
  shows "gate_ok (snd (nack d b))"
proof -
  define b1 where "b1 = b\<lparr>bk_inflight := dict_pop (dl_id d) (bk_inflight b)\<rparr>"
  define b2 where "b2 = emit (OnNack (dl_sid d) (dl_attempt d)) b1"
  have "dict_wf (bk_inflight b)" using assms(3) by (simp add: core_inv_def flight_ok_def)
  then have "length (bk_inflight b) \<le> Suc (length (dict_pop (dl_id d) (bk_inflight b)))"
    by (cases "dl_id d \<in> dict_keys (bk_inflight b)")
      (simp_all add: length_dict_pop_present dict_pop_absent)
  then have "backlog b \<le> backlog (enter_retry (dl_sid d) b2)"
    by (simp add: b2_def b1_def) (simp add: backlog_def emit_def)
  then have "gate_ok (enter_retry (dl_sid d) b2)"
    by (intro gate_mono [OF assms(1,2)]) (simp_all add: frame_simps b2_def b1_def)
  then show ?thesis
    by (auto simp: nack_def Let_def b1_def [symmetric] b2_def [symmetric] gate_schedule
        split: option.split)
qed

lemma gate_unsubscribe [simp]: "gate_ok (unsubscribe s b)"
  by (simp add: unsubscribe_eq)

lemma gate_stream_unsubscribe [simp]: "gate_ok (stream_unsubscribe a b)"
  by (simp add: stream_unsubscribe_def)

lemma gate_stream_next: "gate_ok b \<Longrightarrow> gate_ok (snd (stream_next a b))"
  by (auto simp: stream_next_def Let_def split: option.split prod.split)

lemma gate_register_topic: "gate_ok b \<Longrightarrow> gate_ok (snd (register_topic t v b))"
  by (simp add: register_topic_def split: prod.split)

lemma gate_close_broker: "gate_ok b \<Longrightarrow> gate_ok (snd (close_broker b))"
  by (simp add: close_broker_def Let_def split: prod.split)

text \<open>
  A redelivered message moves from retry-limbo to inflight: with a fresh delivery id the
  backlog does not drop.
\<close>

lemma wake_drawn:
  assumes "i < length (bk_tasks b)" "backoff (bk_policy b) (rt_next_attempt (bk_tasks b ! i)) draw = Inr x"
  shows "bk_drawn (snd (wake_task i draw b)) \<ge> Suc (bk_drawn b) \<and>
         bk_draws (snd (wake_task i draw b)) = bk_draws b"
proof -
  define b2 where "b2 = b\<lparr>bk_tasks := take i (bk_tasks b) @ drop (Suc i) (bk_tasks b),
      bk_drawn := Suc (bk_drawn b)\<rparr>"
  have "bk_drawn b2 \<le> bk_drawn (snd (schedule q d b2))" "bk_draws (snd (schedule q d b2)) = bk_draws b2"
    for q d using evolves_schedule [of b2 q d] by (simp_all add: evolves_def)
  moreover have "bk_drawn b2 = Suc (bk_drawn b)" "bk_draws b2 = bk_draws b" by (simp_all add: b2_def)
  ultimately show ?thesis
    using assms(2)
    by (simp add: wake_task_def Let_def mint_def b2_def [symmetric] record_retried_def
        record_inflight_def frame_simps set_queue_def split: sum.split)
qed

lemma gate_wake_task:
  assumes "gate_ok b" "max_ok b" "core_inv b" "i < length (bk_tasks b)"
    and "no_collision (snd (wake_task i draw b))"
  shows "gate_ok (snd (wake_task i draw b))"
proof -
  define t where "t = bk_tasks b ! i"
  define b2 where "b2 = b\<lparr>bk_tasks := take i (bk_tasks b) @ drop (Suc i) (bk_tasks b),
      bk_drawn := Suc (bk_drawn b)\<rparr>"
  define did where "did = new_id (bk_draws b (bk_drawn b))"
  define retry where "retry = retried_delivery did t"
  have g2: "gate_ok b2" "max_ok b2" using assms(1,2) by (simp_all add: b2_def)
  show ?thesis
  proof (cases "backoff (bk_policy b) (rt_next_attempt t) draw")
    case (Inl e)
    with assms(1) show ?thesis by (simp add: wake_task_def t_def)
  next
    case (Inr x)
    have drawn: "Suc (bk_drawn b) \<le> bk_drawn (snd (wake_task i draw b))"
      "bk_draws (snd (wake_task i draw b)) = bk_draws b"
      using wake_drawn [OF assms(4)] Inr by (simp_all add: t_def)
    then have "inj_on (bk_draws b) {..<Suc (bk_drawn b)}"
      using assms(5) unfolding no_collision_def by (metis inj_on_subset lessThan_subset_iff)
    then have "did \<notin> minted b" unfolding did_def by (rule minted_fresh)
    then have fresh: "did \<notin> dict_keys (bk_inflight b)"
      using assms(3) by (auto simp: core_inv_def flight_ok_def flight_good_def)
    have "gate_ok (record_retried retry (set_queue q v b2))" for q v
    proof (rule gate_mono [of b2])
      let ?b3 = "leave_retry (dl_sid retry) (set_queue q v b2)"
      have "bk_inflight ?b3 = bk_inflight b" by (simp add: frame_simps set_queue_def b2_def)
      moreover have "bk_retry_pending_total b2 - 1 \<le> bk_retry_pending_total ?b3"
        using total_leave_retry [of "set_queue q v b2"] by (simp add: set_queue_def)
      ultimately show "backlog b2 \<le> backlog (record_retried retry (set_queue q v b2))"
        using fresh
        by (simp add: record_retried_def record_inflight_def backlog_def length_dict_set retry_def
            retried_delivery_def b2_def)
    qed (use g2 in \<open>simp_all add: record_retried_def record_inflight_def frame_simps set_queue_def\<close>)
    then show ?thesis
      using Inr gate_schedule [OF g2(1)]
      by (simp add: wake_task_def Let_def mint_def t_def [symmetric] b2_def [symmetric]
          did_def [symmetric] retry_def [symmetric] split: sum.split)
  qed
qed

end
