(* ===== verification/Broker_Sys.thy ===== *)
theory Broker_Sys
  imports Broker_Gate
begin

text \<open>
  The broker with everything that can run on its event loop: publishers waiting at the gate,
  appending or about to fan out, subscriptions reading history or about to flush it, the
  backoff tasks, and the consumers.  \<open>broker_step\<close> has one rule for each uninterrupted piece
  of a coroutine; any enabled piece may run next.  Two simplifications: a parked publisher may
  re-test the gate at any time (in the code, after the event was set), and \<open>to_dlq\<close> does not
  suspend, which holds for the in-memory and the null backend.
\<close>

record 'd sys =
  sy_broker :: "'d broker"
  sy_parked :: "message list"
  sy_storing :: "message list"
  sy_stored :: "message list"
  sy_reading :: "(nat \<times> timestamp) list"
  sy_flushing :: "(nat \<times> message list result) list"
  sy_handed :: "delivery list"

definition sys_init ::
    "'d backend \<Rightarrow> 'd \<Rightarrow> retry_policy \<Rightarrow> int option \<Rightarrow> (nat \<Rightarrow> 128 word) \<Rightarrow> 'd sys" where
  "sys_init be d policy mx draws =
     \<lparr>sy_broker = broker_init be d policy mx draws, sy_parked = [], sy_storing = [], sy_stored = [],
      sy_reading = [], sy_flushing = [], sy_handed = []\<rparr>"

definition with_broker :: "'d sys \<Rightarrow> 'd broker \<Rightarrow> 'd sys" where
  "with_broker s b = s\<lparr>sy_broker := b\<rparr>"

text \<open>A publisher that has its message reaches the gate.\<close>

definition at_gate :: "message \<Rightarrow> 'd sys \<Rightarrow> 'd sys" where
  "at_gate m s =
     (case gate_pass (sy_broker s) of
        (True, b) \<Rightarrow> s\<lparr>sy_broker := b, sy_storing := sy_storing s @ [m]\<rparr>
      | (False, b) \<Rightarrow> s\<lparr>sy_broker := b, sy_parked := sy_parked s @ [m]\<rparr>)"

inductive broker_step :: "'d sys \<Rightarrow> 'd sys \<Rightarrow> bool" where
  step_register_topic:
    "broker_step s (with_broker s (snd (register_topic t v (sy_broker s))))"
| step_publish_rejected:
    "publish_begin t p e now (sy_broker s) = (Inr (Inl r), b) \<Longrightarrow> broker_step s (with_broker s b)"
| step_publish:
    "publish_begin t p e now (sy_broker s) = (Inr (Inr m), b) \<Longrightarrow>
     broker_step s (at_gate m (with_broker s b))"
| step_unpark:
    "m \<in> set (sy_parked s) \<Longrightarrow>
     broker_step s (at_gate m (s\<lparr>sy_parked := remove1 m (sy_parked s)\<rparr>))"
| step_append:
    "m \<in> set (sy_storing s) \<Longrightarrow> publish_store m (sy_broker s) = (Inr u, b) \<Longrightarrow>
     broker_step s (s\<lparr>sy_broker := b, sy_storing := remove1 m (sy_storing s),
                      sy_stored := sy_stored s @ [m]\<rparr>)"
| step_append_fails:
    "m \<in> set (sy_storing s) \<Longrightarrow> publish_store m (sy_broker s) = (Inl x, b) \<Longrightarrow>
     broker_step s (s\<lparr>sy_broker := b, sy_storing := remove1 m (sy_storing s)\<rparr>)"
| step_fanout:
    "m \<in> set (sy_stored s) \<Longrightarrow>
     broker_step s (s\<lparr>sy_broker := snd (publish_fanout m (sy_broker s)),
                      sy_stored := remove1 m (sy_stored s)\<rparr>)"
| step_subscribe_fails:
    "subscribe_begin sel rp (sy_broker s) = (Inl x, b) \<Longrightarrow> broker_step s (with_broker s b)"
| step_subscribe_live:
    "subscribe_begin sel rp (sy_broker s) = (Inr a, b) \<Longrightarrow>
     (case rp of Some (FromUnixTimestamp _) \<Rightarrow> False | _ \<Rightarrow> True) \<Longrightarrow> broker_step s (with_broker s b)"
| step_subscribe_replay:
    "subscribe_begin sel (Some (FromUnixTimestamp ts)) (sy_broker s) = (Inr a, b) \<Longrightarrow>
     broker_step s (s\<lparr>sy_broker := b, sy_reading := sy_reading s @ [(a, ts)]\<rparr>)"
| step_read:
    "(a, ts) \<in> set (sy_reading s) \<Longrightarrow> replay_read ts (sy_broker s) = (h, b) \<Longrightarrow>
     broker_step s (s\<lparr>sy_broker := b, sy_reading := remove1 (a, ts) (sy_reading s),
                      sy_flushing := sy_flushing s @ [(a, h)]\<rparr>)"
| step_flush:
    "(a, h) \<in> set (sy_flushing s) \<Longrightarrow>
     broker_step s (s\<lparr>sy_broker := snd (subscribe_replay a h (sy_broker s)),
                      sy_flushing := remove1 (a, h) (sy_flushing s)\<rparr>)"
| step_wake:
    "i < length (bk_tasks (sy_broker s)) \<Longrightarrow>
     broker_step s (with_broker s (snd (wake_task i draw (sy_broker s))))"
| step_next:
    "a < length (bk_regs (sy_broker s)) \<Longrightarrow> stream_next a (sy_broker s) = (Next d, b) \<Longrightarrow>
     broker_step s (s\<lparr>sy_broker := b, sy_handed := sy_handed s @ [d]\<rparr>)"
| step_ack:
    "d \<in> set (sy_handed s) \<Longrightarrow> broker_step s (with_broker s (snd (ack d (sy_broker s))))"
| step_nack:
    "d \<in> set (sy_handed s) \<Longrightarrow> broker_step s (with_broker s (snd (nack d (sy_broker s))))"
| step_unsubscribe:
    "a < length (bk_regs (sy_broker s)) \<Longrightarrow>
     broker_step s (with_broker s (stream_unsubscribe a (sy_broker s)))"
| step_close:
    "broker_step s (with_broker s (snd (close_broker (sy_broker s))))"

inductive_cases broker_stepE: "broker_step s t"

text \<open>The environment assumption on \<open>random.getrandbits(128)\<close>: no two draws so far were equal.\<close>

definition collision_free_step :: "'d sys \<Rightarrow> 'd sys \<Rightarrow> bool" where
  "collision_free_step s t \<longleftrightarrow> broker_step s t \<and> no_collision (sy_broker t)"

definition sys_start :: "'d sys \<Rightarrow> bool" where
  "sys_start s \<longleftrightarrow>
     (\<exists>be d policy mx draws.
        s = sys_init be d policy mx draws \<and> (case mx of None \<Rightarrow> True | Some n \<Rightarrow> 0 \<le> n))"

definition handed_ok :: "'d sys \<Rightarrow> bool" where
  "handed_ok s \<longleftrightarrow> (\<forall>d\<in>set (sy_handed s). \<exists>a. good_delivery (statics (sy_broker s)) a d)"

definition pending_ok :: "'d sys \<Rightarrow> bool" where
  "pending_ok s \<longleftrightarrow>
     (\<forall>p\<in>set (sy_reading s). fst p < length (bk_regs (sy_broker s))) \<and>
     (\<forall>p\<in>set (sy_flushing s). fst p < length (bk_regs (sy_broker s)))"

definition sys_inv :: "'d sys \<Rightarrow> bool" where
  "sys_inv s \<longleftrightarrow>
     core_inv (sy_broker s) \<and> gate_ok (sy_broker s) \<and> max_ok (sy_broker s) \<and> handed_ok s \<and> pending_ok s"

lemma sys_inv_init: "sys_start s \<Longrightarrow> sys_inv s"
  by (auto simp: sys_start_def sys_init_def sys_inv_def handed_ok_def pending_ok_def core_inv_def ok_defs
      broker_init_def statics_def registered_def gate_ok_def max_ok_def)

text \<open>What a step has to establish: the broker's part, and references that stay valid.\<close>

lemma sys_invI:
  assumes "sys_inv s" "core_inv (sy_broker t)" "gate_ok (sy_broker t)"
    and "evolves (sy_broker s) (sy_broker t)"
    and "\<forall>d\<in>set (sy_handed t). d \<in> set (sy_handed s) \<or> (\<exists>a. good_delivery (statics (sy_broker s)) a d)"
    and "\<forall>p\<in>set (sy_reading t). p \<in> set (sy_reading s) \<or> fst p < length (bk_regs (sy_broker t))"
    and "\<forall>p\<in>set (sy_flushing t). p \<in> set (sy_flushing s) \<or> fst p < length (bk_regs (sy_broker t))"
  shows "sys_inv t \<and> evolves (sy_broker s) (sy_broker t)"
proof -
  have len: "length (bk_regs (sy_broker s)) \<le> length (bk_regs (sy_broker t))"
    using assms(4) by (rule evolves_length)
  have "handed_ok t"
    using assms(1,5) evolves_good [OF assms(4)] by (fastforce simp: sys_inv_def handed_ok_def)
  moreover have "pending_ok t"
    using assms(1,6,7) len by (fastforce simp: sys_inv_def pending_ok_def)
  ultimately show ?thesis
    using assms(1-4) evolves_max [OF assms(4)] by (simp add: sys_inv_def)
qed

lemma with_broker_sel [simp]:
  "sy_broker (with_broker s b) = b" "sy_parked (with_broker s b) = sy_parked s"
  "sy_storing (with_broker s b) = sy_storing s" "sy_stored (with_broker s b) = sy_stored s"
  "sy_reading (with_broker s b) = sy_reading s" "sy_flushing (with_broker s b) = sy_flushing s"
  "sy_handed (with_broker s b) = sy_handed s"
  by (simp_all add: with_broker_def)

lemma with_broker_inv:
  assumes "sys_inv s" "core_inv b" "gate_ok b" "evolves (sy_broker s) b"
  shows "sys_inv (with_broker s b) \<and> evolves (sy_broker s) (sy_broker (with_broker s b))"
  by (rule sys_invI [OF assms(1)]) (use assms in simp_all)

lemma at_gate_sel [simp]:
  "sy_broker (at_gate m s) = snd (gate_pass (sy_broker s))"
  "sy_reading (at_gate m s) = sy_reading s" "sy_flushing (at_gate m s) = sy_flushing s"
  "sy_handed (at_gate m s) = sy_handed s"
  by (simp_all add: at_gate_def split: prod.split bool.split)

lemma at_gate_inv:
  assumes "sys_inv s"
  shows "sys_inv (at_gate m s) \<and> evolves (sy_broker s) (sy_broker (at_gate m s))"
  by (rule sys_invI [OF assms])
    (use assms gate_pass_safe [of "sy_broker s"] gate_gate_pass [of "sy_broker s"] in
      \<open>simp_all add: sys_inv_def\<close>)

lemma sys_step:
  assumes "sys_inv s" "collision_free_step s t"
  shows "sys_inv t \<and> evolves (sy_broker s) (sy_broker t)"
proof -
  let ?b = "sy_broker s"
  have inv: "core_inv ?b" "gate_ok ?b" "max_ok ?b" using assms(1) by (simp_all add: sys_inv_def)
  have free: "no_collision (sy_broker t)" and "broker_step s t"
    using assms(2) by (simp_all add: collision_free_step_def)
  from \<open>broker_step s t\<close> show ?thesis
  proof cases
    case (step_register_topic t' v)
    with register_topic_safe [OF inv(1), of t' v] gate_register_topic [OF inv(2), of t' v] assms(1)
    show ?thesis by (simp add: with_broker_inv)
  next
    case (step_publish_rejected t' p e now r b)
    with publish_begin_safe [OF inv(1), of t' p e now] gate_publish_begin [OF inv(2), of t' p e now]
      assms(1)
    show ?thesis by (simp add: with_broker_inv)
  next
    case (step_publish t' p e now m b)
    with publish_begin_safe [OF inv(1), of t' p e now] gate_publish_begin [OF inv(2), of t' p e now]
      assms(1) at_gate_inv [of "with_broker s b" m]
    show ?thesis by (simp add: with_broker_inv) (metis evolves_trans)
  next
    case (step_unpark m)
    have "sys_inv (s\<lparr>sy_parked := remove1 m (sy_parked s)\<rparr>)"
      using assms(1) by (simp add: sys_inv_def handed_ok_def pending_ok_def)
    from at_gate_inv [OF this, of m] step_unpark show ?thesis by simp
  next
    case (step_append m u b)
    show ?thesis
      by (rule sys_invI [OF assms(1)])
        (use step_append publish_store_safe [OF inv(1), of m] gate_publish_store [OF inv(2), of m] in simp_all)
  next
    case (step_append_fails m x b)
    show ?thesis
      by (rule sys_invI [OF assms(1)])
        (use step_append_fails publish_store_safe [OF inv(1), of m] gate_publish_store [OF inv(2), of m] in simp_all)
  next
    case (step_fanout m)
    show ?thesis
      by (rule sys_invI [OF assms(1)])
        (use step_fanout publish_fanout_safe [OF inv(1), of m] gate_publish_fanout [OF inv(2,3), of m] in simp_all)
  next
    case (step_subscribe_fails sel rp x b)
    with subscribe_begin_safe [OF inv(1), of sel rp] gate_subscribe_begin [OF inv(2), of sel rp]
      assms(1) free
    show ?thesis by (simp add: with_broker_inv)
  next
    case (step_subscribe_live sel rp a b)
    with subscribe_begin_safe [OF inv(1), of sel rp] gate_subscribe_begin [OF inv(2), of sel rp]
      assms(1) free
    show ?thesis by (simp add: with_broker_inv)
  next
    case (step_subscribe_replay sel ts a b)
    show ?thesis
      by (rule sys_invI [OF assms(1)])
        (use step_subscribe_replay subscribe_begin_safe [OF inv(1), of sel "Some (FromUnixTimestamp ts)"]
          gate_subscribe_begin [OF inv(2), of sel "Some (FromUnixTimestamp ts)"] free in auto)
  next
    case (step_read a ts h b)
    have b: "b = ?b\<lparr>bk_dur := bk_dur b\<rparr>"
      using step_read(3) by (auto simp: replay_read_def split: prod.splits)
    have "gate_ok b" "length (bk_regs b) = length (bk_regs ?b)"
      by (subst b, use inv(2) in simp)+
    moreover have "fst (a, ts) < length (bk_regs ?b)"
      using step_read(2) assms(1) unfolding sys_inv_def pending_ok_def by blast
    ultimately show ?thesis
      by - (rule sys_invI [OF assms(1)],
        use step_read replay_read_safe [OF inv(1), of ts] in \<open>auto dest: set_remove1_subset [THEN subsetD]\<close>)
  next
    case (step_flush a h)
    have a: "fst (a, h) < length (bk_regs ?b)"
      using step_flush(2) assms(1) unfolding sys_inv_def pending_ok_def by blast
    show ?thesis
      by (rule sys_invI [OF assms(1)])
        (use a step_flush subscribe_replay_safe [OF inv(1), of a h]
          gate_subscribe_replay [OF inv(2,3,1), of a h] in \<open>auto dest: set_remove1_subset [THEN subsetD]\<close>)
  next
    case (step_wake i draw)
    with wake_task_safe [OF inv(1), of i draw] gate_wake_task [OF inv(2,3,1), of i draw] assms(1) free
    show ?thesis by (simp add: with_broker_inv)
  next
    case (step_next a d b)
    have "gate_ok b" using gate_stream_next [OF inv(2), of a] step_next(3) by simp
    show ?thesis
      by (rule sys_invI [OF assms(1)])
        (use \<open>gate_ok b\<close> step_next stream_next_safe [OF inv(1), of a "Next d" b] in auto)
  next
    case (step_ack d)
    with ack_safe [OF inv(1), of d] gate_ack [of d ?b] assms(1)
    show ?thesis by (simp add: with_broker_inv)
  next
    case (step_nack d)
    then obtain a where "good_delivery (statics ?b) a d"
      using assms(1) by (auto simp: sys_inv_def handed_ok_def)
    with step_nack nack_safe [OF inv(1), of a d] gate_nack [OF inv(2,3,1), of d] assms(1)
    show ?thesis by (simp add: with_broker_inv)
  next
    case (step_unsubscribe a)
    with stream_unsubscribe_safe [OF inv(1), of a] assms(1)
    show ?thesis by (simp add: with_broker_inv)
  next
    case step_close
    with close_broker_safe [OF inv(1)] gate_close_broker [OF inv(2)] assms(1)
    show ?thesis by (simp add: with_broker_inv)
  qed
qed

lemma sys_inv_step: "sys_inv s \<Longrightarrow> collision_free_step s t \<Longrightarrow> sys_inv t"
  using sys_step by blast

interpretation bsys: invariant_system sys_start collision_free_step sys_inv
  by unfold_locales (auto intro: sys_inv_init sys_inv_step)

abbreviation reachable_sys :: "'d sys \<Rightarrow> bool" where
  "reachable_sys \<equiv> reach sys_start collision_free_step"

lemmas reachable_sys_inv = bsys.reachable_inv

end
