(* ===== verification/Broker_Exec.thy ===== *)
theory Broker_Exec
  imports Broker_Sys
begin

text \<open>
  An executable scheduler for \<open>broker_step\<close>: an action names the rule, its parameters and the
  position of the coroutine that runs; \<open>drive\<close> runs a list of actions and refuses one that is
  not enabled or that would reuse an identifier.  What it reaches is reachable, so concrete
  schedules give reachable states.
\<close>

datatype action =
    ARegister string bool
  | APublish string mpval "(string, mpval) dict option" timestamp
  | AUnpark nat
  | AAppend nat
  | AFanout nat
  | ASubscribe string "replay_policy option"
  | ARead nat
  | AFlush nat
  | AWake nat real
  | ANext nat
  | AAck nat
  | ANack nat
  | AUnsubscribe nat
  | AClose

fun exec :: "action \<Rightarrow> 'd sys \<Rightarrow> 'd sys option" where
  "exec (ARegister t v) s = Some (with_broker s (snd (register_topic t v (sy_broker s))))"
| "exec (APublish t p e now) s =
     (case publish_begin t p e now (sy_broker s) of
        (Inl x, b) \<Rightarrow> None
      | (Inr (Inl r), b) \<Rightarrow> Some (with_broker s b)
      | (Inr (Inr m), b) \<Rightarrow> Some (at_gate m (with_broker s b)))"
| "exec (AUnpark i) s =
     (if i < length (sy_parked s)
      then let m = sy_parked s ! i
           in Some (at_gate m (s\<lparr>sy_parked := remove1 m (sy_parked s)\<rparr>))
      else None)"
| "exec (AAppend i) s =
     (if i < length (sy_storing s)
      then let m = sy_storing s ! i in
           (case publish_store m (sy_broker s) of
              (Inr u, b) \<Rightarrow> Some (s\<lparr>sy_broker := b, sy_storing := remove1 m (sy_storing s),
                                   sy_stored := sy_stored s @ [m]\<rparr>)
            | (Inl x, b) \<Rightarrow> Some (s\<lparr>sy_broker := b, sy_storing := remove1 m (sy_storing s)\<rparr>))
      else None)"
| "exec (AFanout i) s =
     (if i < length (sy_stored s)
      then let m = sy_stored s ! i
           in Some (s\<lparr>sy_broker := snd (publish_fanout m (sy_broker s)),
                      sy_stored := remove1 m (sy_stored s)\<rparr>)
      else None)"
| "exec (ASubscribe sel rp) s =
     (case subscribe_begin sel rp (sy_broker s) of
        (Inl x, b) \<Rightarrow> Some (with_broker s b)
      | (Inr a, b) \<Rightarrow>
          (case rp of
             Some (FromUnixTimestamp ts) \<Rightarrow>
               Some (s\<lparr>sy_broker := b, sy_reading := sy_reading s @ [(a, ts)]\<rparr>)
           | _ \<Rightarrow> Some (with_broker s b)))"
| "exec (ARead i) s =
     (if i < length (sy_reading s)
      then (case sy_reading s ! i of (a, ts) \<Rightarrow>
             (case replay_read ts (sy_broker s) of (h, b) \<Rightarrow>
               Some (s\<lparr>sy_broker := b, sy_reading := remove1 (a, ts) (sy_reading s),
                       sy_flushing := sy_flushing s @ [(a, h)]\<rparr>)))
      else None)"
| "exec (AFlush i) s =
     (if i < length (sy_flushing s)
      then (case sy_flushing s ! i of (a, h) \<Rightarrow>
             Some (s\<lparr>sy_broker := snd (subscribe_replay a h (sy_broker s)),
                     sy_flushing := remove1 (a, h) (sy_flushing s)\<rparr>))
      else None)"
| "exec (AWake i draw) s =
     (if i < length (bk_tasks (sy_broker s))
      then Some (with_broker s (snd (wake_task i draw (sy_broker s)))) else None)"
| "exec (ANext a) s =
     (if a < length (bk_regs (sy_broker s))
      then (case stream_next a (sy_broker s) of
              (Next d, b) \<Rightarrow> Some (s\<lparr>sy_broker := b, sy_handed := sy_handed s @ [d]\<rparr>)
            | _ \<Rightarrow> None)
      else None)"
| "exec (AAck i) s =
     (if i < length (sy_handed s)
      then Some (with_broker s (snd (ack (sy_handed s ! i) (sy_broker s)))) else None)"
| "exec (ANack i) s =
     (if i < length (sy_handed s)
      then Some (with_broker s (snd (nack (sy_handed s ! i) (sy_broker s)))) else None)"
| "exec (AUnsubscribe a) s =
     (if a < length (bk_regs (sy_broker s))
      then Some (with_broker s (stream_unsubscribe a (sy_broker s))) else None)"
| "exec AClose s = Some (with_broker s (snd (close_broker (sy_broker s))))"

lemma nth_eq_mem: "xs ! i = p \<Longrightarrow> i < length xs \<Longrightarrow> p \<in> set xs"
  by (metis nth_mem)

lemma exec_sound: "exec act s = Some t \<Longrightarrow> broker_step s t"
  by (cases act)
    (auto simp: Let_def intro: broker_step.intros dest: nth_eq_mem split: if_splits prod.splits sum.splits option.splits
      replay_policy.splits next_result.splits)

text \<open>The check that no identifier was drawn twice, over the draws made so far.\<close>

definition draws_distinct :: "'d broker \<Rightarrow> bool" where
  "draws_distinct b \<longleftrightarrow> distinct (map (bk_draws b) [0..<bk_drawn b])"

lemma draws_distinct: "draws_distinct b \<longleftrightarrow> no_collision b"
  by (auto simp: draws_distinct_def no_collision_def distinct_map atLeast0LessThan)

fun drive :: "action list \<Rightarrow> 'd sys \<Rightarrow> 'd sys option" where
  "drive [] s = Some s"
| "drive (act # acts) s =
     (case exec act s of
        None \<Rightarrow> None
      | Some t \<Rightarrow> if draws_distinct (sy_broker t) then drive acts t else None)"

lemma drive_reachable:
  "reachable_sys s \<Longrightarrow> drive acts s = Some t \<Longrightarrow> reachable_sys t"
proof (induction acts arbitrary: s)
  case Nil
  then show ?case by simp
next
  case (Cons act acts)
  then obtain u where u: "exec act s = Some u" "no_collision (sy_broker u)" "drive acts u = Some t"
    by (auto simp: draws_distinct split: option.splits if_splits)
  then have "collision_free_step s u"
    by (simp add: collision_free_step_def exec_sound)
  with Cons.prems(1) have "reachable_sys u" by (rule reach_step)
  with Cons.IH u(3) show ?case by blast
qed

text \<open>
  A broker over the in-memory backend whose \<open>n\<close>-th identifier is the number \<open>n\<close>, with a
  limit of one unacknowledged delivery for each subscriber, and the state a schedule leads to.
\<close>

definition demo_start :: "retry_policy \<Rightarrow> mem_store sys" where
  "demo_start policy = sys_init memory_backend mem_init policy (Some 1) (\<lambda>n. of_nat n)"

definition demo :: "retry_policy \<Rightarrow> action list \<Rightarrow> mem_store sys" where
  "demo policy acts = (case drive acts (demo_start policy) of Some s \<Rightarrow> s | None \<Rightarrow> demo_start policy)"

lemma demo_reachable: "reachable_sys (demo policy acts)"
proof -
  have "sys_start (demo_start policy)"
    unfolding sys_start_def demo_start_def by (intro exI conjI) (rule refl, simp)
  then have start: "reachable_sys (demo_start policy)" by (rule reach_init)
  then show ?thesis
    by (auto simp: demo_def split: option.split dest: drive_reachable)
qed

text \<open>A schedule keeps the backend and the policy it started with.\<close>

lemma drive_evolves:
  "sys_inv s \<Longrightarrow> drive acts s = Some t \<Longrightarrow> evolves (sy_broker s) (sy_broker t)"
proof (induction acts arbitrary: s)
  case Nil
  then show ?case by simp
next
  case (Cons act acts)
  then obtain u where u: "exec act s = Some u" "no_collision (sy_broker u)" "drive acts u = Some t"
    by (auto simp: draws_distinct split: option.splits if_splits)
  then have "collision_free_step s u"
    by (simp add: collision_free_step_def exec_sound)
  from sys_step [OF Cons.prems(1) this] Cons.IH [OF _ u(3)] show ?case
    using evolves_trans by blast
qed

lemma demo_static [simp]:
  "bk_backend (sy_broker (demo policy acts)) = memory_backend"
  "bk_policy (sy_broker (demo policy acts)) = policy"
proof -
  have "sys_start (demo_start policy)"
    unfolding sys_start_def demo_start_def by (intro exI conjI) (rule refl, simp)
  then have "sys_inv (demo_start policy)" by (rule sys_inv_init)
  then have "evolves (sy_broker (demo_start policy)) (sy_broker (demo policy acts))"
    by (auto simp: demo_def split: option.split dest: drive_evolves)
  then show "bk_backend (sy_broker (demo policy acts)) = memory_backend"
    "bk_policy (sy_broker (demo policy acts)) = policy"
    by (simp_all add: evolves_def demo_start_def sys_init_def broker_init_def)
qed

end
