(* ===== verification/Broker_Effects.thy ===== *)
theory Broker_Effects
  imports Broker_Ops
begin

text \<open>
  What the operations of the broker do to the subscribers' queues, buffers and registrations.
  An offer to a queue appends or, at the bound, leaves it alone; a fanout offers the message
  once to each target; a replay offers the matching history and then the sorted buffer.
  Evictions on the way never touch a queue, so these effects hold on every path.
\<close>

section \<open>One offer\<close>

definition offered :: "delivery \<Rightarrow> delivery aqueue \<Rightarrow> delivery aqueue" where
  "offered d q = (case put_nowait d q of Inl _ \<Rightarrow> q | Inr q' \<Rightarrow> q')"

lemma offered_eq:
  "offered d q =
     (if 0 < q_maxsize q \<and> q_maxsize q \<le> length (q_items q) then q
      else q\<lparr>q_items := q_items q @ [d]\<rparr>)"
  by (simp add: offered_def put_nowait_def)

lemma offered_maxsize [simp]: "q_maxsize (offered d q) = q_maxsize q"
  by (simp add: offered_eq)

text \<open>A registry event of \<open>schedule\<close>: queues, registrations and draws stay.\<close>

lemma on_exhausted_frame [frame_simps]:
  "bk_queues (on_exhausted s b) = bk_queues b" "bk_regs (on_exhausted s b) = bk_regs b"
  "bk_draws (on_exhausted s b) = bk_draws b" "bk_drawn (on_exhausted s b) = bk_drawn b"
  "bk_dur (on_exhausted s b) = bk_dur b" "bk_backend (on_exhausted s b) = bk_backend b"
  "bk_policy (on_exhausted s b) = bk_policy b" "bk_tasks (on_exhausted s b) = bk_tasks b"
  by (simp_all add: on_exhausted_def disconnect_def Let_def frame_simps router_unregister_def
      split: option.split)

lemma to_dlq_frame:
  "bk_queues (snd (to_dlq e b)) = bk_queues b" "bk_regs (snd (to_dlq e b)) = bk_regs b"
  "bk_draws (snd (to_dlq e b)) = bk_draws b" "bk_drawn (snd (to_dlq e b)) = bk_drawn b"
  "bk_tasks (snd (to_dlq e b)) = bk_tasks b" "bk_inflight (snd (to_dlq e b)) = bk_inflight b"
  "bk_router (snd (to_dlq e b)) = bk_router b" "bk_policy (snd (to_dlq e b)) = bk_policy b"
  by (simp_all add: to_dlq_def split: prod.split)

lemma schedule_frame:
  "bk_queues (snd (schedule q d b)) = bk_queues b" "bk_regs (snd (schedule q d b)) = bk_regs b"
  "bk_draws (snd (schedule q d b)) = bk_draws b" "bk_drawn (snd (schedule q d b)) = bk_drawn b"
  "bk_backend (snd (schedule q d b)) = bk_backend b"
  using to_dlq_frame [of "dlq_entry_of d (dl_attempt d + 1)" b]
    evolves_schedule [of b q d]
  by (auto simp: schedule_def schedule_decision_def Let_def frame_simps evolves_def
      split: prod.splits sum.splits if_splits schedule_decision.splits)

lemma enqueue_effect:
  assumes "core_inv b" "good_delivery (statics b) a d"
  shows "bk_queues (snd (enqueue a d b)) = (bk_queues b)[a := offered d (bk_queues b ! a)]"
    and "bk_regs (snd (enqueue a d b)) = bk_regs b"
  unfolding enqueue_eq [OF assms]
  by (simp_all add: Let_def offered_def schedule_frame frame_simps set_queue_def
      record_inflight_def split: sum.split)

lemma enqueue_drawn [simp]:
  "bk_drawn (snd (enqueue a d b)) = bk_drawn b" "bk_draws (snd (enqueue a d b)) = bk_draws b"
  by (simp_all add: enqueue_def Let_def schedule_frame frame_simps set_queue_def record_inflight_def
      split: sum.split)

section \<open>Fanout\<close>

text \<open>What delivering a message to one registration does to its queue and to its object.\<close>

definition receives :: "message \<Rightarrow> registration \<Rightarrow> delivery aqueue \<Rightarrow> registration \<Rightarrow> delivery aqueue \<Rightarrow> bool" where
  "receives m r q r' q' \<longleftrightarrow>
     (\<exists>did. if reg_replaying r
        then r' = r\<lparr>reg_buffer := reg_buffer r @ [make_delivery r m 1 did]\<rparr> \<and> q' = q
        else r' = r \<and> q' = offered (make_delivery r m 1 did) q)"

lemma receives_live:
  "receives m r q r' q' \<Longrightarrow> \<not> reg_replaying r \<Longrightarrow> 0 < q_maxsize q \<Longrightarrow>
   r' = r \<and> (\<exists>did. q_items q' =
      (if length (q_items q) < q_maxsize q then q_items q @ [make_delivery r m 1 did] else q_items q))"
  by (auto simp: receives_def offered_eq)

lemma receives_replaying:
  "receives m r q r' q' \<Longrightarrow> reg_replaying r \<Longrightarrow>
   q' = q \<and> (\<exists>did. r' = r\<lparr>reg_buffer := reg_buffer r @ [make_delivery r m 1 did]\<rparr>)"
  by (simp add: receives_def)

lemma deliver_effect:
  assumes "core_inv b" "hits b a (msg_topic m)"
  defines "b' \<equiv> snd (deliver a m 1 b)"
  shows "receives m (bk_regs b ! a) (bk_queues b ! a) (bk_regs b' ! a) (bk_queues b' ! a)"
    and "c \<noteq> a \<Longrightarrow> bk_regs b' ! c = bk_regs b ! c \<and> bk_queues b' ! c = bk_queues b ! c"
proof -
  let ?b1 = "b\<lparr>bk_drawn := Suc (bk_drawn b)\<rparr>" and ?did = "new_id (bk_draws b (bk_drawn b))"
  let ?r = "bk_regs b ! a"
  let ?d = "make_delivery ?r m 1 ?did"
  have a: "a < length (bk_regs b)" "length (bk_queues b) = length (bk_regs b)"
    using assms(2) core_heapD(6) [OF assms(1)] by (auto simp: hits_def)
  have good: "good_delivery (statics ?b1) a ?d"
    using hits_good [OF assms(2), of 1 ?did] by (simp add: statics_def)
  note eff = enqueue_effect [OF core_drawn [OF assms(1)] good]
  have "receives m ?r (bk_queues b ! a) (bk_regs b' ! a) (bk_queues b' ! a) \<and>
     (c \<noteq> a \<longrightarrow> bk_regs b' ! c = bk_regs b ! c \<and> bk_queues b' ! c = bk_queues b ! c)"
  proof (cases "reg_replaying ?r")
    case True
    then show ?thesis
      using a by (auto simp: b'_def deliver_def mint_def Let_def set_reg_def receives_def)
  next
    case False
    then have "b' = snd (enqueue a ?d ?b1)" by (simp add: b'_def deliver_def mint_def Let_def)
    with eff a False show ?thesis by (auto simp: receives_def)
  qed
  then show "receives m ?r (bk_queues b ! a) (bk_regs b' ! a) (bk_queues b' ! a)"
    and "c \<noteq> a \<Longrightarrow> bk_regs b' ! c = bk_regs b ! c \<and> bk_queues b' ! c = bk_queues b ! c"
    by blast+
qed

lemma deliver_each_effect:
  assumes "core_inv b" "\<forall>a\<in>set as. hits b a (msg_topic m)" "distinct as"
    and "deliver_each as m b = (Inr u, b')"
  shows "(c \<in> set as \<longrightarrow> receives m (bk_regs b ! c) (bk_queues b ! c) (bk_regs b' ! c) (bk_queues b' ! c)) \<and>
         (c \<notin> set as \<longrightarrow> bk_regs b' ! c = bk_regs b ! c \<and> bk_queues b' ! c = bk_queues b ! c)"
  using assms
proof (induction as arbitrary: b)
  case Nil
  then show ?case by simp
next
  case (Cons a as)
  then obtain v b1 where d: "deliver a m 1 b = (Inr v, b1)" and rest: "deliver_each as m b1 = (Inr u, b')"
    by (auto split: prod.splits sum.splits)
  have hit: "hits b a (msg_topic m)" using Cons.prems(2) by simp
  have 1: "core_inv b1" "evolves b b1"
    using deliver_safe [OF Cons.prems(1) hit, of 1] d by simp_all
  have "\<forall>a\<in>set as. hits b1 a (msg_topic m)"
    using Cons.prems(2) evolves_hits [OF 1(2)] by simp
  note IH = Cons.IH [OF 1(1) this _ rest]
  note eff = deliver_effect [OF Cons.prems(1) hit]
  show ?case
  proof (cases "c = a")
    case True
    with IH eff(1) Cons.prems(3) d show ?thesis by simp
  next
    case False
    with IH eff(2) [of c] Cons.prems(3) d show ?thesis by simp
  qed
qed

text \<open>The targets of a fanout: the live registrations whose pattern matches.\<close>

definition targets :: "'d broker \<Rightarrow> string list \<Rightarrow> nat set" where
  "targets b ts = {a \<in> snd ` set (bk_router b). subject_match (reg_tokens (bk_regs b ! a)) ts}"

lemma router_distinct_addresses:
  assumes "core_inv b"
  shows "distinct (map snd (bk_router b))"
proof -
  have "dict_wf (bk_router b)" using assms by (simp add: core_inv_def router_ok_def)
  then show ?thesis
    using router_addresses [OF assms]
    by (auto simp: distinct_map inj_on_def)
qed

lemma router_match_targets:
  assumes "core_inv b" "split_subject topic = Inr ts"
  shows "\<exists>as. router_match (bk_regs b) (bk_router b) topic = Inr as \<and> distinct as \<and> set as = targets b ts"
proof -
  have "\<forall>a\<in>snd ` set (bk_router b). wf_pattern (reg_tokens (bk_regs b ! a))"
    using core_routerD [OF assms(1)] core_heapD(5) [OF assms(1)] by fastforce
  from router_match_correct [OF assms(2) this]
  have "router_match (bk_regs b) (bk_router b) topic =
      Inr (filter (\<lambda>a. reg_matches (bk_regs b ! a) ts) (map snd (bk_router b)))" .
  with router_distinct_addresses [OF assms(1)] show ?thesis
    by (auto simp: targets_def reg_matches_def)
qed

lemma publish_fanout_effect:
  assumes "core_inv b" "split_subject (msg_topic m) = Inr ts" "publish_fanout m b = (Inr r, b')"
  shows "(c \<in> targets b ts \<longrightarrow> receives m (bk_regs b ! c) (bk_queues b ! c) (bk_regs b' ! c) (bk_queues b' ! c)) \<and>
         (c \<notin> targets b ts \<longrightarrow> bk_regs b' ! c = bk_regs b ! c \<and> bk_queues b' ! c = bk_queues b ! c)"
proof -
  obtain as where as: "router_match (bk_regs b) (bk_router b) (msg_topic m) = Inr as" "distinct as"
    "set as = targets b ts"
    using router_match_targets [OF assms(1,2)] by blast
  then obtain u b1 where d: "deliver_each as m b = (Inr u, b1)"
    and b': "b' = emit (OnPublish (msg_topic m) True None) b1"
    using assms(3) by (auto simp: publish_fanout_def split: prod.splits sum.splits)
  have "\<forall>a\<in>set as. hits b a (msg_topic m)"
    using router_match_hits [OF assms(1) as(1)] by blast
  from deliver_each_effect [OF assms(1) this as(2) d, of c] as(3) b' show ?thesis
    by (simp add: frame_simps)
qed

section \<open>Replay\<close>

text \<open>Offering a sequence to a bounded queue keeps as much of it as fits.\<close>

lemma fold_offered_items:
  assumes "0 < q_maxsize q" "length (q_items q) \<le> q_maxsize q"
  shows "q_items (fold offered ds q) = take (q_maxsize q) (q_items q @ ds)"
    and "q_maxsize (fold offered ds q) = q_maxsize q"
proof -
  have "q_items (fold offered ds q) = take (q_maxsize q) (q_items q @ ds) \<and>
        q_maxsize (fold offered ds q) = q_maxsize q"
    using assms
  proof (induction ds arbitrary: q)
    case Nil
    then show ?case by simp
  next
    case (Cons d ds)
    then show ?case
      using Cons.IH [of "offered d q"] by (cases "length (q_items q) = q_maxsize q") (auto simp: offered_eq)
  qed
  then show "q_items (fold offered ds q) = take (q_maxsize q) (q_items q @ ds)"
    and "q_maxsize (fold offered ds q) = q_maxsize q" by blast+
qed

lemma enqueue_each_effect:
  assumes "core_inv b" "a < length (bk_regs b)"
    and "\<forall>d\<in>set ds. good_delivery (statics b) a d \<and> dl_id d \<in> minted b"
    and "enqueue_each a ds b = (Inr u, b')"
  shows "bk_queues b' = (bk_queues b)[a := fold offered ds (bk_queues b ! a)] \<and> bk_regs b' = bk_regs b"
  using assms
proof (induction ds arbitrary: b)
  case Nil
  then show ?case by simp
next
  case (Cons d ds)
  then obtain v b1 where d: "enqueue a d b = (Inr v, b1)" and rest: "enqueue_each a ds b1 = (Inr u, b')"
    by (auto split: prod.splits sum.splits)
  have good: "good_delivery (statics b) a d" "dl_id d \<in> minted b" using Cons.prems(3) by simp_all
  have 1: "core_inv b1" "evolves b b1"
    using core_enqueue [OF Cons.prems(1) good] evolves_enqueue [of b a d] d by simp_all
  have "\<forall>d\<in>set ds. good_delivery (statics b1) a d \<and> dl_id d \<in> minted b1"
    using Cons.prems(3) evolves_good [OF 1(2)] evolves_minted [OF 1(2)] by auto
  moreover have "a < length (bk_regs b1)" using evolves_length [OF 1(2)] Cons.prems(2) by simp
  moreover have "bk_queues b1 = (bk_queues b)[a := offered d (bk_queues b ! a)]" "bk_regs b1 = bk_regs b"
    using enqueue_effect [OF Cons.prems(1) good(1)] d by simp_all
  ultimately show ?case
    using Cons.IH [OF 1(1) _ _ rest] Cons.prems(2) core_heapD(6) [OF Cons.prems(1,2)] by simp
qed

text \<open>The deliveries a replay makes of the history, up to their identifiers.\<close>

definition replay_hits :: "string list \<Rightarrow> message list \<Rightarrow> message list" where
  "replay_hits tokens ms = filter (\<lambda>m. matches_tokens tokens (msg_topic m) = Inr True) ms"

lemma replay_history_effect:
  assumes "core_inv b" "a < length (bk_regs b)" "replay_history a ms b = (Inr u, b')"
  shows "\<exists>ds. bk_queues b' = (bk_queues b)[a := fold offered ds (bk_queues b ! a)] \<and>
              bk_regs b' = bk_regs b \<and>
              map dl_message ds = replay_hits (reg_tokens (bk_regs b ! a)) ms \<and>
              (\<forall>d\<in>set ds. dl_attempt d = 1 \<and> dl_sid d = sub_id (reg_sub (bk_regs b ! a)))"
  using assms
proof (induction ms arbitrary: b)
  case Nil
  then show ?case by (intro exI [of _ "[]"]) (simp add: replay_hits_def)
next
  case (Cons m ms)
  then obtain hit where hit: "matches_tokens (reg_tokens (bk_regs b ! a)) (msg_topic m) = Inr hit"
    by (auto split: sum.splits)
  show ?case
  proof (cases hit)
    case False
    with Cons.prems hit Cons.IH [OF Cons.prems(1,2)] show ?thesis
      by (simp add: replay_hits_def)
  next
    case True
    let ?b1 = "b\<lparr>bk_drawn := Suc (bk_drawn b)\<rparr>" and ?did = "new_id (bk_draws b (bk_drawn b))"
    let ?d = "make_delivery (bk_regs b ! a) m 1 ?did"
    from Cons.prems(3) hit True obtain v b2 where d: "enqueue a ?d ?b1 = (Inr v, b2)"
      and rest: "replay_history a ms b2 = (Inr u, b')"
      by (auto simp: mint_def split: prod.splits sum.splits)
    have core: "core_inv ?b1" using Cons.prems(1) by (rule core_drawn)
    have good: "good_delivery (statics ?b1) a ?d"
      using hits_good [of b a m 1 ?did] Cons.prems(2) hit True by (simp add: hits_iff statics_def)
    have "dl_id ?d \<in> minted ?b1" by (simp add: make_delivery_def minted_drawn)
    then have core2: "core_inv b2" using core_enqueue [OF core good] d by simp
    have eff: "bk_queues b2 = (bk_queues b)[a := offered ?d (bk_queues b ! a)]" "bk_regs b2 = bk_regs b"
      using enqueue_effect [OF core good] d by simp_all
    from Cons.IH [OF core2 _ rest] eff Cons.prems(2) core_heapD(6) [OF Cons.prems(1,2)]
    obtain ds where "bk_queues b' = (bk_queues b)[a := fold offered ds (offered ?d (bk_queues b ! a))]"
      "bk_regs b' = bk_regs b" "map dl_message ds = replay_hits (reg_tokens (bk_regs b ! a)) ms"
      "\<forall>d\<in>set ds. dl_attempt d = 1 \<and> dl_sid d = sub_id (reg_sub (bk_regs b ! a))"
      by auto
    then show ?thesis
      using hit True by (intro exI [of _ "?d # ds"]) (auto simp: replay_hits_def make_delivery_def)
  qed
qed

abbreviation by_age :: "delivery list \<Rightarrow> delivery list" where
  "by_age \<equiv> sort_key (\<lambda>d. msg_created_at (dl_message d))"

lemma buffer_goodD:
  assumes "core_inv b" "a < length (bk_regs b)"
  shows "\<forall>d\<in>set (by_age (reg_buffer (bk_regs b ! a))). good_delivery (statics b) a d \<and> dl_id d \<in> minted b"
  using core_bufferD [OF assms] by (simp add: buffer_good_def)

lemma replay_flush_effect:
  assumes "core_inv b" "a < length (bk_regs b)" "replay_flush a ms b = (Inr u, b')"
  shows "\<exists>ds. bk_queues b' = (bk_queues b)[a :=
                fold offered (ds @ by_age (reg_buffer (bk_regs b ! a))) (bk_queues b ! a)] \<and>
              bk_regs b' = (bk_regs b)[a := (bk_regs b ! a)\<lparr>reg_replaying := False, reg_buffer := []\<rparr>] \<and>
              map dl_message ds = replay_hits (reg_tokens (bk_regs b ! a)) ms \<and>
              (\<forall>d\<in>set ds. dl_attempt d = 1 \<and> dl_sid d = sub_id (reg_sub (bk_regs b ! a)))"
proof -
  let ?buf = "by_age (reg_buffer (bk_regs b ! a))"
  obtain v b1 where h: "replay_history a ms b = (Inr v, b1)"
    using assms(3) by (auto simp: replay_flush_def split: prod.splits sum.splits)
  define b2 where "b2 = set_replaying a False b1"
  have 1: "core_inv b1" "evolves b b1" using replay_history_safe [OF assms(1,2), of ms] h by simp_all
  from replay_history_effect [OF assms(1,2) h] obtain ds where ds:
    "bk_queues b1 = (bk_queues b)[a := fold offered ds (bk_queues b ! a)]" "bk_regs b1 = bk_regs b"
    "map dl_message ds = replay_hits (reg_tokens (bk_regs b ! a)) ms"
    "\<forall>d\<in>set ds. dl_attempt d = 1 \<and> dl_sid d = sub_id (reg_sub (bk_regs b ! a))"
    by blast
  have a1: "a < length (bk_regs b1)" using assms(2) ds(2) by simp
  have 2: "core_inv b2" using set_replaying_safe [OF 1(1) a1] by (simp add: b2_def)
  have r2: "bk_regs b2 = (bk_regs b)[a := (bk_regs b ! a)\<lparr>reg_replaying := False\<rparr>]"
    "bk_queues b2 = bk_queues b1"
    by (simp_all add: b2_def set_replaying_def set_reg_def ds(2))
  obtain w b3 where e: "enqueue_each a ?buf b2 = (Inr w, b3)" and b': "b' = clear_buffer a b3"
    using assms(3) h a1 r2 ds(2)
    by (auto simp: replay_flush_def b2_def [symmetric] Let_def split: prod.splits sum.splits)
  have "a < length (bk_regs b2)" using assms(2) r2 by simp
  moreover from buffer_goodD [OF 2 this]
  have "\<forall>d\<in>set ?buf. good_delivery (statics b2) a d \<and> dl_id d \<in> minted b2"
    using assms(2) r2 by simp
  ultimately have "bk_queues b3 = (bk_queues b2)[a := fold offered ?buf (bk_queues b2 ! a)]"
    "bk_regs b3 = bk_regs b2"
    using enqueue_each_effect [OF 2 _ _ e] by simp_all
  with ds r2 assms(2) core_heapD(6) [OF assms(1,2)] show ?thesis
    by (intro exI [of _ ds]) (simp add: b' clear_buffer_def set_reg_def)
qed

section \<open>Tearing a subscription down\<close>

text \<open>
  What is left after a subscription is torn down: nothing under its id, and everything of the
  others - their registrations, inflight deliveries (in order) and retry counters.
\<close>

definition torn_down :: "string \<Rightarrow> 'd broker \<Rightarrow> 'd broker \<Rightarrow> bool" where
  "torn_down sid b b' \<longleftrightarrow>
     bk_router b' = dict_pop sid (bk_router b) \<and> bk_streams b' = dict_pop sid (bk_streams b) \<and>
     bk_inflight b' = filter (\<lambda>(k, d). dl_sid d \<noteq> sid) (bk_inflight b) \<and>
     bk_retry_pending b' = dict_pop sid (bk_retry_pending b) \<and>
     bk_queues b' = bk_queues b \<and> bk_regs b' = bk_regs b"

lemma torn_down_facts:
  assumes "torn_down sid b b'"
  shows "\<not> registered b' sid" "pending_of b' sid = 0"
    and "(k, d) \<in> set (bk_inflight b') \<Longrightarrow> dl_sid d \<noteq> sid"
    and "sid' \<noteq> sid \<Longrightarrow> registered b' sid' = registered b sid' \<and> pending_of b' sid' = pending_of b sid'"
  using assms by (auto simp: torn_down_def registered_def pending_of_def dict_simps)

lemma torn_down_drop:
  assumes "dict_wf (bk_inflight b)"
  shows "torn_down s b (drop_inflight s
      (b\<lparr>bk_router := dict_pop s (bk_router b), bk_streams := dict_pop s (bk_streams b)\<rparr>))"
  using drop_inflight_fields [of "b\<lparr>bk_router := dict_pop s (bk_router b), bk_streams := dict_pop s (bk_streams b)\<rparr>" s] assms
  by (simp add: torn_down_def frame_simps)

lemma torn_down_mark_closed: "torn_down s b b' \<Longrightarrow> torn_down s b (mark_closed a b')"
  by (simp add: torn_down_def frame_simps mark_closed_def)

lemma core_flight_wf: "core_inv b \<Longrightarrow> dict_wf (bk_inflight b)"
  by (simp add: core_inv_def flight_ok_def)

lemma torn_down_unsubscribe: "core_inv b \<Longrightarrow> torn_down s b (unsubscribe s b)"
  by (simp add: unsubscribe_eq torn_down_drop core_flight_wf)

lemma torn_down_disconnect: "core_inv b \<Longrightarrow> torn_down s b (disconnect s b)"
  using torn_down_drop [OF core_flight_wf, of b s]
  by (auto simp: disconnect_eq Let_def torn_down_mark_closed split: option.split)

lemma torn_down_emit: "torn_down s (emit e b) b' = torn_down s b b'"
  by (simp add: torn_down_def frame_simps)

lemma torn_down_on_exhausted: "core_inv b \<Longrightarrow> torn_down s b (on_exhausted s b)"
  using torn_down_disconnect [of "emit (OnRetryExhausted s) b" s]
  by (simp add: on_exhausted_def torn_down_emit)

lemma disconnect_closes:
  assumes "core_inv b" "dict_get (bk_router b) s = Some a"
  shows "st_closed (bk_stream_heap (disconnect s b) ! a)"
proof -
  have "dict_get (bk_streams b) s = Some a" using assms by (simp add: core_inv_def router_ok_def)
  moreover have "a < length (bk_stream_heap b)"
    using core_routerD [OF assms(1) map_of_SomeD [OF assms(2)]] core_heapD(7) [OF assms(1), of a] by simp
  ultimately show ?thesis by (simp add: disconnect_eq Let_def mark_closed_def frame_simps)
qed

lemma on_exhausted_closes:
  "core_inv b \<Longrightarrow> dict_get (bk_router b) s = Some a \<Longrightarrow> st_closed (bk_stream_heap (on_exhausted s b) ! a)"
  using disconnect_closes [of "emit (OnRetryExhausted s) b" s a] by (simp add: on_exhausted_def frame_simps)

text \<open>The budget is spent: a dead letter, then the eviction.\<close>

lemma schedule_exhausted:
  assumes "core_inv b" "rp_max_attempts (bk_policy b) \<le> dl_attempt d + 1" "schedule q d b = (Inr u, b')"
  shows "torn_down (dl_sid d) b b' \<and>
         be_to_dlq (bk_backend b) (dlq_entry_of d (dl_attempt d + 1)) (bk_dur b) = (Inr u, bk_dur b') \<and>
         (\<forall>a. dict_get (bk_router b) (dl_sid d) = Some a \<longrightarrow> st_closed (bk_stream_heap b' ! a))"
proof -
  obtain d' where d': "be_to_dlq (bk_backend b) (dlq_entry_of d (dl_attempt d + 1)) (bk_dur b) = (Inr u, d')"
    and b': "b' = on_exhausted (dl_sid d) (b\<lparr>bk_dur := d'\<rparr>)"
    using assms(2,3) by (auto simp: schedule_def schedule_decision_def exhausted_def to_dlq_def Let_def
        split: prod.splits sum.splits)
  have "core_inv (b\<lparr>bk_dur := d'\<rparr>)" using assms(1) by simp
  from torn_down_on_exhausted [OF this, of "dl_sid d"] on_exhausted_closes [OF this, of "dl_sid d"] d'
  show ?thesis by (simp add: b' torn_down_def frame_simps)
qed

section \<open>Redelivery\<close>

text \<open>A backoff task of a subscription whose queue has room.\<close>

lemma wake_room:
  assumes "core_inv b" "i < length (bk_tasks b)"
    and "backoff (bk_policy b) (rt_next_attempt (bk_tasks b ! i)) draw = Inr delay"
    and "length (q_items (bk_queues b ! rt_queue (bk_tasks b ! i))) < DEFAULT_QUEUE_BOUND"
  defines "t \<equiv> bk_tasks b ! i"
  defines "retry \<equiv> retried_delivery (new_id (bk_draws b (bk_drawn b))) t"
  shows "wake_task i draw b = (Inr (), record_retried retry
     (set_queue (rt_queue t) (offered retry (bk_queues b ! rt_queue t))
        (b\<lparr>bk_tasks := take i (bk_tasks b) @ drop (Suc i) (bk_tasks b), bk_drawn := Suc (bk_drawn b)\<rparr>)))"
proof -
  have "task_good b t" using task_goodD [OF assms(1,2)] by (simp add: t_def)
  then have q: "rt_queue t < length (bk_regs b)" by (simp add: task_good_def good_delivery_def)
  have "q_maxsize (bk_queues b ! rt_queue t) = DEFAULT_QUEUE_BOUND"
    using core_queueD [OF assms(1) q] by (simp add: queue_good_def)
  then show ?thesis
    using assms(3,4)
    by (simp add: wake_task_def t_def [symmetric] Let_def mint_def retry_def put_nowait_def offered_eq)
qed

lemma fresh_not_inflight:
  assumes "core_inv b" "no_collision (b\<lparr>bk_drawn := Suc (bk_drawn b)\<rparr>)"
  shows "new_id (bk_draws b (bk_drawn b)) \<notin> dict_keys (bk_inflight b)"
proof -
  have "new_id (bk_draws b (bk_drawn b)) \<notin> minted b"
    using assms(2) by (intro minted_fresh) (simp add: no_collision_def)
  with assms(1) show ?thesis by (auto simp: core_inv_def flight_ok_def flight_good_def)
qed

lemma leave_retry_total:
  assumes "acct_ok b" "1 \<le> pending_of b s"
  shows "bk_retry_pending_total (leave_retry s b) = bk_retry_pending_total b - 1"
    and "pending_of (leave_retry s b) s = pending_of b s - 1"
  using assms pending_leave_retry [OF assms(1), of s s]
  by (auto simp: leave_retry_def pending_of_def split: option.splits)

lemma task_count_pos: "i < length ts \<Longrightarrow> 1 \<le> task_count (dl_sid (rt_delivery (ts ! i))) ts"
  by (auto simp: task_count_def Suc_le_eq length_greater_0_conv filter_empty_conv)

text \<open>For a live subscription the redelivery leaves the backlog as it was.\<close>

lemma wake_room_accounting:
  fixes ts :: "retry_task list" and v :: "delivery aqueue" and q :: nat
  assumes "core_inv b" "i < length (bk_tasks b)" "registered b (dl_sid (rt_delivery (bk_tasks b ! i)))"
    and "no_collision (b\<lparr>bk_drawn := Suc (bk_drawn b)\<rparr>)"
  defines "t \<equiv> bk_tasks b ! i"
  defines "retry \<equiv> retried_delivery (new_id (bk_draws b (bk_drawn b))) t"
  defines "b' \<equiv> record_retried retry (set_queue q v
        (b\<lparr>bk_tasks := ts, bk_drawn := Suc (bk_drawn b)\<rparr>))"
  shows "backlog b' = backlog b" "pending_of b' (dl_sid retry) = pending_of b (dl_sid retry) - 1"
    and "dict_get (bk_inflight b') (dl_id retry) = Some retry"
proof -
  have sid: "dl_sid retry = dl_sid (rt_delivery t)" and did: "dl_id retry = new_id (bk_draws b (bk_drawn b))"
    by (simp_all add: retry_def retried_delivery_def)
  let ?b2 = "set_queue q v (b\<lparr>bk_tasks := ts, bk_drawn := Suc (bk_drawn b)\<rparr>)"
  have acct: "acct_ok ?b2"
    using core_acct [OF assms(1)] by (simp add: acct_ok_def set_queue_def)
  have same: "pending_of ?b2 x = pending_of b x" for x by (simp add: pending_of_def set_queue_def)
  have "1 \<le> pending_of b (dl_sid retry)"
    using core_pend [OF assms(1,3)] task_count_pos [OF assms(2)] by (simp add: sid t_def)
  note leave = leave_retry_total [OF acct, of "dl_sid retry"]
  have "bk_inflight (leave_retry (dl_sid retry) ?b2) = bk_inflight b"
    by (simp add: frame_simps set_queue_def)
  moreover have "dl_id retry \<notin> dict_keys (bk_inflight b)"
    using fresh_not_inflight [OF assms(1,4)] by (simp add: did)
  ultimately show "backlog b' = backlog b" "dict_get (bk_inflight b') (dl_id retry) = Some retry"
    using leave(1) \<open>1 \<le> pending_of b (dl_sid retry)\<close> same
    by (simp_all add: b'_def record_retried_def record_inflight_def backlog_def length_dict_set dict_simps
        set_queue_def)
  show "pending_of b' (dl_sid retry) = pending_of b (dl_sid retry) - 1"
    using leave(2) \<open>1 \<le> pending_of b (dl_sid retry)\<close> same
    by (simp add: b'_def record_retried_def record_inflight_def pending_of_def)
qed

lemma torn_down_backlog:
  assumes "core_inv b" "torn_down s b b'" "bk_retry_pending_total b' = bk_retry_pending_total b - pending_of b s"
  shows "backlog b' = backlog b - int (length (filter (\<lambda>(k, d). dl_sid d = s) (bk_inflight b))) - pending_of b s"
proof -
  have "length (filter (\<lambda>(k, d). dl_sid d \<noteq> s) xs) + length (filter (\<lambda>(k, d). dl_sid d = s) xs) = length xs"
    for xs :: "(string, delivery) dict" by (induction xs) auto
  from this [of "bk_inflight b"] assms(2,3) show ?thesis by (simp add: torn_down_def backlog_def)
qed

lemma unsubscribe_total:
  "core_inv b \<Longrightarrow> bk_retry_pending_total (unsubscribe s b) = bk_retry_pending_total b - pending_of b s"
  using core_flight_wf [of b] by (simp add: unsubscribe_eq drop_inflight_fields pending_of_def)

section \<open>A new subscription\<close>

lemma new_registration_tokens:
  "tokens \<noteq> [] \<Longrightarrow> new_registration sub q (Some tokens) =
     \<lparr>reg_sub = sub, reg_queue = q, reg_tokens = tokens, reg_replaying = False, reg_buffer = []\<rparr>"
  by (cases tokens) (simp_all add: new_registration_def)

lemma list_update_last: "(xs @ [x])[length xs := y] = xs @ [y]"
  by simp

lemma subscribe_begin_new:
  assumes "subscribe_begin sel rp b = (Inr a, b')"
  defines "policy \<equiv> (case rp of None \<Rightarrow> FutureOnly | Some p \<Rightarrow> p)"
  defines "sid \<equiv> new_id (bk_draws b (bk_drawn b))"
  shows "\<exists>tokens. validate_pattern sel = Inr tokens \<and> a = length (bk_regs b) \<and>
           bk_regs b' = bk_regs b @
             [\<lparr>reg_sub = \<lparr>sub_id = sid, sub_selector = sel, sub_replay = policy\<rparr>, reg_queue = a,
               reg_tokens = tokens, reg_replaying = (policy \<noteq> FutureOnly), reg_buffer = []\<rparr>] \<and>
           bk_queues b' = bk_queues b @ [new_queue DEFAULT_QUEUE_BOUND] \<and>
           bk_router b' = dict_set sid a (bk_router b) \<and> bk_streams b' = dict_set sid a (bk_streams b) \<and>
           bk_inflight b' = bk_inflight b \<and> bk_dur b' = bk_dur b \<and> bk_backend b' = bk_backend b"
proof -
  obtain tokens where tokens: "validate_pattern sel = Inr tokens"
    using assms(1) by (auto simp: subscribe_begin_def split: sum.splits)
  then have ne: "tokens \<noteq> []" by (auto simp: validate_pattern_Inr dest: split_subject_not_Nil)
  show ?thesis
  proof (cases policy)
    case FutureOnly
    with assms(1) show ?thesis
      by (simp add: subscribe_begin_def tokens mint_def Let_def policy_def [symmetric] sid_def [symmetric]
          new_registration_tokens [OF ne] router_register_def) (auto simp: frame_simps)
  next
    case (FromUnixTimestamp ts)
    with assms(1) show ?thesis
      by (simp add: subscribe_begin_def tokens mint_def Let_def policy_def [symmetric] sid_def [symmetric]
          new_registration_tokens [OF ne] router_register_def set_reg_def) (auto simp: frame_simps)
  qed
qed

end
