(* ===== verification/Broker_Durable.thy ===== *)
theory Broker_Durable
  imports Broker_Effects
begin

text \<open>
  The broker as a client of the durability contract: over any backend that satisfies it, a
  fanout writes nothing but dead letters, an accepted publish of a replayable topic is in the
  history before any subscriber is offered it, and an ack is recorded.
\<close>

context durability_backend
begin

definition holds :: "'d broker \<Rightarrow> bool" where
  "holds b \<longleftrightarrow> bk_backend b = be \<and> inv (bk_dur b)"

text \<open>The history and the acks after an operation are those before it.\<close>

definition quiet :: "'d broker \<Rightarrow> 'd broker \<Rightarrow> bool" where
  "quiet b b' \<longleftrightarrow> holds b' \<and> retained (bk_dur b') = retained (bk_dur b) \<and> acked (bk_dur b') = acked (bk_dur b)"

lemma quiet_same [intro]:
  "holds b \<Longrightarrow> bk_dur b' = bk_dur b \<Longrightarrow> bk_backend b' = bk_backend b \<Longrightarrow> quiet b b'"
  by (simp add: quiet_def holds_def)

lemma quiet_trans [trans]: "quiet a b \<Longrightarrow> quiet b c \<Longrightarrow> quiet a c"
  by (simp add: quiet_def)

lemma quiet_holds: "quiet b b' \<Longrightarrow> holds b'"
  by (simp add: quiet_def)

lemma quiet_to_dlq:
  assumes "holds b"
  shows "quiet b (snd (to_dlq e b))"
proof -
  obtain r d' where "be_to_dlq be e (bk_dur b) = (r, d')" by fastforce
  with dlq_frame [of "bk_dur b" e r d'] assms show ?thesis
    by (simp add: quiet_def holds_def to_dlq_def)
qed

lemma quiet_schedule:
  assumes "holds b"
  shows "quiet b (snd (schedule q d b))"
proof (cases "schedule_decision (bk_policy b) q d")
  case (ToDlq e)
  obtain r b1 where t: "to_dlq e b = (r, b1)" by fastforce
  have 1: "quiet b b1" using quiet_to_dlq [OF assms, of e] t by simp
  moreover have "quiet b1 (on_exhausted (dl_sid d) b1)"
    using quiet_holds [OF 1] by (rule quiet_same) (simp_all add: frame_simps)
  ultimately show ?thesis
    using ToDlq t quiet_trans [OF 1] by (cases r) (simp_all add: schedule_def)
next
  case (Spawn t)
  with assms show ?thesis by (auto simp: schedule_def)
qed

lemma quiet_enqueue:
  assumes "holds b"
  shows "quiet b (snd (enqueue a d b))"
proof -
  let ?b1 = "emit (OnDeliver (msg_topic (dl_message d)) (dl_sid d) (dl_attempt d)) b"
  let ?b2 = "enter_retry (sub_id (reg_sub (bk_regs b ! a))) ?b1"
  have 1: "quiet b ?b2" using assms by (rule quiet_same) (simp_all add: frame_simps)
  show ?thesis
  proof (cases "put_nowait d (bk_queues b ! reg_queue (bk_regs b ! a))")
    case (Inl e)
    with quiet_trans [OF 1 quiet_schedule [OF quiet_holds [OF 1]]] show ?thesis
      by (simp add: enqueue_def Let_def frame_simps)
  next
    case (Inr q')
    with assms show ?thesis
      by (auto simp: enqueue_def Let_def frame_simps record_inflight_def set_queue_def intro!: quiet_same)
  qed
qed

lemma quiet_deliver:
  assumes "holds b"
  shows "quiet b (snd (deliver a m n b))"
proof -
  have 1: "quiet b (b\<lparr>bk_drawn := Suc (bk_drawn b)\<rparr>)" using assms by (rule quiet_same) simp_all
  show ?thesis
    using quiet_trans [OF 1 quiet_enqueue [OF quiet_holds [OF 1]]] assms
    by (auto simp: deliver_def mint_def Let_def set_reg_def)
qed

lemma quiet_deliver_each: "holds b \<Longrightarrow> quiet b (snd (deliver_each as m b))"
proof (induction as arbitrary: b)
  case Nil
  then show ?case by auto
next
  case (Cons a as)
  obtain r b1 where d: "deliver a m 1 b = (r, b1)" by fastforce
  have 1: "quiet b b1" using quiet_deliver [OF Cons.prems, of a m 1] d by simp
  with quiet_trans [OF 1 Cons.IH [OF quiet_holds [OF 1]]] d show ?case
    by (cases r) simp_all
qed

lemma quiet_publish_fanout:
  assumes "holds b"
  shows "quiet b (snd (publish_fanout m b))"
proof (cases "router_match (bk_regs b) (bk_router b) (msg_topic m)")
  case (Inl e)
  with assms show ?thesis by (auto simp: publish_fanout_def)
next
  case (Inr as)
  obtain r b1 where d: "deliver_each as m b = (r, b1)" by fastforce
  have 1: "quiet b b1" using quiet_deliver_each [OF assms, of as m] d by simp
  have "quiet b1 (emit e b1)" for e
    using quiet_holds [OF 1] by (rule quiet_same) (simp_all add: frame_simps)
  with quiet_trans [OF 1] Inr d 1 show ?thesis
    by (cases r) (simp_all add: publish_fanout_def)
qed

lemma gate_pass_True: "gate_pass b = (True, b') \<Longrightarrow> b' = b \<and> below_watermark b"
  by (auto simp: gate_pass_def split: if_splits)

end

context retaining_backend
begin

text \<open>An accepted publish has appended its message; the fanout works on the state after that.\<close>

lemma publish_resume_retained:
  assumes "holds b" "storable m" "publish_resume m b = (Inr (Published r), b')"
  shows "retained (bk_dur b') = (if mode (bk_dur b) (msg_topic m) then retained (bk_dur b) @ [m]
                                 else retained (bk_dur b))"
proof -
  from assms(3) obtain u b1 where s: "publish_store m b = (Inr u, b1)"
    and f: "publish_fanout m b1 = (Inr r, b')"
    by (auto simp: publish_resume_def dest!: gate_pass_True split: prod.splits bool.splits sum.splits)
  then obtain d' where d': "be_append be m (bk_dur b) = (Inr u, d')" "b1 = b\<lparr>bk_dur := d'\<rparr>"
    using assms(1) by (auto simp: publish_store_def holds_def split: prod.splits)
  have i: "inv (bk_dur b)" using assms(1) by (simp add: holds_def)
  have h: "holds b1"
    using append_frame [OF i d'(1)] d'(2) assms(1) by (simp add: holds_def)
  have "retained (bk_dur b') = retained (bk_dur b1)"
    using quiet_publish_fanout [OF h, of m] f by (simp add: quiet_def)
  with append_ok [OF i assms(2) d'(1)] d'(2) show ?thesis by simp
qed

lemma publish_begin_dur:
  "publish_begin topic payload extras now b = (r, b') \<Longrightarrow>
   bk_dur b' = bk_dur b \<and> bk_backend b' = bk_backend b"
  by (auto simp: publish_begin_def mint_def Let_def frame_simps split: sum.splits py_exn.splits)

lemma publish_retained:
  assumes "holds b" "publish topic payload extras now b = (Inr (Published r), b')" "pr_accepted r"
    and "mode (bk_dur b) topic" "\<And>m. msg_payload m = payload \<Longrightarrow>
      msg_extras m = (case extras of None \<Rightarrow> [] | Some d \<Rightarrow> d) \<Longrightarrow> storable m"
  shows "\<exists>m. retained (bk_dur b') = retained (bk_dur b) @ [m] \<and> msg_topic m = topic \<and>
             msg_payload m = payload \<and> msg_created_at m = now \<and> pr_message_id r = Some (msg_id m)"
proof -
  obtain m b1 where p: "publish_begin topic payload extras now b = (Inr (Inr m), b1)"
    and res: "publish_resume m b1 = (Inr (Published r), b')"
    and m: "msg_topic m = topic" "msg_payload m = payload" "msg_created_at m = now"
      "msg_extras m = (case extras of None \<Rightarrow> [] | Some d \<Rightarrow> d)"
    using assms(2,3)
    by (auto simp: publish_def publish_begin_def publish_rejected_def mint_def Let_def
        split: prod.splits sum.splits py_exn.splits)
  have "holds b1" using assms(1) publish_begin_dur [OF p] by (simp add: holds_def)
  from publish_resume_retained [OF this assms(5) res] publish_begin_dur [OF p] assms(4) m
  have "retained (bk_dur b') = retained (bk_dur b) @ [m]" by simp
  moreover have "pr_message_id r = Some (msg_id m)"
    using res by (auto simp: publish_resume_def publish_fanout_def
        split: prod.splits bool.splits sum.splits)
  ultimately show ?thesis using m by blast
qed

lemma ack_recorded:
  assumes "holds b" "ack d b = (Inr u, b')"
  shows "acked (bk_dur b') = (acked (bk_dur b))(dl_sid d \<mapsto> msg_id (dl_message d))"
proof -
  obtain d' where d': "be_record_ack be (dl_sid d) (msg_id (dl_message d)) (bk_dur b) = (Inr u, d')"
    "bk_dur b' = d'"
    using assms by (auto simp: ack_def Let_def frame_simps holds_def split: prod.splits)
  with ack_ok [of "bk_dur b"] assms(1) show ?thesis by (simp add: holds_def)
qed

lemma exhausted_dead_letter:
  assumes "holds b" "storable (dl_message d)" "exhausted (bk_policy b) (dl_attempt d + 1)"
    and "schedule q d b = (Inr u, b')"
  shows "dead (bk_dur b') = dead (bk_dur b) @ [dlq_entry_of d (dl_attempt d + 1)]"
proof -
  let ?e = "dlq_entry_of d (dl_attempt d + 1)"
  obtain v d' where d': "be_to_dlq be ?e (bk_dur b) = (Inr v, d')" "bk_dur b' = d'"
    using assms by (auto simp: schedule_def schedule_decision_def to_dlq_def Let_def holds_def frame_simps
        split: prod.splits sum.splits)
  with dlq_ok [of "bk_dur b" ?e] assms(1,2) show ?thesis by (simp add: holds_def dlq_entry_of_def)
qed

end

end
