(* ===== verification/Broker_Props.thy ===== *)
theory Broker_Props
  imports Broker_Exec Broker_Durable
begin

text \<open>
  The properties of the broker over every reachable state of its event loop, and of the single
  operations in such states, on every branch.
\<close>

lemmas reachable_core = bsys.reachable_inv [unfolded sys_inv_def, THEN conjunct1]

lemma reachable_gate: "reachable_sys s \<Longrightarrow> gate_ok (sy_broker s) \<and> max_ok (sy_broker s)"
  using bsys.reachable_inv [of s] by (simp add: sys_inv_def)

lemma reachable_handed:
  "reachable_sys s \<Longrightarrow> d \<in> set (sy_handed s) \<Longrightarrow> \<exists>a. good_delivery (statics (sy_broker s)) a d"
  using bsys.reachable_inv [of s] by (simp add: sys_inv_def handed_ok_def)

section \<open>Publish\<close>

text \<open>
  C1. Fanout delivers exactly once, and only where it should: in any reachable state, when a
  message on a valid topic is fanned out, each live subscription whose pattern matches is
  offered one delivery of it with attempt 1 - at the end of its queue if there is room (never
  beyond the bound of 128), or at the end of its buffer while it replays - and the queue and
  the registration of every other subscription are left as they were.
\<close>

theorem fanout_exactly_once:
  assumes "reachable_sys s" "split_subject (msg_topic m) = Inr ts" "c < length (bk_regs (sy_broker s))"
    and "publish_fanout m (sy_broker s) = (Inr r, b')"
  defines "b \<equiv> sy_broker s"
  defines "reg \<equiv> bk_regs b ! c" and "q \<equiv> bk_queues b ! c"
  shows "(c \<in> targets b ts \<and> \<not> reg_replaying reg \<longrightarrow>
            bk_regs b' ! c = reg \<and>
            (\<exists>did. q_items (bk_queues b' ! c) =
               (if length (q_items q) < DEFAULT_QUEUE_BOUND
                then q_items q @ [make_delivery reg m 1 did] else q_items q))) \<and>
         (c \<in> targets b ts \<and> reg_replaying reg \<longrightarrow>
            bk_queues b' ! c = q \<and>
            (\<exists>did. bk_regs b' ! c = reg\<lparr>reg_buffer := reg_buffer reg @ [make_delivery reg m 1 did]\<rparr>)) \<and>
         (c \<notin> targets b ts \<longrightarrow> bk_queues b' ! c = q \<and> bk_regs b' ! c = reg)"
proof -
  have core: "core_inv b" using reachable_core [OF assms(1)] by (simp add: b_def)
  have q: "q_maxsize q = DEFAULT_QUEUE_BOUND" "0 < q_maxsize q"
    using core_queueD [OF core, of c] assms(3)
    by (simp_all add: b_def q_def queue_good_def DEFAULT_QUEUE_BOUND_def)
  note effect = publish_fanout_effect [OF core assms(2), of r b' c]
  have "c \<in> targets b ts \<Longrightarrow> receives m reg q (bk_regs b' ! c) (bk_queues b' ! c)"
    and "c \<notin> targets b ts \<Longrightarrow> bk_regs b' ! c = reg \<and> bk_queues b' ! c = q"
    using effect assms(4) by (simp_all add: b_def reg_def q_def)
  then show ?thesis
    using receives_live [of m reg q _ _] receives_replaying [of m reg q _ _] q by auto
qed

definition demo_message :: message where
  "demo_message = \<lparr>msg_id = ''m'', msg_topic = ''a.b'', msg_payload = MNone, msg_extras = [], msg_created_at = 5\<rparr>"

definition demo_live :: "mem_store sys" where
  "demo_live = demo default_retry_policy [ASubscribe ''a.*'' None]"

theorem fanout_exactly_once_witness:
  "\<exists>did. q_items (bk_queues (snd (publish_fanout demo_message (sy_broker demo_live))) ! 0) =
     [make_delivery (bk_regs (sy_broker demo_live) ! 0) demo_message 1 did]"
proof -
  have r: "reachable_sys demo_live" unfolding demo_live_def by (rule demo_reachable)
  have ts: "split_subject (msg_topic demo_message) = Inr [''a'', ''b'']" by code_simp
  have c: "0 < length (bk_regs (sy_broker demo_live))" by code_simp
  have "is_ok (fst (publish_fanout demo_message (sy_broker demo_live)))" by code_simp
  then obtain v b' where f: "publish_fanout demo_message (sy_broker demo_live) = (Inr v, b')"
    by (metis is_ok.elims(2) prod.collapse)
  have "map snd (bk_router (sy_broker demo_live)) = [0]" by code_simp
  then have a: "0 \<in> snd ` set (bk_router (sy_broker demo_live))"
    by (metis list.set_intros(1) list.set_map)
  have "reg_tokens (bk_regs (sy_broker demo_live) ! 0) = [''a'', ''*'']" by code_simp
  with a have t: "0 \<in> targets (sy_broker demo_live) [''a'', ''b'']"
    by (simp add: targets_def subject_match_Cons wildcard_defs)
  have e: "q_items (bk_queues (sy_broker demo_live) ! 0) = []"
    "\<not> reg_replaying (bk_regs (sy_broker demo_live) ! 0)" by code_simp+
  show ?thesis
    using fanout_exactly_once [OF r ts c f] t e f by (simp add: DEFAULT_QUEUE_BOUND_def)
qed

text \<open>
  C2. Durable before visible, in any state of a broker on the in-memory store, whichever appends its
  backend refuses: a publish of a valid topic appends its message - that topic, payload and time, and the
  id it drew - before anything else can be seen of it.  When the gate is shut it waits, and only the
  gate's event is changed; when the append is refused it raises that error, with every queue, buffer, inflight
  entry, counter, task and event as it was; and only after an append that returned does the
  fanout start, from the broker that already has the message.  On the backend as it is, a publish that
  is accepted on a topic registered as replayable had put exactly its message at the end of the
  retained history before the fanout began, the fanout added nothing to it, and the result
  carries the id of that message.
\<close>

theorem accepted_publish_is_retained:
  fixes b :: "mem_store broker"
  assumes "validate_subject topic = Inr ts" "mint b = (mid, b1)"
    and "m = \<lparr>msg_id = mid, msg_topic = topic, msg_payload = payload,
              msg_extras = (case extras of None \<Rightarrow> [] | Some d \<Rightarrow> d), msg_created_at = now\<rparr>"
    and "be_append (bk_backend b) m (bk_dur b) = (stored, d')"
    and "publish topic payload extras now b = (result, b')"
  shows "(if \<not> below_watermark b then result = Inr (Parked m) \<and> b' = b1\<lparr>bk_admit := False\<rparr>
          else case stored of
                 Inl e \<Rightarrow> result = Inl e \<and> b' = b1\<lparr>bk_dur := d'\<rparr>
               | Inr _ \<Rightarrow> (case publish_fanout m (b1\<lparr>bk_dur := d'\<rparr>) of
                    (Inl e, b2) \<Rightarrow> result = Inl e \<and> b' = b2
                  | (Inr r, b2) \<Rightarrow> result = Inr (Published r) \<and> b' = b2)) \<and>
         (\<forall>r. result = Inr (Published r) \<and> bk_backend b = memory_backend \<and> mem_mode (bk_dur b) topic \<longrightarrow>
            ms_history d' = ms_history (bk_dur b) @ [m] \<and> ms_history (bk_dur b') = ms_history d' \<and>
            pr_message_id r = Some (msg_id m))"
proof -
  have b1: "b1 = b\<lparr>bk_drawn := Suc (bk_drawn b)\<rparr>" using assms(2) by (simp add: mint_def)
  then have w: "below_watermark b1 = below_watermark b"
    by (cases "bk_max_inflight b") (simp_all add: below_watermark_def backlog_def watermark_def)
  have p: "(result, b') = publish_resume m b1"
    using assms(1-3,5) by (simp add: publish_def publish_begin_def)
  have order: "if \<not> below_watermark b then result = Inr (Parked m) \<and> b' = b1\<lparr>bk_admit := False\<rparr>
          else case stored of
                 Inl e \<Rightarrow> result = Inl e \<and> b' = b1\<lparr>bk_dur := d'\<rparr>
               | Inr _ \<Rightarrow> (case publish_fanout m (b1\<lparr>bk_dur := d'\<rparr>) of
                    (Inl e, b2) \<Rightarrow> result = Inl e \<and> b' = b2
                  | (Inr r, b2) \<Rightarrow> result = Inr (Published r) \<and> b' = b2)"
    using p assms(4) w by (auto simp: b1 publish_resume_def gate_pass_def publish_store_def split: prod.splits sum.splits)
  moreover have "ms_history d' = ms_history (bk_dur b) @ [m] \<and> ms_history (bk_dur b') = ms_history d' \<and>
      pr_message_id r = Some (msg_id m)"
    if r: "result = Inr (Published r)" and mem: "bk_backend b = memory_backend" "mem_mode (bk_dur b) topic" for r
  proof -
    have kept: "mem.holds b1" "bk_dur b1 = bk_dur b" using mem(1) by (simp_all add: mem.holds_def b1)
    obtain u where u: "stored = Inr u" and f: "publish_fanout m (b1\<lparr>bk_dur := d'\<rparr>) = (Inr r, b')"
      using order r
      by (cases "publish_fanout m (b1\<lparr>bk_dur := d'\<rparr>)"; cases "fst (publish_fanout m (b1\<lparr>bk_dur := d'\<rparr>))")
        (auto split: if_splits sum.splits)
    have "ms_history d' = ms_history (bk_dur b) @ [m]"
      using mem.append_ok [of m "bk_dur b" u d'] assms(3,4) mem u by simp
    moreover have "ms_history (bk_dur b') = ms_history (bk_dur b) @ [m]"
      using mem.publish_resume_retained [OF kept(1) _ p [unfolded r, symmetric]] kept(2) mem(2) assms(3) by simp
    moreover have "pr_message_id r = Some (msg_id m)"
      using f by (auto simp: publish_fanout_def split: prod.splits sum.splits)
    ultimately show ?thesis by simp
  qed
  ultimately show ?thesis by blast
qed

definition demo_replayable :: "mem_store sys" where
  "demo_replayable = demo default_retry_policy [ARegister ''a.b'' True, ASubscribe ''a.*'' None]"

text \<open>The same broker, with a store that refuses every append.\<close>

definition refusing :: "mem_store broker \<Rightarrow> mem_store broker" where
  "refusing b = b\<lparr>bk_backend := memory_backend\<lparr>be_append := \<lambda>m d. (Inl (BackendError ''disk full''), d)\<rparr>\<rparr>"

theorem accepted_publish_is_retained_witness:
  "\<exists>m. ms_history (bk_dur (snd (publish ''a.b'' MNone None 5 (sy_broker demo_replayable)))) = [m] \<and> msg_topic m = ''a.b'' \<and>
       bk_queues (snd (publish ''a.b'' MNone None 5 (refusing (sy_broker demo_replayable)))) = bk_queues (sy_broker demo_replayable)"
proof -
  let ?b = "sy_broker demo_replayable"
  have ts: "validate_subject ''a.b'' = Inr [''a'', ''b'']" by code_simp
  let ?m = "\<lambda>mid. \<lparr>msg_id = mid, msg_topic = ''a.b'', msg_payload = MNone,
      msg_extras = (case None of None \<Rightarrow> [] | Some d \<Rightarrow> d), msg_created_at = 5\<rparr>"
  obtain mid b1 where mt: "mint ?b = (mid, b1)" by fastforce
  obtain st d' where st: "be_append (bk_backend ?b) (?m mid) (bk_dur ?b) = (st, d')" by fastforce
  have "(case fst (publish ''a.b'' MNone None 5 ?b) of Inr (Published r) \<Rightarrow> pr_accepted r | _ \<Rightarrow> False)" by code_simp
  then obtain v b' where p: "publish ''a.b'' MNone None 5 ?b = (Inr (Published v), b')"
    by (cases "publish ''a.b'' MNone None 5 ?b") (auto split: sum.splits publish_outcome.splits)
  have mode: "mem_mode (bk_dur ?b) ''a.b''" and empty: "ms_history (bk_dur ?b) = []"
    and gate: "below_watermark (refusing ?b)" by code_simp+
  have "bk_backend ?b = memory_backend" by (simp add: demo_replayable_def)
  with accepted_publish_is_retained [OF ts mt refl st p] p mode empty
  have kept: "ms_history (bk_dur (snd (publish ''a.b'' MNone None 5 ?b))) = [?m mid]" by simp
  obtain mid2 b2 where mt2: "mint (refusing ?b) = (mid2, b2)" by fastforce
  obtain r3 b3 where p3: "publish ''a.b'' MNone None 5 (refusing ?b) = (r3, b3)" by fastforce
  have "be_append (bk_backend (refusing ?b)) (?m mid2) (bk_dur (refusing ?b)) = (Inl (BackendError ''disk full''), bk_dur ?b)"
    by (simp add: refusing_def)
  from accepted_publish_is_retained [OF ts mt2 refl this p3] gate
  have "b3 = b2\<lparr>bk_dur := bk_dur ?b\<rparr>" by simp
  moreover have "bk_queues b2 = bk_queues ?b" using mt2 by (auto simp: mint_def refusing_def)
  ultimately show ?thesis using kept p3 by (auto simp del: option.case)
qed

section \<open>Invariants of every reachable state\<close>

text \<open>
  C3. The backlog adds up: in every reachable state the running total of retry-limbo
  deliveries is the sum of the per-subscription counters, no counter that is present is below
  one, the counter of every live subscription covers all of its backoff tasks, and hence the
  backlog the gate tests is the number of inflight deliveries plus that sum, never negative.
\<close>

theorem backlog_adds_up:
  assumes "reachable_sys s"
  defines "b \<equiv> sy_broker s"
  shows "bk_retry_pending_total b = dict_total (bk_retry_pending b) \<and>
         backlog b = int (length (bk_inflight b)) + dict_total (bk_retry_pending b) \<and> 0 \<le> backlog b \<and>
         (\<forall>sid n. dict_get (bk_retry_pending b) sid = Some n \<longrightarrow> 1 \<le> n) \<and>
         (\<forall>sid. registered b sid \<longrightarrow> task_count sid (bk_tasks b) \<le> pending_of b sid)"
proof -
  have core: "core_inv b" using reachable_core [OF assms(1)] by (simp add: b_def)
  then have "acct_ok b" by (rule core_acct)
  then show ?thesis
    using backlog_nonneg [of b] acct_ok_pendingD [of b] core_pend [OF core]
    by (auto simp: acct_ok_def backlog_def)
qed

text \<open>A subscription with one delivery handed out, and the same after a nack.\<close>

definition demo_handed :: "mem_store sys" where
  "demo_handed = demo default_retry_policy
     [ASubscribe ''a.*'' None, APublish ''a.b'' (MInt 1) None 5, AAppend 0, AFanout 0, ANext 0]"

definition demo_nacked :: "mem_store sys" where
  "demo_nacked = demo default_retry_policy
     [ASubscribe ''a.*'' None, APublish ''a.b'' (MInt 1) None 5, AAppend 0, AFanout 0, ANext 0, ANack 0]"

lemma demo_reach:
  "reachable_sys demo_live" "reachable_sys demo_replayable" "reachable_sys demo_handed"
  "reachable_sys demo_nacked"
  by (simp_all only: demo_live_def demo_replayable_def demo_handed_def demo_nacked_def demo_reachable)

theorem backlog_adds_up_witness:
  "backlog (sy_broker demo_nacked) = 1 \<and> dict_total (bk_retry_pending (sy_broker demo_nacked)) = 1"
proof -
  have "length (bk_inflight (sy_broker demo_nacked)) = 0"
    "bk_retry_pending_total (sy_broker demo_nacked) = 1" by code_simp+
  with backlog_adds_up [OF demo_reach(4)] show ?thesis by simp
qed

text \<open>
  C4. No lost wakeup at the admission gate: in every reachable state either the gate's event
  is set or the backlog really is at or above the watermark, so a publisher never waits on a
  closed gate that the backlog no longer justifies.
\<close>

theorem gate_never_stuck:
  assumes "reachable_sys s"
  shows "bk_admit (sy_broker s) \<or> \<not> below_watermark (sy_broker s)"
  using reachable_gate [OF assms] by (simp add: gate_ok_def)

theorem gate_never_stuck_witness: "bk_admit (sy_broker demo_nacked)"
proof -
  have "bk_admit (sy_broker demo_nacked) \<or> \<not> below_watermark (sy_broker demo_nacked)"
    by (rule gate_never_stuck [OF demo_reach(4)])
  then show ?thesis by code_simp
qed

text \<open>
  C8. What a queue may hold: in every reachable state every subscriber's queue has at most 128
  deliveries, and each of them carries that subscription's id, an attempt number of at least
  one, and a message whose topic the subscription's selector matches.
\<close>

theorem queues_bounded_and_matching:
  assumes "reachable_sys s" "a < length (bk_regs (sy_broker s))"
  defines "b \<equiv> sy_broker s"
  shows "length (q_items (bk_queues b ! a)) \<le> DEFAULT_QUEUE_BOUND \<and>
         (\<forall>d\<in>set (q_items (bk_queues b ! a)).
            dl_sid d = sub_id (reg_sub (bk_regs b ! a)) \<and> 1 \<le> dl_attempt d \<and>
            matches (sub_selector (reg_sub (bk_regs b ! a))) (msg_topic (dl_message d)) = Inr True)"
proof -
  have core: "core_inv b" using reachable_core [OF assms(1)] by (simp add: b_def)
  note a = assms(2) [folded b_def]
  have q: "queue_good (statics b) (minted b) a (bk_queues b ! a)" by (rule core_queueD [OF core a])
  have "validate_pattern (sub_selector (reg_sub (bk_regs b ! a))) = Inr (reg_tokens (bk_regs b ! a))"
    using core_heapD(4,5) [OF core a] by (simp add: validate_pattern_Inr)
  then have "matches (sub_selector (reg_sub (bk_regs b ! a))) t = matches_tokens (reg_tokens (bk_regs b ! a)) t" for t
    by (simp add: matches_def)
  with q show ?thesis
    by (auto simp: queue_good_def good_delivery_def statics_nth reg_static_def)
qed

definition demo_queued :: "mem_store sys" where
  "demo_queued = demo default_retry_policy
     [ASubscribe ''a.*'' None, APublish ''a.b'' (MInt 1) None 5, AAppend 0, AFanout 0]"

lemma demo_queued_reach: "reachable_sys demo_queued"
  by (simp only: demo_queued_def demo_reachable)

theorem queues_bounded_and_matching_witness:
  "length (q_items (bk_queues (sy_broker demo_queued) ! 0)) = 1 \<and>
   matches ''a.*'' (msg_topic (dl_message (hd (q_items (bk_queues (sy_broker demo_queued) ! 0))))) = Inr True"
proof -
  have "0 < length (bk_regs (sy_broker demo_queued))"
    and n: "length (q_items (bk_queues (sy_broker demo_queued) ! 0)) = 1"
    and "sub_selector (reg_sub (bk_regs (sy_broker demo_queued) ! 0)) = ''a.*''" by code_simp+
  moreover have "hd (q_items (bk_queues (sy_broker demo_queued) ! 0)) \<in> set (q_items (bk_queues (sy_broker demo_queued) ! 0))"
    using n by (intro hd_in_set) auto
  ultimately show ?thesis using queues_bounded_and_matching [OF demo_queued_reach, of 0] by simp
qed

text \<open>
  C9. The registry is consistent: in every reachable state the router and the table of streams
  hold the same subscriptions, each under its own id and no two sharing a registration, and
  the stream of each is open.
\<close>

theorem registry_consistent:
  assumes "reachable_sys s"
  defines "b \<equiv> sy_broker s"
  shows "bk_streams b = bk_router b \<and> dict_wf (bk_router b) \<and> distinct (map snd (bk_router b)) \<and>
         (\<forall>sid a. dict_get (bk_router b) sid = Some a \<longrightarrow>
            a < length (bk_regs b) \<and> sub_id (reg_sub (bk_regs b ! a)) = sid \<and>
            st_sub (bk_stream_heap b ! a) = reg_sub (bk_regs b ! a) \<and>
            \<not> st_closed (bk_stream_heap b ! a))"
proof -
  have core: "core_inv b" using reachable_core [OF assms(1)] by (simp add: b_def)
  moreover have "a < length (bk_regs b) \<and> sub_id (reg_sub (bk_regs b ! a)) = sid \<and>
      st_sub (bk_stream_heap b ! a) = reg_sub (bk_regs b ! a) \<and> \<not> st_closed (bk_stream_heap b ! a)"
    if "dict_get (bk_router b) sid = Some a" for sid a
    using core_routerD [OF core map_of_SomeD [OF that]] core_heapD(3) [OF core, of a]
    by (auto simp: statics_nth reg_static_def)
  ultimately show ?thesis
    using router_distinct_addresses [OF core] by (simp add: core_inv_def router_ok_def)
qed

theorem registry_consistent_witness: "bk_streams (sy_broker demo_live) = bk_router (sy_broker demo_live)"
  using registry_consistent [OF demo_reach(1)] by simp

section \<open>Negative acknowledgement and retry\<close>

text \<open>
  C14. A nack within the budget moves the delivery to the retry engine and nothing else: in any
  reachable state, for a delivery that was handed out, is still inflight and belongs to a live
  subscription, the backlog - and with it the state of the gate - is unchanged, the delivery
  leaves the inflight table, the subscription's retry counter goes up by one, and one backoff
  task for the next attempt on the subscription's own queue is added; queues, router and
  history stay.
\<close>

theorem nack_moves_to_retry:
  assumes "reachable_sys s" "d \<in> set (sy_handed s)" "registered (sy_broker s) (dl_sid d)"
    and "dict_get (bk_inflight (sy_broker s)) (dl_id d) = Some d'"
    and "dl_attempt d + 1 < rp_max_attempts (bk_policy (sy_broker s))"
  defines "b \<equiv> sy_broker s"
  defines "b' \<equiv> snd (nack d b)"
  shows "fst (nack d b) = Inr () \<and> backlog b' = backlog b \<and> bk_admit b' = bk_admit b \<and>
         bk_inflight b' = dict_pop (dl_id d) (bk_inflight b) \<and>
         pending_of b' (dl_sid d) = pending_of b (dl_sid d) + 1 \<and>
         (\<exists>a. dict_get (bk_router b) (dl_sid d) = Some a \<and>
            bk_tasks b' = bk_tasks b @ [\<lparr>rt_queue = a, rt_delivery = d, rt_next_attempt = dl_attempt d + 1\<rparr>]) \<and>
         bk_router b' = bk_router b \<and> bk_queues b' = bk_queues b \<and> bk_dur b' = bk_dur b"
proof -
  have core: "core_inv b" using reachable_core [OF assms(1)] by (simp add: b_def)
  obtain a where good: "good_delivery (statics b) a d"
    using reachable_handed [OF assms(1,2)] by (auto simp: b_def)
  obtain a' where a': "dict_get (bk_router b) (dl_sid d) = Some a'"
    using assms(3) by (auto simp: registered_def b_def)
  then have "a' = a" using good_delivery_unique [OF core good] by (simp add: router_get_def)
  define b1 where "b1 = emit (OnNack (dl_sid d) (dl_attempt d)) (b\<lparr>bk_inflight := dict_pop (dl_id d) (bk_inflight b)\<rparr>)"
  have wf: "dict_wf (bk_inflight b)" using core by (simp add: core_inv_def flight_ok_def)
  have "dl_id d \<in> dict_keys (bk_inflight b)"
    using assms(4) dict_get_None_iff [of "bk_inflight b" "dl_id d"] by (auto simp: b_def)
  then have "length (bk_inflight b) = Suc (length (dict_pop (dl_id d) (bk_inflight b)))"
    using length_dict_pop_present [OF wf] by simp
  then have "backlog (enter_retry (dl_sid d) b1) = backlog b"
    by (simp add: b1_def backlog_def frame_simps)
  moreover have "nack d b = (Inr (), (enter_retry (dl_sid d) b1)\<lparr>bk_tasks :=
      bk_tasks b @ [\<lparr>rt_queue = a, rt_delivery = d, rt_next_attempt = dl_attempt d + 1\<rparr>]\<rparr>)"
    using nack_live [OF core good] assms(3,5)
    by (simp add: schedule_def schedule_decision_def exhausted_def Let_def b1_def frame_simps b_def)
  moreover have "pending_of b1 (dl_sid d) = pending_of b (dl_sid d)"
    by (simp add: b1_def pending_of_def frame_simps)
  ultimately show ?thesis
    using a' \<open>a' = a\<close> pending_enter_retry [of "dl_sid d" b1 "dl_sid d"]
    by (simp add: b'_def frame_simps backlog_def pending_of_def) (simp add: b1_def frame_simps)
qed

lemma demo_handed_one: "\<exists>d. sy_handed demo_handed = [d]"
proof -
  have "length (sy_handed demo_handed) = 1" by code_simp
  then show ?thesis by (simp add: length_Suc_conv)
qed

theorem nack_moves_to_retry_witness:
  "backlog (snd (nack (hd (sy_handed demo_handed)) (sy_broker demo_handed))) = backlog (sy_broker demo_handed)"
proof -
  let ?d = "hd (sy_handed demo_handed)"
  have d: "?d \<in> set (sy_handed demo_handed)" using demo_handed_one by auto
  have live: "registered (sy_broker demo_handed) (dl_sid ?d)"
    and attempts: "dl_attempt ?d = 1" by code_simp+
  have "\<not> Option.is_none (dict_get (bk_inflight (sy_broker demo_handed)) (dl_id ?d))" by code_simp
  then obtain d' where fl: "dict_get (bk_inflight (sy_broker demo_handed)) (dl_id ?d) = Some d'"
    by (auto simp: Option.is_none_def)
  have "dl_attempt ?d + 1 < rp_max_attempts (bk_policy (sy_broker demo_handed))"
    using attempts by (simp add: demo_handed_def default_retry_policy_def DEFAULT_MAX_ATTEMPTS_def)
  from nack_moves_to_retry [OF demo_reach(3) d live fl this] show ?thesis by simp
qed

text \<open>
  C15. A nack that spends the budget evicts: in any reachable state, when the last allowed
  attempt of a live subscription is nacked and the dead letter could be written, the message
  is in the dead-letter store with the next attempt number, and the subscription is torn down:
  it is out of the router and of the streams, its stream is closed, nothing of it is inflight
  and its retry counter is gone.  The other subscriptions keep their registration, counter and
  inflight deliveries, and no queue is touched, so what was queued can still be drained.
\<close>

theorem exhausted_nack_evicts:
  assumes "reachable_sys s" "d \<in> set (sy_handed s)"
    and "dict_get (bk_router (sy_broker s)) (dl_sid d) = Some a"
    and "rp_max_attempts (bk_policy (sy_broker s)) \<le> dl_attempt d + 1"
    and "nack d (sy_broker s) = (Inr u, b')"
  defines "b \<equiv> sy_broker s"
  shows "be_to_dlq (bk_backend b) (dlq_entry_of d (dl_attempt d + 1)) (bk_dur b) = (Inr u, bk_dur b') \<and>
         bk_router b' = dict_pop (dl_sid d) (bk_router b) \<and> bk_streams b' = dict_pop (dl_sid d) (bk_streams b) \<and>
         st_closed (bk_stream_heap b' ! a) \<and> pending_of b' (dl_sid d) = 0 \<and>
         (\<forall>sid. sid \<noteq> dl_sid d \<longrightarrow> pending_of b' sid = pending_of b sid) \<and>
         bk_inflight b' = filter (\<lambda>(k, e). dl_sid e \<noteq> dl_sid d) (dict_pop (dl_id d) (bk_inflight b)) \<and>
         bk_queues b' = bk_queues b \<and> bk_regs b' = bk_regs b"
proof -
  have core: "core_inv b" using reachable_core [OF assms(1)] by (simp add: b_def)
  obtain q where good: "good_delivery (statics b) q d"
    using reachable_handed [OF assms(1,2)] by (auto simp: b_def)
  define b1 where "b1 = enter_retry (dl_sid d)
    (emit (OnNack (dl_sid d) (dl_attempt d)) (b\<lparr>bk_inflight := dict_pop (dl_id d) (bk_inflight b)\<rparr>))"
  have core1: "core_inv b1"
    unfolding b1_def by (intro core_enter_retry) (simp add: core_inflight_pop [OF core])
  have "registered b (dl_sid d)" using assms(3) by (simp add: registered_def b_def)
  then have "schedule q d b1 = (Inr u, b')"
    using nack_live [OF core good] assms(5) by (simp add: b1_def b_def)
  moreover have same: "bk_policy b1 = bk_policy b" "bk_router b1 = bk_router b" "bk_streams b1 = bk_streams b"
    "bk_inflight b1 = dict_pop (dl_id d) (bk_inflight b)" "bk_queues b1 = bk_queues b"
    "bk_regs b1 = bk_regs b" "bk_backend b1 = bk_backend b" "bk_dur b1 = bk_dur b"
    by (simp_all add: b1_def frame_simps)
  ultimately have down: "torn_down (dl_sid d) b1 b'"
    and rest: "be_to_dlq (bk_backend b) (dlq_entry_of d (dl_attempt d + 1)) (bk_dur b) = (Inr u, bk_dur b')"
      "st_closed (bk_stream_heap b' ! a)"
    using schedule_exhausted [OF core1, of d q u b'] assms(3,4) by (simp_all add: b_def)
  have "pending_of b' sid = pending_of b sid" if "sid \<noteq> dl_sid d" for sid
    using torn_down_facts(4) [OF down that] that
    by (simp add: b1_def) (simp add: pending_of_def frame_simps)
  with down rest same torn_down_facts(2) [OF down] show ?thesis by (simp add: torn_down_def)
qed

definition demo_last :: "mem_store sys" where
  "demo_last = demo (default_retry_policy\<lparr>rp_max_attempts := 2\<rparr>)
     [ASubscribe ''a.*'' None, APublish ''a.b'' (MInt 1) None 5, AAppend 0, AFanout 0, ANext 0]"

lemma demo_last_reach: "reachable_sys demo_last"
  by (simp only: demo_last_def demo_reachable)

theorem exhausted_nack_evicts_witness:
  "bk_router (snd (nack (hd (sy_handed demo_last)) (sy_broker demo_last))) = []"
proof -
  let ?d = "hd (sy_handed demo_last)" and ?b = "sy_broker demo_last"
  have "length (sy_handed demo_last) = 1" by code_simp
  then have d: "?d \<in> set (sy_handed demo_last)" by (cases "sy_handed demo_last") auto
  have get: "dict_get (bk_router ?b) (dl_sid ?d) = Some 0" by code_simp
  have last: "rp_max_attempts (bk_policy ?b) \<le> dl_attempt ?d + 1" by code_simp
  have "is_ok (fst (nack ?d ?b))" by code_simp
  then obtain u b' where n: "nack ?d ?b = (Inr u, b')"
    by (metis is_ok.elims(2) prod.collapse)
  have "dict_pop (dl_sid ?d) (bk_router ?b) = []" by code_simp
  with exhausted_nack_evicts [OF demo_last_reach d get last n] n show ?thesis by simp
qed

text \<open>
  A redelivery that finds room: in any reachable state, when the backoff of a task of a
  live subscription is over and the queue is below its bound, the queue gets, at its end, a
  delivery of the same message under a fresh id with the attempt number raised by one; that
  delivery is inflight, the retry counter drops by one, the task is gone and the backlog is
  unchanged.
\<close>

theorem redelivery_raises_attempt:
  assumes "reachable_sys s" "i < length (bk_tasks (sy_broker s))"
    and "registered (sy_broker s) (dl_sid (rt_delivery (bk_tasks (sy_broker s) ! i)))"
    and "backoff (bk_policy (sy_broker s)) (rt_next_attempt (bk_tasks (sy_broker s) ! i)) draw = Inr delay"
    and "length (q_items (bk_queues (sy_broker s) ! rt_queue (bk_tasks (sy_broker s) ! i))) < DEFAULT_QUEUE_BOUND"
    and "no_collision (snd (wake_task i draw (sy_broker s)))"
  defines "b \<equiv> sy_broker s" and "t \<equiv> bk_tasks (sy_broker s) ! i"
  defines "b' \<equiv> snd (wake_task i draw b)"
  shows "\<exists>retry. q_items (bk_queues b' ! rt_queue t) = q_items (bk_queues b ! rt_queue t) @ [retry] \<and>
           dl_message retry = dl_message (rt_delivery t) \<and> dl_sid retry = dl_sid (rt_delivery t) \<and>
           dl_attempt retry = dl_attempt (rt_delivery t) + 1 \<and>
           dl_id retry \<notin> dict_keys (bk_inflight b) \<and>
           dict_get (bk_inflight b') (dl_id retry) = Some retry \<and>
           pending_of b' (dl_sid retry) = pending_of b (dl_sid retry) - 1 \<and>
           bk_tasks b' = take i (bk_tasks b) @ drop (Suc i) (bk_tasks b) \<and> backlog b' = backlog b"
proof -
  have core: "core_inv b" using reachable_core [OF assms(1)] by (simp add: b_def)
  have i: "i < length (bk_tasks b)" using assms(2) by (simp add: b_def)
  define retry where "retry = retried_delivery (new_id (bk_draws b (bk_drawn b))) t"
  define b2 where "b2 = b\<lparr>bk_tasks := take i (bk_tasks b) @ drop (Suc i) (bk_tasks b), bk_drawn := Suc (bk_drawn b)\<rparr>"
  have good: "task_good b t" using task_goodD [OF core i] by (simp add: t_def b_def)
  then have q: "rt_queue t < length (bk_regs b)" by (simp add: task_good_def good_delivery_def)
  then have q2: "rt_queue t < length (bk_queues b)" "q_maxsize (bk_queues b ! rt_queue t) = DEFAULT_QUEUE_BOUND"
    using core_heapD(6) [OF core] core_queueD [OF core q] by (simp_all add: queue_good_def)
  have eq: "b' = record_retried retry (set_queue (rt_queue t) (offered retry (bk_queues b ! rt_queue t)) b2)"
    using wake_room [OF core i, of draw delay] assms(4,5)
    by (simp add: b'_def b2_def retry_def t_def b_def)
  have "Suc (bk_drawn b) \<le> bk_drawn b'" "bk_draws b' = bk_draws b"
    using wake_drawn [OF i, of draw] assms(4) by (simp_all add: b'_def b_def)
  then have free: "no_collision (b\<lparr>bk_drawn := Suc (bk_drawn b)\<rparr>)"
    using assms(6) by (simp add: no_collision_def b'_def b_def)
      (metis inj_on_subset lessThan_subset_iff)
  have live: "registered b (dl_sid (rt_delivery (bk_tasks b ! i)))" using assms(3) by (simp add: b_def)
  have queue: "bk_queues b' = (bk_queues b)[rt_queue t := offered retry (bk_queues b ! rt_queue t)]"
    "bk_tasks b' = take i (bk_tasks b) @ drop (Suc i) (bk_tasks b)"
    by (simp_all add: eq record_retried_def record_inflight_def frame_simps set_queue_def b2_def)
  have "q_items (offered retry (bk_queues b ! rt_queue t)) = q_items (bk_queues b ! rt_queue t) @ [retry]"
    using q2(2) assms(5) by (simp add: offered_eq b_def t_def)
  moreover have "dl_id retry \<notin> dict_keys (bk_inflight b)"
    using fresh_not_inflight [OF core free] by (simp add: retry_def retried_delivery_def)
  moreover have "dl_message retry = dl_message (rt_delivery t)" "dl_sid retry = dl_sid (rt_delivery t)"
    "dl_attempt retry = dl_attempt (rt_delivery t) + 1"
    using good by (simp_all add: retry_def retried_delivery_def task_good_def)
  moreover note wake_room_accounting [OF core i live free, where q = "rt_queue t" and
      v = "offered retry (bk_queues b ! rt_queue t)" and
      ts = "take i (bk_tasks b) @ drop (Suc i) (bk_tasks b)",
      folded b2_def, folded t_def [folded b_def], folded retry_def, folded eq]
  ultimately show ?thesis
    using q2(1) queue by (intro exI [of _ retry]) simp
qed

theorem redelivery_raises_attempt_witness:
  "\<exists>retry. q_items (bk_queues (snd (wake_task 0 0 (sy_broker demo_nacked))) ! 0) = [retry] \<and> dl_attempt retry = 2"
proof -
  let ?b = "sy_broker demo_nacked"
  have i: "0 < length (bk_tasks ?b)"
    and live: "registered ?b (dl_sid (rt_delivery (bk_tasks ?b ! 0)))"
    and room: "length (q_items (bk_queues ?b ! rt_queue (bk_tasks ?b ! 0))) < DEFAULT_QUEUE_BOUND"
    and "draws_distinct (snd (wake_task 0 0 ?b))"
    and t: "rt_queue (bk_tasks ?b ! 0) = 0" "dl_attempt (rt_delivery (bk_tasks ?b ! 0)) = 1"
    and empty: "q_items (bk_queues ?b ! 0) = []"
    and nxt: "rt_next_attempt (bk_tasks ?b ! 0) = 2"
    by code_simp+
  then have free: "no_collision (snd (wake_task 0 0 ?b))" by (simp add: draws_distinct)
  have "backoff (bk_policy ?b) (rt_next_attempt (bk_tasks ?b ! 0)) 0 = Inr 0"
    by (simp add: nxt demo_nacked_def default_retry_policy_def backoff_def full_jitter_backoff_def
        scale_by_pow2_def DEFAULT_CAP_EXPONENT_def Let_def)
  from redelivery_raises_attempt [OF demo_reach(4) i live this room free] t empty
  show ?thesis by auto
qed

text \<open>
  C16. Unsubscribing forgets everything of the subscription and nothing else: in any reachable
  state, afterwards the subscription is out of the router and of the streams, its stream is
  closed, the backlog has dropped by exactly its inflight deliveries and its retry counter,
  the inflight deliveries of the others are kept in order, and the gate is open again whenever
  the smaller backlog allows it.
\<close>

theorem unsubscribe_forgets:
  assumes "reachable_sys s" "a < length (bk_regs (sy_broker s))"
  defines "b \<equiv> sy_broker s"
  defines "sid \<equiv> sub_id (reg_sub (bk_regs b ! a))" and "b' \<equiv> stream_unsubscribe a b"
  shows "bk_router b' = dict_pop sid (bk_router b) \<and> bk_streams b' = dict_pop sid (bk_streams b) \<and>
         st_closed (bk_stream_heap b' ! a) \<and>
         bk_inflight b' = filter (\<lambda>(k, d). dl_sid d \<noteq> sid) (bk_inflight b) \<and>
         bk_retry_pending b' = dict_pop sid (bk_retry_pending b) \<and>
         backlog b' = backlog b - int (length (filter (\<lambda>(k, d). dl_sid d = sid) (bk_inflight b)))
                        - pending_of b sid \<and>
         (below_watermark b' \<longrightarrow> bk_admit b')"
proof -
  have core: "core_inv b" using reachable_core [OF assms(1)] by (simp add: b_def)
  note a = assms(2) [folded b_def]
  have b': "b' = mark_closed a (unsubscribe sid b)"
    using core_heapD(3) [OF core a] by (simp add: b'_def sid_def stream_unsubscribe_def)
  have down: "torn_down sid b (unsubscribe sid b)" using core by (rule torn_down_unsubscribe)
  note backlog = torn_down_backlog [OF core down unsubscribe_total [OF core]]
  have "a < length (bk_stream_heap (unsubscribe sid b))"
    using a core_heapD(7) [OF core a] by (simp add: unsubscribe_eq frame_simps)
  then have "st_closed (bk_stream_heap b' ! a)" by (simp add: b' mark_closed_def)
  moreover have "backlog b' = backlog (unsubscribe sid b)" by (simp add: b' backlog_def frame_simps)
  moreover have "gate_ok b'" by (simp add: b')
  ultimately show ?thesis
    using down backlog by (auto simp: b' torn_down_def frame_simps gate_ok_def)
qed

theorem unsubscribe_forgets_witness: "backlog (stream_unsubscribe 0 (sy_broker demo_nacked)) = 0"
proof -
  let ?b = "sy_broker demo_nacked"
  have "0 < length (bk_regs ?b)" and "backlog ?b = 1"
    and "filter (\<lambda>(k, d). dl_sid d = sub_id (reg_sub (bk_regs ?b ! 0))) (bk_inflight ?b) = []"
    and "pending_of ?b (sub_id (reg_sub (bk_regs ?b ! 0))) = 1" by code_simp+
  with unsubscribe_forgets [OF demo_reach(4), of 0] show ?thesis by simp
qed

section \<open>Replay\<close>

text \<open>
  C17. The handoff from history to live: in any reachable state, when the flush of a replaying
  subscription succeeds, its queue holds what it held, then the history it read, restricted to
  the topics its pattern matches and in the order of the history, then the events buffered
  meanwhile, oldest first - cut off at the bound of 128 - and from then on the subscription is
  live with an empty buffer.  The queues of all others are untouched.
\<close>

theorem replay_hands_over:
  assumes "reachable_sys s" "(a, Inr ms) \<in> set (sy_flushing s)"
    and "subscribe_replay a (Inr ms) (sy_broker s) = (Inr a', b')"
  defines "b \<equiv> sy_broker s"
  defines "reg \<equiv> bk_regs b ! a"
  shows "map dl_message (q_items (bk_queues b' ! a)) =
           take DEFAULT_QUEUE_BOUND (map dl_message (q_items (bk_queues b ! a)) @
             replay_hits (reg_tokens reg) ms @ map dl_message (by_age (reg_buffer reg))) \<and>
         bk_regs b' ! a = reg\<lparr>reg_replaying := False, reg_buffer := []\<rparr> \<and>
         (\<forall>c. c \<noteq> a \<longrightarrow> bk_queues b' ! c = bk_queues b ! c \<and> bk_regs b' ! c = bk_regs b ! c)"
proof -
  have core: "core_inv b" using reachable_core [OF assms(1)] by (simp add: b_def)
  have a: "a < length (bk_regs b)"
    using bsys.reachable_inv [OF assms(1)] assms(2) by (fastforce simp: sys_inv_def pending_ok_def b_def)
  obtain u where "replay_flush a ms b = (Inr u, b')"
    using assms(3) by (auto simp: subscribe_replay_def b_def split: prod.splits sum.splits)
  from replay_flush_effect [OF core a this] obtain ds where
    q: "bk_queues b' = (bk_queues b)[a := fold offered (ds @ by_age (reg_buffer reg)) (bk_queues b ! a)]"
    and r: "bk_regs b' = (bk_regs b)[a := reg\<lparr>reg_replaying := False, reg_buffer := []\<rparr>]"
    and ds: "map dl_message ds = replay_hits (reg_tokens reg) ms"
    by (auto simp: reg_def)
  have "q_maxsize (bk_queues b ! a) = DEFAULT_QUEUE_BOUND" "0 < DEFAULT_QUEUE_BOUND"
    "length (q_items (bk_queues b ! a)) \<le> DEFAULT_QUEUE_BOUND"
    using core_queueD [OF core a] by (simp_all add: queue_good_def DEFAULT_QUEUE_BOUND_def)
  with fold_offered_items(1) [of "bk_queues b ! a" "ds @ by_age (reg_buffer reg)"] ds
  show ?thesis
    using a core_heapD(6) [OF core a] by (simp add: q r ds [symmetric] take_map [symmetric] del: take_append fold_append)
qed

definition demo_replay :: "mem_store sys" where
  "demo_replay = demo default_retry_policy
     [ARegister ''a.b'' True, APublish ''a.b'' (MInt 1) None 5, AAppend 0, AFanout 0,
      ASubscribe ''a.*'' (Some (FromUnixTimestamp 1)), ARead 0]"

lemma demo_replay_reach: "reachable_sys demo_replay"
  by (simp only: demo_replay_def demo_reachable)

theorem replay_hands_over_witness:
  "\<exists>m. msg_topic m = ''a.b'' \<and>
       map dl_message (q_items (bk_queues (snd (subscribe_replay 0 (snd (hd (sy_flushing demo_replay)))
         (sy_broker demo_replay))) ! 0)) = [m]"
proof -
  let ?b = "sy_broker demo_replay"
  have n: "length (sy_flushing demo_replay) = 1"
    and "fst (hd (sy_flushing demo_replay)) = 0" "is_ok (snd (hd (sy_flushing demo_replay)))"
    and ok: "is_ok (fst (subscribe_replay 0 (snd (hd (sy_flushing demo_replay))) ?b))" by code_simp+
  then obtain ms where hd: "hd (sy_flushing demo_replay) = (0, Inr ms)"
    by (metis is_ok.elims(2) prod.collapse)
  then have fl: "(0, Inr ms) \<in> set (sy_flushing demo_replay)"
    using n by (cases "sy_flushing demo_replay") auto
  obtain a' b' where r: "subscribe_replay 0 (Inr ms) ?b = (Inr a', b')"
    using ok hd by (metis is_ok.elims(2) prod.collapse snd_conv)
  have tok: "reg_tokens (bk_regs ?b ! 0) = [''a'', ''*'']" and e: "q_items (bk_queues ?b ! 0) = []"
    and buf: "reg_buffer (bk_regs ?b ! 0) = []"
    and "map msg_topic (case snd (hd (sy_flushing demo_replay)) of Inr ms \<Rightarrow> ms) = [''a.b'']" by code_simp+
  then obtain m where m: "ms = [m]" "msg_topic m = ''a.b''" using hd by auto
  have "matches_tokens [''a'', ''*''] ''a.b'' = Inr True" by code_simp
  with replay_hands_over [OF demo_replay_reach fl r] tok e buf m hd r show ?thesis
    by (simp add: replay_hits_def DEFAULT_QUEUE_BOUND_def)
qed

text \<open>
  Subscribing with a timestamp over the in-memory backend, when nothing runs in between:
  in any reachable state the new queue holds exactly the retained messages from that timestamp
  on, inclusively, whose topics the selector matches, oldest first and in publishing order
  among equal timestamps, up to the bound of 128; the history itself is not changed.
\<close>

theorem subscribe_replays_history:
  assumes "reachable_sys s" "bk_backend (sy_broker s) = memory_backend"
    and "subscribe sel (Some (FromUnixTimestamp ts)) (sy_broker s) = (Inr a, b')"
    and "no_collision (snd (subscribe_begin sel (Some (FromUnixTimestamp ts)) (sy_broker s)))"
  defines "b \<equiv> sy_broker s"
  shows "\<exists>tokens. validate_pattern sel = Inr tokens \<and> a = length (bk_regs b) \<and>
           map dl_message (q_items (bk_queues b' ! a)) =
             take DEFAULT_QUEUE_BOUND (replay_hits tokens (history_from ts (ms_history (bk_dur b)))) \<and>
           \<not> reg_replaying (bk_regs b' ! a)"
proof -
  have core: "core_inv b" using reachable_core [OF assms(1)] by (simp add: b_def)
  define ms where "ms = history_from ts (ms_history (bk_dur b))"
  obtain a1 b1 where start: "subscribe_begin sel (Some (FromUnixTimestamp ts)) b = (Inr a1, b1)"
    using assms(3) by (auto simp: subscribe_def b_def split: prod.splits sum.splits)
  from subscribe_begin_new [OF start] obtain tokens where tokens: "validate_pattern sel = Inr tokens"
    and new: "a1 = length (bk_regs b)" "bk_dur b1 = bk_dur b" "bk_backend b1 = bk_backend b"
      "bk_queues b1 = bk_queues b @ [new_queue DEFAULT_QUEUE_BOUND]"
    and reg: "reg_tokens (bk_regs b1 ! a1) = tokens" "reg_buffer (bk_regs b1 ! a1) = []"
    by auto
  have q1: "length (bk_queues b) = length (bk_regs b)" using core by (simp add: core_inv_def heap_ok_def)
  have 1: "core_inv b1" "a1 < length (bk_regs b1)"
    using subscribe_begin_safe [OF core start] assms(4) start by (simp_all add: b_def)
  have "replay_read ts b1 = (Inr ms, b1)"
    using new assms(2)
    by (simp add: replay_read_def mem_read_from_def history_from_def ms_def b_def)
  then obtain u where flush: "replay_flush a1 ms b1 = (Inr u, b')" and a: "a = a1"
    using assms(3) start by (auto simp: subscribe_def subscribe_replay_def b_def split: prod.splits sum.splits)
  from replay_flush_effect [OF 1 flush] obtain ds where
    q: "bk_queues b' = (bk_queues b1)[a1 := fold offered ds (bk_queues b1 ! a1)]"
    and r: "bk_regs b' = (bk_regs b1)[a1 := (bk_regs b1 ! a1)\<lparr>reg_replaying := False, reg_buffer := []\<rparr>]"
    and ds: "map dl_message ds = replay_hits tokens ms"
    using reg by auto
  have "q_items (fold offered ds (new_queue DEFAULT_QUEUE_BOUND)) = take DEFAULT_QUEUE_BOUND ds"
    using fold_offered_items(1) [of "new_queue DEFAULT_QUEUE_BOUND" ds] by (simp add: DEFAULT_QUEUE_BOUND_def)
  moreover have "bk_queues b1 ! a1 = new_queue DEFAULT_QUEUE_BOUND" "a1 < length (bk_queues b1)"
    using new q1 by (simp_all add: nth_append)
  ultimately show ?thesis
    using tokens new(1) a 1(2) by (simp add: q r ds [symmetric] ms_def [symmetric] take_map)
qed

definition demo_history :: "mem_store sys" where
  "demo_history = demo default_retry_policy
     [ARegister ''a.b'' True, APublish ''a.b'' (MInt 1) None 5, AAppend 0, AFanout 0]"

lemma demo_history_reach: "reachable_sys demo_history"
  by (simp only: demo_history_def demo_reachable)

theorem subscribe_replays_history_witness:
  "map (msg_topic \<circ> dl_message) (q_items (bk_queues (snd (subscribe ''a.>'' (Some (FromUnixTimestamp 5))
     (sy_broker demo_history))) ! 0)) = [''a.b'']"
proof -
  let ?b = "sy_broker demo_history" and ?p = "Some (FromUnixTimestamp 5)"
  have "is_ok (fst (subscribe ''a.>'' ?p ?b))" by code_simp
  then obtain a b' where r: "subscribe ''a.>'' ?p ?b = (Inr a, b')"
    by (metis is_ok.elims(2) prod.collapse)
  have "draws_distinct (snd (subscribe_begin ''a.>'' ?p ?b))" by code_simp
  then have free: "no_collision (snd (subscribe_begin ''a.>'' ?p ?b))" by (simp add: draws_distinct)
  have mem: "bk_backend ?b = memory_backend" by (simp add: demo_history_def)
  have n: "length (bk_regs ?b) = 0" and v: "validate_pattern ''a.>'' = Inr [''a'', ''>'']"
    and h: "map msg_topic (replay_hits [''a'', ''>''] (history_from 5 (ms_history (bk_dur ?b)))) = [''a.b'']"
    by code_simp+
  from subscribe_replays_history [OF demo_history_reach mem r free] n v
  have "map dl_message (q_items (bk_queues b' ! 0)) =
      take DEFAULT_QUEUE_BOUND (replay_hits [''a'', ''>''] (history_from 5 (ms_history (bk_dur ?b))))"
    by auto
  then have "map (msg_topic \<circ> dl_message) (q_items (bk_queues b' ! 0)) =
      take DEFAULT_QUEUE_BOUND (map msg_topic (replay_hits [''a'', ''>''] (history_from 5 (ms_history (bk_dur ?b)))))"
    by (simp add: take_map flip: map_map)
  with h r show ?thesis by (simp add: DEFAULT_QUEUE_BOUND_def)
qed

section \<open>The delivery stream\<close>

text \<open>A consumer that asks \<open>n\<close> times without anything else running in between.\<close>

fun take_stream :: "nat \<Rightarrow> nat \<Rightarrow> 'd broker \<Rightarrow> delivery list \<times> next_result \<times> 'd broker" where
  "take_stream 0 a b = ([], stream_next a b)"
| "take_stream (Suc n) a b =
     (case stream_next a b of
        (Next d, b') \<Rightarrow> (case take_stream n a b' of (ds, r) \<Rightarrow> (d # ds, r))
      | (r, b') \<Rightarrow> ([], r, b'))"

lemma take_stream_drains:
  assumes "length (bk_queues b) = length (bk_stream_heap b)" "a < length (bk_stream_heap b)"
    and "st_queue (bk_stream_heap b ! a) = a" "q_items (bk_queues b ! a) = ds"
  shows "fst (take_stream (length ds) a b) = ds \<and>
         fst (snd (take_stream (length ds) a b)) = (if st_closed (bk_stream_heap b ! a) then Ended else Waiting)"
  using assms
proof (induction ds arbitrary: b)
  case Nil
  then show ?case by (auto simp: stream_next_def Let_def get_ready_def)
next
  case (Cons d ds)
  let ?b = "set_queue a ((bk_queues b ! a)\<lparr>q_items := ds\<rparr>) b"
  have "stream_next a b = (Next d, ?b)"
    using Cons.prems by (simp add: stream_next_def Let_def get_ready_def)
  moreover have "fst (take_stream (length ds) a ?b) = ds \<and>
      fst (snd (take_stream (length ds) a ?b)) = (if st_closed (bk_stream_heap b ! a) then Ended else Waiting)"
    using Cons.IH [of ?b] Cons.prems by (simp add: set_queue_def)
  ultimately show ?case by (auto split: prod.split)
qed

text \<open>
  Nothing queued is lost when a stream closes: in every reachable state, a consumer of any
  subscription - also one that was evicted or unsubscribed - is handed exactly the queued
  deliveries, in queue order, and only then the end of the stream if it is closed, or a wait
  if it is open.
\<close>

theorem streams_drain_before_end:
  assumes "reachable_sys s" "a < length (bk_regs (sy_broker s))"
  defines "b \<equiv> sy_broker s"
  defines "ds \<equiv> q_items (bk_queues b ! a)"
  shows "fst (take_stream (length ds) a b) = ds \<and>
         fst (snd (take_stream (length ds) a b)) = (if st_closed (bk_stream_heap b ! a) then Ended else Waiting)"
proof -
  have core: "core_inv b" using reachable_core [OF assms(1)] by (simp add: b_def)
  note a = assms(2) [folded b_def]
  show ?thesis
    using take_stream_drains [of b a ds] core_heapD(2,6,7) [OF core a] a by (simp add: ds_def)
qed

definition demo_unsubscribed :: "mem_store sys" where
  "demo_unsubscribed = demo default_retry_policy
     [ASubscribe ''a.*'' None, APublish ''a.b'' (MInt 1) None 5, AAppend 0, AFanout 0, AUnsubscribe 0]"

lemma demo_unsubscribed_reach: "reachable_sys demo_unsubscribed"
  by (simp only: demo_unsubscribed_def demo_reachable)

theorem streams_drain_before_end_witness:
  "length (fst (take_stream 1 0 (sy_broker demo_unsubscribed))) = 1 \<and>
   fst (snd (take_stream 1 0 (sy_broker demo_unsubscribed))) = Ended"
proof -
  have "0 < length (bk_regs (sy_broker demo_unsubscribed))"
    and "length (q_items (bk_queues (sy_broker demo_unsubscribed) ! 0)) = 1"
    and "st_closed (bk_stream_heap (sy_broker demo_unsubscribed) ! 0)" by code_simp+
  with streams_drain_before_end [OF demo_unsubscribed_reach, of 0] show ?thesis by simp
qed

section \<open>Acknowledgement\<close>

text \<open>
  An ack frees its slot: in any reachable state, for an inflight delivery, the backlog
  drops by exactly one, the other inflight deliveries stay in order, the gate opens if the new
  backlog allows it, one ack event is emitted, and over the in-memory backend the message is
  the last acknowledged one of that subscription while all other subscriptions keep theirs.
\<close>

theorem ack_frees_slot:
  assumes "reachable_sys s" "bk_backend (sy_broker s) = memory_backend"
    and "dl_id d \<in> dict_keys (bk_inflight (sy_broker s))"
  defines "b \<equiv> sy_broker s" and "b' \<equiv> snd (ack d (sy_broker s))"
  shows "fst (ack d b) = Inr () \<and> backlog b' = backlog b - 1 \<and>
         bk_inflight b' = dict_pop (dl_id d) (bk_inflight b) \<and>
         (below_watermark b' \<longrightarrow> bk_admit b') \<and>
         bk_events b' = bk_events b @ [OnAck (dl_sid d)] \<and>
         (\<forall>sid. dict_get (ms_acks (bk_dur b')) sid =
            (if sid = dl_sid d then Some (msg_id (dl_message d)) else dict_get (ms_acks (bk_dur b)) sid))"
proof -
  have core: "core_inv b" using reachable_core [OF assms(1)] by (simp add: b_def)
  define b1 where "b1 = refresh_admission (b\<lparr>bk_inflight := dict_pop (dl_id d) (bk_inflight b)\<rparr>)"
  have eq: "ack d b = (Inr (), (emit (OnAck (dl_sid d)) b1)\<lparr>bk_dur :=
      (bk_dur b)\<lparr>ms_acks := dict_set (dl_sid d) (msg_id (dl_message d)) (ms_acks (bk_dur b))\<rparr>\<rparr>)"
    using assms(2) by (simp add: ack_def Let_def frame_simps b1_def mem_record_ack_def b_def)
  have fl: "bk_inflight b1 = dict_pop (dl_id d) (bk_inflight b)"
    "bk_retry_pending_total b1 = bk_retry_pending_total b" "bk_events b1 = bk_events b"
    by (simp_all add: b1_def frame_simps)
  have "length (bk_inflight b) = Suc (length (dict_pop (dl_id d) (bk_inflight b)))"
    using length_dict_pop_present [OF core_flight_wf [OF core], of "dl_id d"] assms(3) by (simp add: b_def)
  then have "backlog b' = backlog b - 1"
    using fl by (simp add: b'_def backlog_def frame_simps eq [unfolded b_def] b_def)
  moreover have "gate_ok b'"
    using gate_ack by (simp add: b'_def)
  ultimately show ?thesis
    using fl by (auto simp: b'_def gate_ok_def frame_simps eq [unfolded b_def] b_def emit_def
        dict_simps)
qed

theorem ack_frees_slot_witness:
  "backlog (sy_broker demo_handed) = 1 \<and> backlog (snd (ack (hd (sy_handed demo_handed)) (sy_broker demo_handed))) = 0"
proof -
  have "dl_id (hd (sy_handed demo_handed)) \<in> dict_keys (bk_inflight (sy_broker demo_handed))"
    and "backlog (sy_broker demo_handed) = 1" by code_simp+
  moreover have "bk_backend (sy_broker demo_handed) = memory_backend" by (simp add: demo_handed_def)
  ultimately show ?thesis using ack_frees_slot [OF demo_reach(3)] by simp
qed

section \<open>Failures\<close>

text \<open>
  Nothing is delivered that was not stored: if the durability backend refuses the append,
  the publish raises that error and the broker differs from before only in the backend's own
  state - no queue, buffer, inflight entry, counter or event is touched - and a publisher that
  does not pass the gate leaves everything as it was but for the closed gate.
\<close>

theorem publish_failure_delivers_nothing:
  "(case publish_resume m b of
      (Inl e, b') \<Rightarrow>
        below_watermark b \<and>
        ((\<exists>d'. be_append (bk_backend b) m (bk_dur b) = (Inl e, d') \<and> b' = b\<lparr>bk_dur := d'\<rparr>) \<or>
         (\<exists>u d'. be_append (bk_backend b) m (bk_dur b) = (Inr u, d') \<and>
            publish_fanout m (b\<lparr>bk_dur := d'\<rparr>) = (Inl e, b')))
    | (Inr (Parked m'), b') \<Rightarrow> m' = m \<and> \<not> below_watermark b \<and> b' = b\<lparr>bk_admit := False\<rparr>
    | (Inr (Published r), b') \<Rightarrow>
        below_watermark b \<and>
        (\<exists>u d'. be_append (bk_backend b) m (bk_dur b) = (Inr u, d') \<and>
           publish_fanout m (b\<lparr>bk_dur := d'\<rparr>) = (Inr r, b')))"
proof (cases "below_watermark b")
  case False
  then show ?thesis by (simp add: publish_resume_def gate_pass_def)
next
  case True
  obtain r d' where a: "be_append (bk_backend b) m (bk_dur b) = (r, d')" by fastforce
  obtain r2 b2 where f: "publish_fanout m (b\<lparr>bk_dur := d'\<rparr>) = (r2, b2)" by fastforce
  show ?thesis
    using True a f by (cases r; cases r2) (simp_all add: publish_resume_def gate_pass_def publish_store_def)
qed

definition orphan_schedule :: "action list" where
  "orphan_schedule =
     [ASubscribe ''a.*'' None, APublish ''a.b'' (MInt 1) None 5, AAppend 0, AFanout 0, ANext 0,
      ANack 0, AUnsubscribe 0, AWake 0 0]"

definition demo_orphan :: "mem_store sys" where
  "demo_orphan = demo default_retry_policy orphan_schedule"

text \<open>
  An orphaned backoff task wedges the gate.  This schedule is reachable: the only
  subscription nacks its delivery and unsubscribes, then the backoff task fires.  The task puts
  the redelivery into the queue nobody reads any more and records it as inflight, so the
  backlog stands at the watermark for good: no task is left, no subscription is live, and
  acknowledging or rejecting anything that was ever handed out leaves the gate shut, also when
  a new subscriber joins.
\<close>

theorem orphaned_task_wedges_gate:
  "reachable_sys demo_orphan \<and> bk_router (sy_broker demo_orphan) = [] \<and>
   bk_tasks (sy_broker demo_orphan) = [] \<and> backlog (sy_broker demo_orphan) = 1 \<and>
   \<not> below_watermark (sy_broker demo_orphan) \<and>
   list_all (\<lambda>d. \<not> below_watermark (snd (ack d (sy_broker demo_orphan))) \<and>
                 \<not> below_watermark (snd (nack d (sy_broker demo_orphan)))) (sy_handed demo_orphan) \<and>
   \<not> below_watermark (snd (subscribe ''a.*'' None (sy_broker demo_orphan)))"
proof (intro conjI)
  show "reachable_sys demo_orphan" unfolding demo_orphan_def by (rule demo_reachable)
qed code_simp+

definition overlap_schedule :: "action list" where
  "overlap_schedule =
     [ARegister ''a.b'' True, ASubscribe ''a.*'' (Some (FromUnixTimestamp 1)),
      APublish ''a.b'' (MInt 1) None 5, AAppend 0, AFanout 0,
      APublish ''a.b'' (MInt 2) None 6, AAppend 0, AFanout 0, ARead 0, AFlush 0]"

definition demo_overlap :: "mem_store sys" where
  "demo_overlap = demo default_retry_policy overlap_schedule"

text \<open>
  The handoff can deliver a message twice.  This schedule is reachable: a subscription has
  started replaying; a message is then appended and fanned out into its buffer before the
  history is read, so it is in the history too; after the flush the queue holds it twice, and
  not in the order of age when a younger message was in the history as well.
\<close>

theorem handoff_duplicates:
  "reachable_sys demo_overlap \<and>
   map (msg_payload \<circ> dl_message) (q_items (bk_queues (sy_broker demo_overlap) ! 0)) =
     [MInt 1, MInt 2, MInt 1, MInt 2]"
proof (intro conjI)
  show "reachable_sys demo_overlap" unfolding demo_overlap_def by (rule demo_reachable)
qed code_simp

text \<open>
  The budget counts one attempt more than is made: with \<open>max_attempts\<close> = 2 the first nack,
  of the only delivery ever made, already writes the dead letter, which records two attempts.
\<close>

theorem budget_counts_unmade_attempt:
  "reachable_sys demo_last \<and> map dl_attempt (sy_handed demo_last) = [1] \<and>
   map dq_attempts (ms_dlq (bk_dur (snd (nack (hd (sy_handed demo_last)) (sy_broker demo_last))))) = [2]"
proof (intro conjI)
  show "reachable_sys demo_last" by (rule demo_last_reach)
qed code_simp+

end
