(* ===== verification/Wire.thy ===== *)
theory Wire
  imports Types
begin

text \<open>
  The wire protocol (\<open>pubsub/transport/wire.py\<close>): length-prefixed frames and the conversion
  of envelopes to and from MessagePack maps.  MessagePack itself is a library: \<open>packb\<close> and
  \<open>unpackb\<close> are arguments, and what is relied on is \<open>msgpack_roundtrip\<close>.  A stream reader is
  the list of the bytes still to come.  \<open>cast\<close> checks nothing in Python; here the envelopes are
  typed records, so a field of another type is the error \<open>ValueError\<close> of \<open>as_str\<close> and its kin.
\<close>

type_synonym frame = "(mpval, mpval) dict"

definition MAX_FRAME_BYTES :: nat where "MAX_FRAME_BYTES = 8 * 1024 * 1024"
definition LENGTH_BYTES :: nat where "LENGTH_BYTES = 4"
definition PROTOCOL_VERSION :: int where "PROTOCOL_VERSION = 1"

datatype op =
    HELLO | REGISTER | PUBLISH | SUBSCRIBE | ACK | NACK | UNSUBSCRIBE
  | WELCOME | REGISTER_OK | PUBLISH_RESULT | SUBSCRIBE_OK | DELIVERY | SUB_CLOSED | ERROR
  | HEARTBEAT

fun op_str :: "op \<Rightarrow> string" where
  "op_str HELLO = ''hello''"
| "op_str REGISTER = ''register''"
| "op_str PUBLISH = ''publish''"
| "op_str SUBSCRIBE = ''subscribe''"
| "op_str ACK = ''ack''"
| "op_str NACK = ''nack''"
| "op_str UNSUBSCRIBE = ''unsubscribe''"
| "op_str WELCOME = ''welcome''"
| "op_str REGISTER_OK = ''register_ok''"
| "op_str PUBLISH_RESULT = ''publish_result''"
| "op_str SUBSCRIBE_OK = ''subscribe_ok''"
| "op_str DELIVERY = ''delivery''"
| "op_str SUB_CLOSED = ''sub_closed''"
| "op_str ERROR = ''error''"
| "op_str HEARTBEAT = ''heartbeat''"

definition HEARTBEAT_FRAME :: frame where
  "HEARTBEAT_FRAME = [(MStr ''op'', MStr (op_str HEARTBEAT))]"

section \<open>Framing\<close>

text \<open>\<open>n.to_bytes(k, "big")\<close> and \<open>int.from_bytes(bs, "big")\<close>.\<close>

fun to_bytes_big :: "nat \<Rightarrow> nat \<Rightarrow> byte list" where
  "to_bytes_big 0 n = []"
| "to_bytes_big (Suc k) n = to_bytes_big k (n div 256) @ [of_nat n]"

definition from_bytes_big :: "byte list \<Rightarrow> nat" where
  "from_bytes_big bs = foldl (\<lambda>a b. 256 * a + unat b) 0 bs"

text \<open>\<open>StreamReader.readexactly\<close>: too few bytes before the end of the stream raise.\<close>

definition readexactly :: "nat \<Rightarrow> byte list \<Rightarrow> byte list result \<times> byte list" where
  "readexactly n buf = (if length buf < n then (Inl IncompleteReadError, []) else (Inr (take n buf), drop n buf))"

definition encode_frame :: "(mpval \<Rightarrow> byte list result) \<Rightarrow> frame \<Rightarrow> byte list result" where
  "encode_frame packb f =
     bind_result (packb (MDict f)) (\<lambda>body.
       if MAX_FRAME_BYTES < length body
       then Inl (ProtocolError (''frame too large to send: '' @ dec (length body) @ '' > '' @ dec MAX_FRAME_BYTES))
       else Inr (to_bytes_big LENGTH_BYTES (length body) @ body))"

text \<open>For evaluation: the cap as a binary number.\<close>

lemma encode_frame_code [code]:
  "encode_frame packb f =
     bind_result (packb (MDict f)) (\<lambda>body.
       if int (length body) \<le> 8388608 then Inr (to_bytes_big LENGTH_BYTES (length body) @ body)
       else Inl (ProtocolError (''frame too large to send: '' @ dec (length body) @ '' > '' @ dec MAX_FRAME_BYTES)))"
  by (auto simp: encode_frame_def MAX_FRAME_BYTES_def intro!: arg_cong [where f = "bind_result _"])

definition op_tagged :: "frame \<Rightarrow> bool" where
  "op_tagged f \<longleftrightarrow> MStr ''op'' \<in> set (map fst f)"

definition read_frame :: "(byte list \<Rightarrow> mpval result) \<Rightarrow> byte list \<Rightarrow> frame result \<times> byte list" where
  "read_frame unpackb buf =
     (case readexactly LENGTH_BYTES buf of
        (Inl e, buf1) \<Rightarrow> (Inl e, buf1)
      | (Inr header, buf1) \<Rightarrow>
          (let size = from_bytes_big header in
           if MAX_FRAME_BYTES < size
           then (Inl (ProtocolError (''declared frame size '' @ dec size @ '' exceeds cap '' @ dec MAX_FRAME_BYTES)), buf1)
           else case readexactly size buf1 of
                  (Inl e, buf2) \<Rightarrow> (Inl e, buf2)
                | (Inr body, buf2) \<Rightarrow>
                    (bind_result (unpackb body) (\<lambda>obj.
                       case obj of
                         MDict f \<Rightarrow> if op_tagged f then Inr f
                                    else Inl (ProtocolError ''frame is not an op-tagged map'')
                       | _ \<Rightarrow> Inl (ProtocolError ''frame is not an op-tagged map'')), buf2)))"

section \<open>Envelopes\<close>

fun as_str :: "mpval \<Rightarrow> string result" where
  "as_str (MStr s) = Inr s"
| "as_str _ = Inl (ValueError ''not a string'')"

fun as_int :: "mpval \<Rightarrow> int result" where
  "as_int (MInt i) = Inr i"
| "as_int _ = Inl (ValueError ''not an integer'')"

fun as_float :: "mpval \<Rightarrow> real result" where
  "as_float (MFloat r) = Inr r"
| "as_float (MInt i) = Inr (of_int i)"
| "as_float _ = Inl (ValueError ''not a number'')"

fun as_map :: "mpval \<Rightarrow> frame result" where
  "as_map (MDict f) = Inr f"
| "as_map _ = Inl (ValueError ''not a map'')"

text \<open>\<open>bool(v)\<close>.\<close>

fun truthy :: "mpval \<Rightarrow> bool" where
  "truthy (MStr s) = (s \<noteq> [])"
| "truthy (MInt i) = (i \<noteq> 0)"
| "truthy (MFloat r) = (r \<noteq> 0)"
| "truthy (MBool b) = b"
| "truthy MNone = False"
| "truthy (MBytes bs) = (bs \<noteq> [])"
| "truthy (MList vs) = (vs \<noteq> [])"
| "truthy (MDict f) = (f \<noteq> [])"

text \<open>\<open>data[k]\<close> and \<open>data.get(k)\<close>.\<close>

definition item :: "frame \<Rightarrow> string \<Rightarrow> mpval result" where
  "item f k = (case dict_get f (MStr k) of Some v \<Rightarrow> Inr v | None \<Rightarrow> Inl (KeyError k))"

definition get_or_none :: "frame \<Rightarrow> string \<Rightarrow> mpval" where
  "get_or_none f k = (case dict_get f (MStr k) of Some v \<Rightarrow> v | None \<Rightarrow> MNone)"

definition str_keys :: "(string, mpval) dict \<Rightarrow> frame" where
  "str_keys d = map (\<lambda>(k, v). (MStr k, v)) d"

fun extras_of :: "frame \<Rightarrow> (string, mpval) dict result" where
  "extras_of [] = Inr []"
| "extras_of ((k, v) # f) =
     bind_result (as_str k) (\<lambda>s. bind_result (extras_of f) (\<lambda>d. Inr ((s, v) # d)))"

definition message_to_wire :: "message \<Rightarrow> frame" where
  "message_to_wire m =
     [(MStr ''message_id'', MStr (msg_id m)), (MStr ''topic'', MStr (msg_topic m)),
      (MStr ''payload'', msg_payload m), (MStr ''extras'', MDict (str_keys (msg_extras m))),
      (MStr ''created_at'', MFloat (msg_created_at m))]"

definition message_from_wire :: "frame \<Rightarrow> message result" where
  "message_from_wire data =
     bind_result (bind_result (item data ''message_id'') as_str) (\<lambda>mid.
     bind_result (bind_result (item data ''topic'') as_str) (\<lambda>topic.
     bind_result (item data ''payload'') (\<lambda>payload.
     bind_result (bind_result (bind_result (item data ''extras'') as_map) extras_of) (\<lambda>extras.
     bind_result (bind_result (item data ''created_at'') as_float) (\<lambda>created.
       Inr \<lparr>msg_id = mid, msg_topic = topic, msg_payload = payload, msg_extras = extras,
            msg_created_at = created\<rparr>)))))"

definition delivery_to_wire :: "delivery \<Rightarrow> frame" where
  "delivery_to_wire d =
     [(MStr ''op'', MStr (op_str DELIVERY)), (MStr ''subscription_id'', MStr (dl_sid d)),
      (MStr ''delivery_id'', MStr (dl_id d)), (MStr ''attempt'', MInt (dl_attempt d)),
      (MStr ''message'', MDict (message_to_wire (dl_message d)))]"

definition delivery_from_wire :: "frame \<Rightarrow> delivery result" where
  "delivery_from_wire f =
     bind_result (bind_result (item f ''delivery_id'') as_str) (\<lambda>did.
     bind_result (bind_result (item f ''subscription_id'') as_str) (\<lambda>sid.
     bind_result (bind_result (bind_result (item f ''message'') as_map) message_from_wire) (\<lambda>m.
     bind_result (bind_result (item f ''attempt'') as_int) (\<lambda>n.
       Inr \<lparr>dl_id = did, dl_sid = sid, dl_message = m, dl_attempt = n\<rparr>))))"

fun replay_to_wire :: "replay_policy \<Rightarrow> frame" where
  "replay_to_wire (FromUnixTimestamp ts) = [(MStr ''mode'', MStr ''from''), (MStr ''timestamp'', MFloat ts)]"
| "replay_to_wire FutureOnly = [(MStr ''mode'', MStr ''future'')]"

text \<open>
  \<open>repr\<close> and \<open>str\<close> of a value in an error text, written out for strings, \<open>None\<close>, booleans and
  integers; the text of any other value is not modelled and stands as a question mark.
\<close>

fun mp_repr :: "mpval \<Rightarrow> string" where
  "mp_repr (MStr s) = py_repr s"
| "mp_repr MNone = ''None''"
| "mp_repr (MBool b) = (if b then ''True'' else ''False'')"
| "mp_repr (MInt n) = int_repr n"
| "mp_repr _ = ''?''"

fun mp_str :: "mpval \<Rightarrow> string" where
  "mp_str (MStr s) = s"
| "mp_str v = mp_repr v"

definition replay_from_wire :: "frame \<Rightarrow> replay_policy result" where
  "replay_from_wire data =
     (let mode = get_or_none data ''mode'' in
      if mode = MStr ''from''
      then bind_result (bind_result (item data ''timestamp'') as_float) (\<lambda>ts. Inr (FromUnixTimestamp ts))
      else if mode = MStr ''future'' then Inr FutureOnly
      else Inl (ProtocolError (''unknown replay mode: '' @ mp_repr mode)))"

definition publish_result_to_wire :: "mpval \<Rightarrow> publish_result \<Rightarrow> frame" where
  "publish_result_to_wire rid r =
     (let f = [(MStr ''op'', MStr (op_str PUBLISH_RESULT)), (MStr ''rid'', rid),
               (MStr ''accepted'', MBool (pr_accepted r))] in
      if pr_accepted r
      then dict_set (MStr ''message_id'') (case pr_message_id r of None \<Rightarrow> MNone | Some i \<Rightarrow> MStr i) f
      else case pr_error r of
             None \<Rightarrow> f
           | Some e \<Rightarrow>
               dict_set (MStr ''error'')
                 (MDict [(MStr ''code'', MStr (pe_code e)), (MStr ''detail'', MStr (pe_detail e))]) f)"

definition get_str_or :: "frame \<Rightarrow> string \<Rightarrow> string \<Rightarrow> string result" where
  "get_str_or f k fallback = (case dict_get f (MStr k) of None \<Rightarrow> Inr fallback | Some v \<Rightarrow> as_str v)"

definition publish_result_from_wire :: "frame \<Rightarrow> publish_result result" where
  "publish_result_from_wire f =
     (if truthy (get_or_none f ''accepted'')
      then bind_result (bind_result (item f ''message_id'') as_str) (\<lambda>mid. Inr (publish_ok mid))
      else
        bind_result (let e = get_or_none f ''error'' in if truthy e then as_map e else Inr []) (\<lambda>error.
        bind_result (get_str_or error ''code'' ''error'') (\<lambda>code.
        bind_result (get_str_or error ''detail'' []) (\<lambda>detail.
          Inr (publish_rejected \<lparr>pe_code = code, pe_detail = detail\<rparr>)))))"

text \<open>\<open>frame.get("op") == Op.X\<close>, and \<open>v == n\<close> for an integer \<open>n\<close>: booleans and floats can be equal to it.\<close>

definition has_op :: "frame \<Rightarrow> op \<Rightarrow> bool" where
  "has_op f p \<longleftrightarrow> get_or_none f ''op'' = MStr (op_str p)"

fun equals_int :: "mpval \<Rightarrow> int \<Rightarrow> bool" where
  "equals_int (MInt i) n = (i = n)"
| "equals_int (MBool b) n = ((if b then 1 else 0) = n)"
| "equals_int (MFloat r) n = (r = of_int n)"
| "equals_int _ n = False"

section \<open>The length prefix\<close>

lemma length_to_bytes_big [simp]: "length (to_bytes_big k n) = k"
  by (induction k n rule: to_bytes_big.induct) simp_all

lemma from_bytes_big_snoc [simp]: "from_bytes_big (bs @ [b]) = 256 * from_bytes_big bs + unat b"
  by (simp add: from_bytes_big_def)

lemma from_bytes_big_Nil [simp]: "from_bytes_big [] = 0"
  by (simp add: from_bytes_big_def)

lemma unat_byte_of_nat [simp]: "unat (of_nat n :: byte) = n mod 256"
  by (simp add: unat_of_nat)

lemma from_to_bytes_big: "n < 256 ^ k \<Longrightarrow> from_bytes_big (to_bytes_big k n) = n"
proof (induction k n rule: to_bytes_big.induct)
  case (1 n)
  then show ?case by simp
next
  case (2 k n)
  then have "n div 256 < 256 ^ k" by (simp add: less_mult_imp_div_less mult.commute)
  with 2 show ?case by simp
qed

lemma from_bytes_big_bound: "from_bytes_big bs < 256 ^ length bs"
proof (induction bs rule: rev_induct)
  case Nil
  then show ?case by simp
next
  case (snoc b bs)
  have "unat b < 256" using unsigned_less [of b, where ?'a = nat] by simp
  with snoc show ?case by simp
qed

lemma frame_length_fits: "n \<le> MAX_FRAME_BYTES \<Longrightarrow> n < 256 ^ LENGTH_BYTES"
  by (simp add: MAX_FRAME_BYTES_def LENGTH_BYTES_def)

section \<open>Frames\<close>

text \<open>
  Values with a MessagePack form that comes back: maps with string keys, no key twice.  (The
  decoder refuses other keys by default.)
\<close>

fun mp_wf :: "mpval \<Rightarrow> bool" where
  "mp_wf (MList vs) = list_all mp_wf vs"
| "mp_wf (MDict f) =
     (distinct (map fst f) \<and> list_all (\<lambda>(k, v). (case k of MStr _ \<Rightarrow> True | _ \<Rightarrow> False) \<and> mp_wf v) f)"
| "mp_wf _ = True"

definition msgpack_roundtrip :: "(mpval \<Rightarrow> byte list result) \<Rightarrow> (byte list \<Rightarrow> mpval result) \<Rightarrow> bool" where
  "msgpack_roundtrip packb unpackb \<longleftrightarrow> (\<forall>v bs. mp_wf v \<longrightarrow> packb v = Inr bs \<longrightarrow> unpackb bs = Inr v)"

lemma encode_frame_Inr:
  "encode_frame packb f = Inr bs \<longleftrightarrow>
     (\<exists>body. packb (MDict f) = Inr body \<and> length body \<le> MAX_FRAME_BYTES \<and>
             bs = to_bytes_big LENGTH_BYTES (length body) @ body)"
  by (cases "packb (MDict f)") (auto simp: encode_frame_def)

lemma readexactly_append [simp]:
  "length xs = n \<Longrightarrow> readexactly n (xs @ ys) = (Inr xs, ys)"
  by (auto simp: readexactly_def)

lemma read_encoded:
  assumes "msgpack_roundtrip packb unpackb" "mp_wf (MDict f)" "op_tagged f" "encode_frame packb f = Inr bs"
  shows "read_frame unpackb (bs @ rest) = (Inr f, rest)"
proof -
  obtain body where body: "packb (MDict f) = Inr body" "length body \<le> MAX_FRAME_BYTES"
    "bs = to_bytes_big LENGTH_BYTES (length body) @ body"
    using assms(4) by (auto simp: encode_frame_Inr)
  have "unpackb body = Inr (MDict f)"
    using assms(1,2) body(1) by (simp add: msgpack_roundtrip_def)
  with body assms(3) show ?thesis
    by (simp add: read_frame_def from_to_bytes_big [OF frame_length_fits])
qed

text \<open>What the other end reads of a frame: \<open>encode_frame\<close>, then \<open>read_frame\<close>.\<close>

definition over_wire :: "(mpval \<Rightarrow> byte list result) \<Rightarrow> (byte list \<Rightarrow> mpval result) \<Rightarrow> frame \<Rightarrow> frame result" where
  "over_wire packb unpackb f = bind_result (encode_frame packb f) (\<lambda>bs. fst (read_frame unpackb bs))"

lemma over_wire_same:
  assumes "msgpack_roundtrip packb unpackb" "encode_frame packb f = Inr bs" "mp_wf (MDict f)" "op_tagged f"
  shows "over_wire packb unpackb f = Inr f"
  using read_encoded [OF assms(1,3,4,2), of "[]"] assms(2) by (simp add: over_wire_def)

text \<open>
  A MessagePack for a finite list of frames, which rejects every other value: it has the documented
  behaviour, and computes.
\<close>

definition table_pack :: "frame list \<Rightarrow> mpval \<Rightarrow> byte list result" where
  "table_pack fs v =
     (case map_of (zip (map MDict fs) [0..<length fs]) v of
        None \<Rightarrow> Inl (ValueError ''unsupported'')
      | Some i \<Rightarrow> Inr [of_nat i])"

definition table_unpack :: "frame list \<Rightarrow> byte list \<Rightarrow> mpval result" where
  "table_unpack fs bs =
     (case bs of
        [b] \<Rightarrow> if unat b < length fs then Inr (MDict (fs ! unat b)) else Inl (ValueError ''unsupported'')
      | _ \<Rightarrow> Inl (ValueError ''unsupported''))"

lemma table_roundtrip:
  assumes "length fs \<le> 256"
  shows "msgpack_roundtrip (table_pack fs) (table_unpack fs)"
proof -
  have "table_unpack fs bs = Inr v" if "table_pack fs v = Inr bs" for v bs
  proof -
    from that obtain i where i: "map_of (zip (map MDict fs) [0..<length fs]) v = Some i" "bs = [of_nat i]"
      by (auto simp: table_pack_def split: option.splits)
    from map_of_SomeD [OF i(1)] have "i < length fs" "v = MDict (fs ! i)" by (auto simp: set_zip)
    with i(2) assms show ?thesis by (simp add: table_unpack_def)
  qed
  then show ?thesis by (simp add: msgpack_roundtrip_def)
qed

lemma table_encodes: "f \<in> set fs \<Longrightarrow> \<exists>bs. encode_frame (table_pack fs) f = Inr bs"
proof -
  assume "f \<in> set fs"
  then have "MDict f \<in> fst ` set (zip (map MDict fs) [0..<length fs])" by (force simp: set_zip in_set_conv_nth)
  then obtain i where "map_of (zip (map MDict fs) [0..<length fs]) (MDict f) = Some i"
    by (cases "map_of (zip (map MDict fs) [0..<length fs]) (MDict f)") (auto simp: map_of_eq_None_iff)
  then have "table_pack fs (MDict f) = Inr [of_nat i]" by (simp add: table_pack_def)
  then show ?thesis by (intro exI) (auto simp: encode_frame_Inr MAX_FRAME_BYTES_def)
qed

text \<open>A run of frames, as a connection's read loop takes them.\<close>

fun encode_frames :: "(mpval \<Rightarrow> byte list result) \<Rightarrow> frame list \<Rightarrow> byte list result" where
  "encode_frames packb [] = Inr []"
| "encode_frames packb (f # fs) =
     bind_result (encode_frame packb f) (\<lambda>bs. bind_result (encode_frames packb fs) (\<lambda>cs. Inr (bs @ cs)))"

fun read_frames :: "(byte list \<Rightarrow> mpval result) \<Rightarrow> nat \<Rightarrow> byte list \<Rightarrow> frame list \<times> byte list" where
  "read_frames unpackb 0 buf = ([], buf)"
| "read_frames unpackb (Suc n) buf =
     (case read_frame unpackb buf of
        (Inl e, buf') \<Rightarrow> ([], buf')
      | (Inr f, buf') \<Rightarrow> (case read_frames unpackb n buf' of (fs, b) \<Rightarrow> (f # fs, b)))"

lemma readexactly_short: "length xs < n \<Longrightarrow> readexactly n xs = (Inl IncompleteReadError, [])"
  by (simp add: readexactly_def)

lemma read_truncated:
  assumes "encode_frame packb f = Inr bs" "k < length bs"
  shows "read_frame unpackb (take k bs) = (Inl IncompleteReadError, [])"
proof -
  obtain body where body: "length body \<le> MAX_FRAME_BYTES"
    "bs = to_bytes_big LENGTH_BYTES (length body) @ body"
    using assms(1) by (auto simp: encode_frame_Inr)
  show ?thesis
  proof (cases "k < LENGTH_BYTES")
    case True
    then have "length (take k bs) < LENGTH_BYTES" using assms(2) by simp
    then show ?thesis by (simp add: read_frame_def readexactly_short)
  next
    case False
    then have "take k bs = to_bytes_big LENGTH_BYTES (length body) @ take (k - LENGTH_BYTES) body"
      using body(2) by simp
    moreover have "k - LENGTH_BYTES < length body" using assms(2) body(2) False by simp
    ultimately show ?thesis
      using body(1)
      by (simp add: read_frame_def from_to_bytes_big [OF frame_length_fits] readexactly_short)
  qed
qed

section \<open>Envelope round trips\<close>

named_theorems wire_simps "field access of wire maps"

lemma item_simps [wire_simps]:
  "item ((MStr k, v) # f) k' = (if k = k' then Inr v else item f k')"
  "get_or_none ((MStr k, v) # f) k' = (if k = k' then v else get_or_none f k')"
  "get_or_none [] k' = MNone"
  "get_str_or ((MStr k, v) # f) k' s = (if k = k' then as_str v else get_str_or f k' s)"
  by (simp_all add: item_def get_or_none_def get_str_or_def)

lemma extras_of_str_keys [simp]: "extras_of (str_keys d) = Inr d"
  by (induction d) (auto simp: str_keys_def)

lemma mp_wf_delivery:
  "mp_wf (msg_payload (dl_message d)) \<Longrightarrow> mp_wf (MDict (str_keys (msg_extras (dl_message d)))) \<Longrightarrow>
   mp_wf (MDict (delivery_to_wire d)) \<and> op_tagged (delivery_to_wire d)"
  by (simp add: delivery_to_wire_def message_to_wire_def op_tagged_def)

lemma mp_wf_result:
  "mp_wf (MDict (publish_result_to_wire (MInt rid) r)) \<and> op_tagged (publish_result_to_wire (MInt rid) r)"
  by (auto simp: publish_result_to_wire_def op_tagged_def Let_def split: option.split)

lemma message_wire_roundtrip: "message_from_wire (message_to_wire m) = Inr m"
  by (simp add: message_from_wire_def message_to_wire_def wire_simps)

lemma delivery_wire_roundtrip: "delivery_from_wire (delivery_to_wire d) = Inr d"
  by (simp add: delivery_from_wire_def delivery_to_wire_def wire_simps message_wire_roundtrip)

lemma replay_wire_roundtrip: "replay_from_wire (replay_to_wire p) = Inr p"
  by (cases p) (simp_all add: replay_from_wire_def wire_simps)

lemma publish_result_wire_ok: "publish_result_from_wire (publish_result_to_wire rid (publish_ok i)) = Inr (publish_ok i)"
  by (simp add: publish_result_from_wire_def publish_result_to_wire_def wire_simps Let_def)

lemma publish_result_wire_rejected:
  "publish_result_from_wire (publish_result_to_wire rid (publish_rejected e)) = Inr (publish_rejected e)"
  by (cases e) (simp add: publish_result_from_wire_def publish_result_to_wire_def wire_simps Let_def
      publish_rejected_def)

section \<open>Properties\<close>

text \<open>
  C29. Frames survive the wire: if MessagePack round-trips on well-formed values, then any sequence
  of op-tagged frames that could be encoded and are well-formed (\<open>mp_wf\<close>: every map in them has string
  keys only and no key twice) is read back frame by frame, in order, from the concatenated bytes,
  and what follows them in the stream is left untouched.
\<close>

theorem frame_stream_roundtrip:
  assumes "msgpack_roundtrip packb unpackb" "\<forall>f\<in>set fs. mp_wf (MDict f) \<and> op_tagged f"
    and "encode_frames packb fs = Inr bs"
  shows "read_frames unpackb (length fs) (bs @ rest) = (fs, rest)"
  using assms(2,3)
proof (induction fs arbitrary: bs)
  case Nil
  then show ?case by simp
next
  case (Cons f fs)
  then obtain c cs where "encode_frame packb f = Inr c" "encode_frames packb fs = Inr cs" "bs = c @ cs"
    by (auto simp: bind_result_Inr_iff)
  with Cons read_encoded [OF assms(1), of f c "cs @ rest"] show ?case by simp
qed

definition one_frame_pack :: "mpval \<Rightarrow> byte list result" where
  "one_frame_pack v = (if v = MDict HEARTBEAT_FRAME then Inr [1] else Inl (ValueError ''unsupported''))"

definition one_frame_unpack :: "byte list \<Rightarrow> mpval result" where
  "one_frame_unpack bs = (if bs = [1] then Inr (MDict HEARTBEAT_FRAME) else Inl (ValueError ''bad''))"

lemma encode_heartbeat: "encode_frame one_frame_pack HEARTBEAT_FRAME = Inr [0, 0, 0, 1, 1]"
proof -
  have four: "LENGTH_BYTES = Suc (Suc (Suc (Suc 0)))" by (simp add: LENGTH_BYTES_def)
  show ?thesis
    unfolding encode_frame_Inr
    by (intro exI [of _ "[1]"]) (simp add: one_frame_pack_def MAX_FRAME_BYTES_def four)
qed

theorem frame_stream_roundtrip_witness:
  "read_frames one_frame_unpack (length [HEARTBEAT_FRAME, HEARTBEAT_FRAME]) ([0, 0, 0, 1, 1, 0, 0, 0, 1, 1] @ [7]) = ([HEARTBEAT_FRAME, HEARTBEAT_FRAME], [7])"
proof -
  have "msgpack_roundtrip one_frame_pack one_frame_unpack"
    by (simp add: msgpack_roundtrip_def one_frame_pack_def one_frame_unpack_def)
  moreover have "\<forall>f\<in>set [HEARTBEAT_FRAME, HEARTBEAT_FRAME]. mp_wf (MDict f) \<and> op_tagged f"
    by (simp add: HEARTBEAT_FRAME_def op_tagged_def)
  moreover have "encode_frames one_frame_pack [HEARTBEAT_FRAME, HEARTBEAT_FRAME] = Inr [0, 0, 0, 1, 1, 0, 0, 0, 1, 1]"
    by (simp add: encode_heartbeat)
  ultimately show ?thesis by (rule frame_stream_roundtrip)
qed

text \<open>
  C31. The frame cap: an encoded frame is at most the cap plus four bytes long; a frame whose
  declared length is above the cap is refused after its four header bytes with not one byte of
  its body read; and a stream that ends inside a frame, at whatever byte, raises an incomplete
  read and never yields a frame.
\<close>

theorem frame_cap_and_truncation:
  assumes "encode_frame packb f = Inr bs"
  shows "length bs \<le> LENGTH_BYTES + MAX_FRAME_BYTES \<and>
         (\<forall>k < length bs. read_frame unpackb (take k bs) = (Inl IncompleteReadError, [])) \<and>
         (\<forall>n rest. MAX_FRAME_BYTES < n \<and> n < 256 ^ LENGTH_BYTES \<longrightarrow>
            read_frame unpackb (to_bytes_big LENGTH_BYTES n @ rest) =
              (Inl (ProtocolError (''declared frame size '' @ dec n @ '' exceeds cap '' @ dec MAX_FRAME_BYTES)), rest))"
proof -
  have "length bs \<le> LENGTH_BYTES + MAX_FRAME_BYTES"
    using assms by (auto simp: encode_frame_Inr)
  then show ?thesis
    using read_truncated [OF assms] by (simp add: read_frame_def from_to_bytes_big)
qed

theorem frame_cap_and_truncation_witness:
  "read_frame one_frame_unpack (take 3 [0, 0, 0, 1, 1]) = (Inl IncompleteReadError, [])"
  by (rule frame_cap_and_truncation [OF encode_heartbeat, THEN conjunct2, THEN conjunct1, rule_format]) simp

text \<open>
  C30. Envelopes survive the wire: every delivery with its message and every replay policy reads
  back as it was written, and so does every publish result that the broker makes, accepted or
  rejected, whatever the request id.
\<close>

theorem envelopes_roundtrip:
  "delivery_from_wire (delivery_to_wire d) = Inr d \<and> message_from_wire (message_to_wire m) = Inr m \<and>
   replay_from_wire (replay_to_wire p) = Inr p \<and>
   publish_result_from_wire (publish_result_to_wire rid (publish_ok i)) = Inr (publish_ok i) \<and>
   publish_result_from_wire (publish_result_to_wire rid (publish_rejected e)) = Inr (publish_rejected e)"
  by (simp add: delivery_wire_roundtrip message_wire_roundtrip replay_wire_roundtrip
      publish_result_wire_ok publish_result_wire_rejected)

end
