(* ===== verification/Row_Order.thy ===== *)
theory Row_Order
  imports Prelude "HOL-Library.Product_Lexorder"
begin

text \<open>
  Sorting as the SQL statements ask for it: \<open>ORDER BY created_at, seq\<close> over rows that are
  already in the order of their numbers.  Both the message store and the log store use it.
\<close>

text \<open>On rows numbered in ascending order, ordering by time and number is ordering by time.\<close>

lemma insort_lex:
  assumes "sorted (map (\<lambda>r. (f r, g r)) ys)" "\<forall>y\<in>set ys. g x < (g y :: nat)"
  shows "sorted (map (\<lambda>r. (f r :: real, g r)) (insort_key f x ys))"
  using assms
  by (induction ys) (auto simp: set_insort_key less_eq_prod_def)

lemma sort_key_lex:
  assumes "sorted_wrt (<) (map g xs)"
  shows "sort_key (\<lambda>r. (f r :: real, g r :: nat)) xs = sort_key f xs"
proof -
  have sorted: "sorted (map (\<lambda>r. (f r, g r)) (sort_key f xs))"
    using assms
  proof (induction xs)
    case Nil
    then show ?case by simp
  next
    case (Cons x xs)
    then show ?case by (simp add: insort_lex)
  qed
  have inj: "inj_on (\<lambda>r. (f r, g r)) (set xs)"
    using assms strict_sorted_iff [of "map g xs"] by (auto simp: inj_on_def distinct_map)
  have dist: "distinct xs" using assms strict_sorted_iff [of "map g xs"] by (simp add: distinct_map)
  show ?thesis
  proof (rule map_sorted_distinct_set_unique [where f = "\<lambda>r. (f r, g r)"])
    show "inj_on (\<lambda>r. (f r, g r)) (set (sort_key (\<lambda>r. (f r, g r)) xs) \<union> set (sort_key f xs))"
      using inj by simp
  qed (use sorted dist inj in \<open>simp_all add: distinct_map\<close>)
qed

lemma map_filter_sort:
  assumes "\<forall>r\<in>set rows. \<exists>m. d r = Some m \<and> k m = (h r :: real)"
  shows "List.map_filter d (sort_key h rows) = sort_key k (List.map_filter d rows)"
proof -
  have insort: "List.map_filter d (insort_key h r xs) = insort_key k (the (d r)) (List.map_filter d xs)"
    if "\<forall>y\<in>set (r # xs). \<exists>m. d y = Some m \<and> k m = h y" for r xs
    using that by (induction xs) (auto simp: map_filter_simps)
  show ?thesis
    using assms
  proof (induction rows)
    case Nil
    then show ?case by (simp add: map_filter_simps)
  next
    case (Cons r rows)
    then have "\<forall>y\<in>set (r # sort_key h rows). \<exists>m. d y = Some m \<and> k m = h y" by simp
    from insort [OF this] Cons show ?case by (auto simp: map_filter_simps)
  qed
qed

text \<open>Sorting rows by a key of their entry, and the entries by that key.\<close>

lemma map_sort_key: "map f (sort_key (\<lambda>x. k (f x)) xs) = sort_key k (map f xs)"
proof -
  have "map f (insort_key (\<lambda>x. k (f x)) x ys) = insort_key k (f x) (map f ys)" for x ys
    by (induction ys) simp_all
  then show ?thesis by (induction xs) simp_all
qed

end
