(* ===== verification/SQLite.thy ===== *)
theory SQLite
  imports Durability Wire Row_Order
begin

text \<open>
  The SQLite backend (\<open>pubsub/server/durability/sqlite.py\<close>) over the connection wrapper of
  \<open>pubsub/server/_asqlite.py\<close>.  The four tables of the schema are lists of rows and each SQL
  statement of the code is a function on them.  What the code does not control are parameters
  of the connection: MessagePack (\<open>sq_packb\<close>, \<open>sq_unpackb\<close>), which statements fail
  (\<open>sq_faults\<close>, by position) and which COMMIT or ROLLBACK fails (\<open>sq_end_faults\<close>).  As SQLite
  documents, a failed statement has no effect, a failed COMMIT or ROLLBACK leaves the
  transaction open, and a BEGIN inside an open transaction is an error.  The write lock is in
  \<open>RWLock\<close>: an operation here runs while holding it.
\<close>

record msg_row =
  mr_seq :: nat
  mr_message_id :: string
  mr_topic :: string
  mr_payload :: "byte list"
  mr_extras :: "byte list"
  mr_created_at :: real
  mr_replayable :: int

record dlq_row =
  dr_seq :: nat
  dr_subscription_id :: string
  dr_attempts :: int
  dr_message :: "byte list"

text \<open>The tables, with the counters that AUTOINCREMENT keeps.\<close>

record sql_db =
  tb_topics :: "(string, int) dict"
  tb_messages :: "msg_row list"
  tb_message_seq :: nat
  tb_acks :: "(string, string) dict"
  tb_dlq :: "dlq_row list"
  tb_dlq_seq :: nat

definition empty_db :: sql_db where
  "empty_db = \<lparr>tb_topics = [], tb_messages = [], tb_message_seq = 0, tb_acks = [], tb_dlq = [], tb_dlq_seq = 0\<rparr>"

text \<open>
  The wrapper: the committed database, the working copy of an open transaction, and the number
  of reader connections (with none, reads run on the write connection).
\<close>

record sqlite =
  sq_committed :: sql_db
  sq_open :: "sql_db option"
  sq_readers :: nat
  sq_packb :: "mpval \<Rightarrow> byte list result"
  sq_unpackb :: "byte list \<Rightarrow> mpval result"
  sq_faults :: "nat \<Rightarrow> py_exn option"
  sq_end_faults :: "nat \<Rightarrow> py_exn option"
  sq_clock :: nat
  sq_closed :: bool

type_synonym 'a sql_op = "sqlite \<Rightarrow> 'a result \<times> sqlite"

section \<open>The connection wrapper\<close>

definition tick :: "sqlite \<Rightarrow> sqlite" where
  "tick c = c\<lparr>sq_clock := Suc (sq_clock c)\<rparr>"

definition closed_error :: py_exn where
  "closed_error = RuntimeError ''cannot schedule new futures after shutdown''"

text \<open>One write statement: in the open transaction, or committed at once.\<close>

definition execute :: "(sql_db \<Rightarrow> sql_db) \<Rightarrow> unit sql_op" where
  "execute f c =
     (if sq_closed c then (Inl closed_error, c)
      else case sq_faults c (sq_clock c) of
        Some e \<Rightarrow> (Inl e, tick c)
      | None \<Rightarrow>
          (Inr (), tick (case sq_open c of
             None \<Rightarrow> c\<lparr>sq_committed := f (sq_committed c)\<rparr>
           | Some db \<Rightarrow> c\<lparr>sq_open := Some (f db)\<rparr>)))"

definition fetch :: "(sql_db \<Rightarrow> 'a) \<Rightarrow> 'a sql_op" where
  "fetch f c =
     (if sq_closed c then (Inl closed_error, c)
      else case sq_faults c (sq_clock c) of
        Some e \<Rightarrow> (Inl e, tick c)
      | None \<Rightarrow>
          (Inr (f (if sq_readers c = 0 then (case sq_open c of None \<Rightarrow> sq_committed c | Some db \<Rightarrow> db)
                   else sq_committed c)), tick c))"

definition begin_tx :: "unit sql_op" where
  "begin_tx c =
     (if sq_closed c then (Inl closed_error, c)
      else case sq_faults c (sq_clock c) of
        Some e \<Rightarrow> (Inl e, tick c)
      | None \<Rightarrow>
          (case sq_open c of
             Some _ \<Rightarrow> (Inl (BackendError ''cannot start a transaction within a transaction''), tick c)
           | None \<Rightarrow> (Inr (), tick (c\<lparr>sq_open := Some (sq_committed c)\<rparr>))))"

definition commit_tx :: "unit sql_op" where
  "commit_tx c =
     (if sq_closed c then (Inl closed_error, c)
      else case sq_end_faults c (sq_clock c) of
        Some e \<Rightarrow> (Inl e, tick c)
      | None \<Rightarrow>
          (Inr (), tick (case sq_open c of
             None \<Rightarrow> c
           | Some db \<Rightarrow> c\<lparr>sq_committed := db, sq_open := None\<rparr>)))"

definition rollback_tx :: "unit sql_op" where
  "rollback_tx c =
     (if sq_closed c then (Inl closed_error, c)
      else case sq_end_faults c (sq_clock c) of
        Some e \<Rightarrow> (Inl e, tick c)
      | None \<Rightarrow> (Inr (), tick (c\<lparr>sq_open := None\<rparr>)))"

text \<open>\<open>async with transaction()\<close>: commit after the body, roll back and reraise when it raised.\<close>

definition transaction :: "unit sql_op \<Rightarrow> unit sql_op" where
  "transaction body c =
     (case begin_tx c of
        (Inl e, c1) \<Rightarrow> (Inl e, c1)
      | (Inr _, c1) \<Rightarrow>
          (case body c1 of
             (Inr _, c2) \<Rightarrow> commit_tx c2
           | (Inl e, c2) \<Rightarrow>
               (case rollback_tx c2 of
                  (Inl e', c3) \<Rightarrow> (Inl e', c3)
                | (Inr _, c3) \<Rightarrow> (Inl e, c3))))"

text \<open>\<open>execute\<close> returns \<open>lastrowid\<close> for inserts only: the statement's verb, upper-cased.\<close>

definition is_space :: "char \<Rightarrow> bool" where
  "is_space c \<longleftrightarrow> c \<in> {CHR '' '', CHR 0x09, CHR 0x0A, CHR 0x0B, CHR 0x0C, CHR 0x0D}"

definition upper :: "char \<Rightarrow> char" where
  "upper c = (let n = of_char c :: nat in if 97 \<le> n \<and> n \<le> 122 then char_of (n - 32) else c)"

definition stmt_verb :: "string \<Rightarrow> string" where
  "stmt_verb sql = map upper (takeWhile (\<lambda>c. \<not> is_space c) (dropWhile is_space sql))"

definition returns_rowid :: "string \<Rightarrow> bool" where
  "returns_rowid sql \<longleftrightarrow> stmt_verb sql = ''INSERT'' \<or> stmt_verb sql = ''REPLACE''"

section \<open>The statements\<close>

definition upsert_topic :: "string \<Rightarrow> int \<Rightarrow> sql_db \<Rightarrow> sql_db" where
  "upsert_topic topic replayable db = db\<lparr>tb_topics := dict_set topic replayable (tb_topics db)\<rparr>"

type_synonym insert_params = "string \<times> string \<times> byte list \<times> byte list \<times> real"

text \<open>\<open>_INSERT_MESSAGE\<close>: the flag is looked up inside the statement, 0 for an unknown topic.\<close>

fun insert_message :: "insert_params \<Rightarrow> sql_db \<Rightarrow> sql_db" where
  "insert_message (mid, topic, payload, extras, created) db =
     db\<lparr>tb_messages := tb_messages db @
          [\<lparr>mr_seq = Suc (tb_message_seq db), mr_message_id = mid, mr_topic = topic, mr_payload = payload,
            mr_extras = extras, mr_created_at = created,
            mr_replayable = (case dict_get (tb_topics db) topic of Some v \<Rightarrow> v | None \<Rightarrow> 0)\<rparr>],
        tb_message_seq := Suc (tb_message_seq db)\<rparr>"

definition select_messages :: "timestamp \<Rightarrow> sql_db \<Rightarrow> msg_row list" where
  "select_messages ts db =
     sort_key (\<lambda>r. (mr_created_at r, mr_seq r))
       (filter (\<lambda>r. mr_replayable r = 1 \<and> ts \<le> mr_created_at r) (tb_messages db))"

definition upsert_ack :: "string \<Rightarrow> string \<Rightarrow> sql_db \<Rightarrow> sql_db" where
  "upsert_ack sid mid db = db\<lparr>tb_acks := dict_set sid mid (tb_acks db)\<rparr>"

definition select_ack :: "string \<Rightarrow> sql_db \<Rightarrow> string option" where
  "select_ack sid db = dict_get (tb_acks db) sid"

definition insert_dlq :: "string \<Rightarrow> int \<Rightarrow> byte list \<Rightarrow> sql_db \<Rightarrow> sql_db" where
  "insert_dlq sid attempts blob db =
     db\<lparr>tb_dlq := tb_dlq db @ [\<lparr>dr_seq = Suc (tb_dlq_seq db), dr_subscription_id = sid,
          dr_attempts = attempts, dr_message = blob\<rparr>],
        tb_dlq_seq := Suc (tb_dlq_seq db)\<rparr>"

definition select_dlq :: "sql_db \<Rightarrow> dlq_row list" where
  "select_dlq db = sort_key dr_seq (tb_dlq db)"

section \<open>The backend\<close>

definition row_to_message :: "(byte list \<Rightarrow> mpval result) \<Rightarrow> msg_row \<Rightarrow> message result" where
  "row_to_message unpackb r =
     bind_result (unpackb (mr_payload r)) (\<lambda>payload.
     bind_result (bind_result (bind_result (unpackb (mr_extras r)) as_map) extras_of) (\<lambda>extras.
       Inr \<lparr>msg_id = mr_message_id r, msg_topic = mr_topic r, msg_payload = payload,
            msg_extras = extras, msg_created_at = mr_created_at r\<rparr>))"

definition row_to_dlq :: "(byte list \<Rightarrow> mpval result) \<Rightarrow> dlq_row \<Rightarrow> dlq_entry result" where
  "row_to_dlq unpackb r =
     bind_result (bind_result (bind_result (unpackb (dr_message r)) as_map) message_from_wire) (\<lambda>m.
       Inr \<lparr>dq_message = m, dq_sid = dr_subscription_id r, dq_attempts = dr_attempts r\<rparr>)"

text \<open>A list comprehension whose body may raise.\<close>

fun map_result :: "('a \<Rightarrow> 'b result) \<Rightarrow> 'a list \<Rightarrow> 'b list result" where
  "map_result f [] = Inr []"
| "map_result f (x # xs) = bind_result (f x) (\<lambda>y. bind_result (map_result f xs) (\<lambda>ys. Inr (y # ys)))"

definition sql_register_topic :: "string \<Rightarrow> bool \<Rightarrow> unit sql_op" where
  "sql_register_topic topic replayable = execute (upsert_topic topic (if replayable then 1 else 0))"

definition append_params :: "sqlite \<Rightarrow> message \<Rightarrow> insert_params result" where
  "append_params c m =
     bind_result (sq_packb c (msg_payload m)) (\<lambda>payload.
     bind_result (sq_packb c (MDict (str_keys (msg_extras m)))) (\<lambda>extras.
       Inr (msg_id m, msg_topic m, payload, extras, msg_created_at m)))"

text \<open>The body of a batch's transaction: it stops at the first insert that raises.\<close>

fun insert_batch :: "insert_params list \<Rightarrow> unit sql_op" where
  "insert_batch [] c = (Inr (), c)"
| "insert_batch (p # ps) c =
     (case execute (insert_message p) c of
        (Inl e, c') \<Rightarrow> (Inl e, c')
      | (Inr _, c') \<Rightarrow> insert_batch ps c')"

text \<open>An append when nothing else is queued: a batch of one.\<close>

definition sql_append :: "message \<Rightarrow> unit sql_op" where
  "sql_append m c =
     (case append_params c m of
        Inl e \<Rightarrow> (Inl e, c)
      | Inr p \<Rightarrow> transaction (insert_batch [p]) c)"

definition sql_read_from :: "timestamp \<Rightarrow> message list sql_op" where
  "sql_read_from ts c =
     (case fetch (select_messages ts) c of
        (Inl e, c') \<Rightarrow> (Inl e, c')
      | (Inr rows, c') \<Rightarrow> (map_result (row_to_message (sq_unpackb c)) rows, c'))"

definition sql_record_ack :: "string \<Rightarrow> string \<Rightarrow> unit sql_op" where
  "sql_record_ack sid mid = execute (upsert_ack sid mid)"

definition sql_last_acked :: "string \<Rightarrow> string option sql_op" where
  "sql_last_acked sid = fetch (select_ack sid)"

definition sql_to_dlq :: "dlq_entry \<Rightarrow> unit sql_op" where
  "sql_to_dlq e c =
     (case sq_packb c (MDict (message_to_wire (dq_message e))) of
        Inl x \<Rightarrow> (Inl x, c)
      | Inr blob \<Rightarrow> execute (insert_dlq (dq_sid e) (dq_attempts e) blob) c)"

definition sql_read_dlq :: "dlq_entry list sql_op" where
  "sql_read_dlq c =
     (case fetch select_dlq c of
        (Inl e, c') \<Rightarrow> (Inl e, c')
      | (Inr rows, c') \<Rightarrow> (map_result (row_to_dlq (sq_unpackb c)) rows, c'))"

definition sql_close :: "unit sql_op" where
  "sql_close c = (Inr (), c\<lparr>sq_closed := True\<rparr>)"

definition sqlite_backend :: "sqlite backend" where
  "sqlite_backend =
     \<lparr>be_register_topic = sql_register_topic, be_append = sql_append,
      be_read_from = sql_read_from, be_record_ack = sql_record_ack,
      be_last_acked = sql_last_acked, be_to_dlq = sql_to_dlq,
      be_read_dlq = sql_read_dlq, be_close = sql_close\<rparr>"

section \<open>What the backend holds\<close>

text \<open>
  The hypotheses on the parameters: MessagePack gives back what it packed, and COMMIT and
  ROLLBACK do not fail.  With the row numbers in order and no transaction open between the
  operations this is the invariant.
\<close>

definition seqs_ok :: "sql_db \<Rightarrow> bool" where
  "seqs_ok db \<longleftrightarrow>
     sorted_wrt (<) (map mr_seq (tb_messages db)) \<and> (\<forall>r\<in>set (tb_messages db). mr_seq r \<le> tb_message_seq db) \<and>
     sorted_wrt (<) (map dr_seq (tb_dlq db)) \<and> (\<forall>r\<in>set (tb_dlq db). dr_seq r \<le> tb_dlq_seq db)"

definition sql_inv :: "sqlite \<Rightarrow> bool" where
  "sql_inv c \<longleftrightarrow>
     msgpack_roundtrip (sq_packb c) (sq_unpackb c) \<and> (\<forall>n. sq_end_faults c n = None) \<and>
     sq_open c = None \<and> seqs_ok (sq_committed c)"

fun the_ok :: "'a result \<Rightarrow> 'a option" where
  "the_ok (Inr x) = Some x"
| "the_ok (Inl _) = None"

definition sql_retained :: "sqlite \<Rightarrow> message list" where
  "sql_retained c =
     List.map_filter (\<lambda>r. the_ok (row_to_message (sq_unpackb c) r))
       (filter (\<lambda>r. mr_replayable r = 1) (tb_messages (sq_committed c)))"

definition sql_acked :: "sqlite \<Rightarrow> string \<Rightarrow> string option" where
  "sql_acked c sid = dict_get (tb_acks (sq_committed c)) sid"

definition sql_dead :: "sqlite \<Rightarrow> dlq_entry list" where
  "sql_dead c = List.map_filter (\<lambda>r. the_ok (row_to_dlq (sq_unpackb c) r)) (tb_dlq (sq_committed c))"

definition sql_mode :: "sqlite \<Rightarrow> string \<Rightarrow> bool" where
  "sql_mode c topic \<longleftrightarrow> dict_get (tb_topics (sq_committed c)) topic = Some 1"

text \<open>The messages whose payload and extras MessagePack can carry.\<close>

definition sql_storable :: "message \<Rightarrow> bool" where
  "sql_storable m \<longleftrightarrow> mp_wf (msg_payload m) \<and> mp_wf (MDict (str_keys (msg_extras m)))"

section \<open>Reading back\<close>

lemma map_result_Inr:
  "map_result f xs = Inr ys \<Longrightarrow> ys = List.map_filter (\<lambda>x. the_ok (f x)) xs \<and> (\<forall>x\<in>set xs. the_ok (f x) \<noteq> None)"
proof (induction xs arbitrary: ys)
  case Nil
  then show ?case by (simp add: map_filter_simps)
next
  case (Cons x xs)
  then obtain y zs where "f x = Inr y" "map_result f xs = Inr zs" "ys = y # zs"
    by (auto simp: bind_result_Inr_iff)
  with Cons.IH [of zs] show ?case by (simp add: map_filter_simps)
qed

lemma row_created: "row_to_message u r = Inr m \<Longrightarrow> msg_created_at m = mr_created_at r"
  by (auto simp: row_to_message_def bind_result_Inr_iff)

lemma the_ok_Some: "the_ok r = Some x \<longleftrightarrow> r = Inr x"
  by (cases r) simp_all

lemma the_ok_None: "the_ok r \<noteq> None \<longleftrightarrow> (\<exists>x. r = Inr x)"
  by (cases r) simp_all

lemma map_filter_created:
  "List.map_filter (\<lambda>r. the_ok (row_to_message u r)) (filter (\<lambda>r. ts \<le> mr_created_at r) rows)
     = filter (\<lambda>m. ts \<le> msg_created_at m) (List.map_filter (\<lambda>r. the_ok (row_to_message u r)) rows)"
  by (induction rows) (auto simp: map_filter_simps the_ok_Some row_created split: option.split)

lemma select_messages_eq:
  assumes "seqs_ok db"
  shows "select_messages ts db = sort_key mr_created_at
     (filter (\<lambda>r. ts \<le> mr_created_at r) (filter (\<lambda>r. mr_replayable r = 1) (tb_messages db)))"
proof -
  have "sorted_wrt (<) (map mr_seq (filter P (tb_messages db)))" for P
    using assms by (simp add: seqs_ok_def sorted_wrt_map sorted_wrt_filter)
  then show ?thesis
    unfolding select_messages_def
    by (subst sort_key_lex) (simp_all add: conj_commute)
qed

lemma read_back:
  assumes "seqs_ok db" "map_result (row_to_message u) (select_messages ts db) = Inr ms"
  shows "ms = history_from ts (List.map_filter (\<lambda>r. the_ok (row_to_message u r))
           (filter (\<lambda>r. mr_replayable r = 1) (tb_messages db)))"
proof -
  let ?d = "\<lambda>r. the_ok (row_to_message u r)"
  let ?rows = "filter (\<lambda>r. ts \<le> mr_created_at r) (filter (\<lambda>r. mr_replayable r = 1) (tb_messages db))"
  have ms: "ms = List.map_filter ?d (sort_key mr_created_at ?rows)"
    and ok: "\<forall>r\<in>set ?rows. ?d r \<noteq> None"
    using map_result_Inr [OF assms(2)] unfolding select_messages_eq [OF assms(1)] set_sort by blast+
  have "\<forall>r\<in>set ?rows. \<exists>m. ?d r = Some m \<and> msg_created_at m = mr_created_at r"
    using ok by (auto simp: the_ok_Some row_created dest!: bspec)
  from map_filter_sort [OF this] show ?thesis
    by (simp only: ms history_from_def map_filter_created)
qed

section \<open>Writing\<close>

lemma stored_row:
  assumes "msgpack_roundtrip p u" "sql_storable m"
    and "p (msg_payload m) = Inr payload" "p (MDict (str_keys (msg_extras m))) = Inr extras"
  shows "row_to_message u \<lparr>mr_seq = n, mr_message_id = msg_id m, mr_topic = msg_topic m, mr_payload = payload,
           mr_extras = extras, mr_created_at = msg_created_at m, mr_replayable = v\<rparr> = Inr m"
proof -
  have "u payload = Inr (msg_payload m)" "u extras = Inr (MDict (str_keys (msg_extras m)))"
    using assms unfolding msgpack_roundtrip_def sql_storable_def by blast+
  then show ?thesis by (simp add: row_to_message_def)
qed

lemma stored_dead:
  assumes "msgpack_roundtrip p u" "sql_storable (dq_message e)"
    and "p (MDict (message_to_wire (dq_message e))) = Inr blob"
  shows "row_to_dlq u \<lparr>dr_seq = n, dr_subscription_id = dq_sid e, dr_attempts = dq_attempts e, dr_message = blob\<rparr> = Inr e"
proof -
  have "mp_wf (MDict (message_to_wire (dq_message e)))"
    using assms(2) by (simp add: message_to_wire_def sql_storable_def)
  then have "u blob = Inr (MDict (message_to_wire (dq_message e)))"
    using assms(1,3) unfolding msgpack_roundtrip_def by blast
  then show ?thesis by (simp add: row_to_dlq_def message_wire_roundtrip)
qed

text \<open>Outside a transaction a statement commits or does nothing.\<close>

lemma execute_cases:
  assumes "execute f c = (r, c')" "sq_open c = None"
  shows "(r = Inr () \<and> sq_committed c' = f (sq_committed c) \<or> (\<exists>e. r = Inl e) \<and> sq_committed c' = sq_committed c) \<and>
         sq_open c' = None \<and> sq_packb c' = sq_packb c \<and> sq_unpackb c' = sq_unpackb c \<and>
         sq_end_faults c' = sq_end_faults c"
  using assms by (auto simp: execute_def tick_def split: if_splits option.splits)

lemma fetch_cases:
  assumes "fetch f c = (r, c')" "sq_open c = None"
  shows "(r = Inr (f (sq_committed c)) \<or> (\<exists>e. r = Inl e)) \<and> sq_committed c' = sq_committed c \<and>
         sq_open c' = None \<and> sq_packb c' = sq_packb c \<and> sq_unpackb c' = sq_unpackb c \<and>
         sq_end_faults c' = sq_end_faults c"
  using assms by (auto simp: fetch_def tick_def split: if_splits option.splits)

text \<open>A batch: inside the transaction all rows so far, outside nothing, until the commit.\<close>

lemma insert_batch_open:
  assumes "insert_batch ps c = (r, c')" "sq_open c = Some db"
  shows "(r = Inr () \<longrightarrow> sq_open c' = Some (fold insert_message ps db)) \<and> (\<exists>db'. sq_open c' = Some db') \<and>
         sq_committed c' = sq_committed c \<and> sq_packb c' = sq_packb c \<and> sq_unpackb c' = sq_unpackb c \<and>
         sq_end_faults c' = sq_end_faults c \<and> sq_closed c' = sq_closed c"
  using assms
proof (induction ps arbitrary: c db)
  case Nil
  then show ?case by auto
next
  case (Cons p ps)
  obtain r1 c1 where e: "execute (insert_message p) c = (r1, c1)" by fastforce
  show ?case
  proof (cases r1)
    case (Inl x)
    with e Cons.prems show ?thesis
      by (auto simp: execute_def tick_def split: if_splits option.splits)
  next
    case (Inr u)
    then have 1: "sq_open c1 = Some (insert_message p db)" "sq_committed c1 = sq_committed c"
      "sq_packb c1 = sq_packb c" "sq_unpackb c1 = sq_unpackb c" "sq_end_faults c1 = sq_end_faults c" "sq_closed c1 = sq_closed c"
      using e Cons.prems(2) by (auto simp: execute_def tick_def split: if_splits option.splits)
    have "insert_batch ps c1 = (r, c')" using Cons.prems(1) e Inr by simp
    from Cons.IH [OF this 1(1)] 1 show ?thesis by simp
  qed
qed

lemma batch_atomic:
  assumes "transaction (insert_batch ps) c = (r, c')" "sq_open c = None" "\<forall>n. sq_end_faults c n = None"
  shows "(r = Inr () \<and> sq_committed c' = fold insert_message ps (sq_committed c) \<or>
            (\<exists>e. r = Inl e) \<and> sq_committed c' = sq_committed c) \<and>
         sq_open c' = None \<and> sq_packb c' = sq_packb c \<and> sq_unpackb c' = sq_unpackb c \<and>
         sq_end_faults c' = sq_end_faults c"
proof -
  obtain r1 c1 where b: "begin_tx c = (r1, c1)" by fastforce
  show ?thesis
  proof (cases r1)
    case (Inl e)
    with assms b show ?thesis
      by (auto simp: transaction_def begin_tx_def tick_def split: if_splits option.splits)
  next
    case (Inr u)
    then have 1: "sq_open c1 = Some (sq_committed c)" "sq_committed c1 = sq_committed c"
      "sq_packb c1 = sq_packb c" "sq_unpackb c1 = sq_unpackb c" "sq_end_faults c1 = sq_end_faults c" "\<not> sq_closed c1"
      using b assms(2) by (auto simp: begin_tx_def tick_def split: if_splits option.splits)
    obtain r2 c2 where i: "insert_batch ps c1 = (r2, c2)" by fastforce
    note 2 = insert_batch_open [OF i 1(1)]
    from assms(1,3) b Inr i 1 2 show ?thesis
      by (cases r2) (auto simp: transaction_def commit_tx_def rollback_tx_def tick_def)
  qed
qed

lemma append_cases:
  assumes "sql_append m c = (r, c')" "sq_open c = None" "\<forall>n. sq_end_faults c n = None"
  shows "(r = Inr () \<and> (\<exists>p. append_params c m = Inr p \<and> sq_committed c' = insert_message p (sq_committed c)) \<or>
            (\<exists>e. r = Inl e) \<and> sq_committed c' = sq_committed c) \<and>
         sq_open c' = None \<and> sq_packb c' = sq_packb c \<and> sq_unpackb c' = sq_unpackb c \<and>
         sq_end_faults c' = sq_end_faults c"
proof (cases "append_params c m")
  case (Inl e)
  with assms show ?thesis by (auto simp: sql_append_def)
next
  case (Inr p)
  with assms(1) have "transaction (insert_batch [p]) c = (r, c')" by (simp add: sql_append_def)
  from batch_atomic [OF this assms(2,3)] Inr show ?thesis by auto
qed

section \<open>The contract\<close>

lemma sqlite_backend_sel [simp]:
  "be_register_topic sqlite_backend = sql_register_topic" "be_append sqlite_backend = sql_append"
  "be_read_from sqlite_backend = sql_read_from" "be_record_ack sqlite_backend = sql_record_ack"
  "be_last_acked sqlite_backend = sql_last_acked" "be_to_dlq sqlite_backend = sql_to_dlq"
  "be_read_dlq sqlite_backend = sql_read_dlq" "be_close sqlite_backend = sql_close"
  by (simp_all add: sqlite_backend_def)

lemma insert_message_fields:
  "tb_topics (insert_message p db) = tb_topics db" "tb_acks (insert_message p db) = tb_acks db"
  "tb_dlq (insert_message p db) = tb_dlq db" "tb_dlq_seq (insert_message p db) = tb_dlq_seq db"
  by (cases p, simp)+

lemma seqs_insert_message: "seqs_ok db \<Longrightarrow> seqs_ok (insert_message p db)"
  by (cases p) (fastforce simp: seqs_ok_def sorted_wrt_append)

lemma seqs_insert_dlq: "seqs_ok db \<Longrightarrow> seqs_ok (insert_dlq sid n blob db)"
  by (fastforce simp: seqs_ok_def insert_dlq_def sorted_wrt_append)

lemma retained_cong:
  "sq_unpackb c' = sq_unpackb c \<Longrightarrow> tb_messages (sq_committed c') = tb_messages (sq_committed c) \<Longrightarrow>
   sql_retained c' = sql_retained c"
  by (simp add: sql_retained_def)

lemma dead_cong:
  "sq_unpackb c' = sq_unpackb c \<Longrightarrow> tb_dlq (sq_committed c') = tb_dlq (sq_committed c) \<Longrightarrow>
   sql_dead c' = sql_dead c"
  by (simp add: sql_dead_def)

lemma retained_insert:
  assumes "sql_inv c" "sql_storable m" "append_params c m = Inr p"
    and "sq_unpackb c' = sq_unpackb c" "sq_committed c' = insert_message p (sq_committed c)"
  shows "sql_retained c' =
     (if sql_mode c (msg_topic m) then sql_retained c @ [m] else sql_retained c)"
proof -
  obtain payload extras where p: "p = (msg_id m, msg_topic m, payload, extras, msg_created_at m)"
    "sq_packb c (msg_payload m) = Inr payload" "sq_packb c (MDict (str_keys (msg_extras m))) = Inr extras"
    using assms(3) by (auto simp: append_params_def bind_result_Inr_iff)
  have "msgpack_roundtrip (sq_packb c) (sq_unpackb c)" using assms(1) by (simp add: sql_inv_def)
  note row = stored_row [OF this assms(2) p(2,3)]
  show ?thesis
    using assms(4,5) row
    by (auto simp: p(1) sql_retained_def sql_mode_def map_filter_def split: option.splits)
qed

lemma inv_static:
  assumes "sql_inv c" "sq_open c' = None" "sq_packb c' = sq_packb c" "sq_unpackb c' = sq_unpackb c"
    and "sq_end_faults c' = sq_end_faults c" "seqs_ok (sq_committed c')"
  shows "sql_inv c'"
  using assms by (simp add: sql_inv_def)

lemma sql_append_contract:
  assumes "sql_inv c" "sql_append m c = (r, c')"
  shows "sql_inv c' \<and> sql_acked c' = sql_acked c \<and> sql_dead c' = sql_dead c \<and> sql_mode c' = sql_mode c \<and>
         (is_ok r \<or> sql_retained c' = sql_retained c) \<and>
         (sql_storable m \<longrightarrow> is_ok r \<longrightarrow>
            sql_retained c' = (if sql_mode c (msg_topic m) then sql_retained c @ [m] else sql_retained c))"
proof -
  have c: "sq_open c = None" "\<forall>n. sq_end_faults c n = None" "seqs_ok (sq_committed c)"
    using assms(1) by (simp_all add: sql_inv_def)
  note cases = append_cases [OF assms(2) c(1,2)]
  have "seqs_ok (sq_committed c')" using cases c(3) seqs_insert_message by auto
  then have "sql_inv c'" using cases inv_static [OF assms(1)] by blast
  moreover have "sql_acked c' = sql_acked c" "sql_mode c' = sql_mode c" "sql_dead c' = sql_dead c"
    using cases insert_message_fields
    by (auto simp only: sql_acked_def sql_mode_def fun_eq_iff intro!: dead_cong)
  moreover have "sql_retained c' = sql_retained c" if "\<not> is_ok r"
    using cases that by (auto intro!: retained_cong)
  moreover have "sql_retained c' = (if sql_mode c (msg_topic m) then sql_retained c @ [m] else sql_retained c)"
    if "sql_storable m" "is_ok r"
  proof -
    from that(2) cases obtain p where p: "append_params c m = Inr p"
      "sq_committed c' = insert_message p (sq_committed c)" "sq_unpackb c' = sq_unpackb c" by fastforce
    show ?thesis by (rule retained_insert [OF assms(1) that(1) p(1) p(3) p(2)])
  qed
  ultimately show ?thesis by blast
qed

lemma sql_dlq_contract:
  assumes "sql_inv c" "sql_to_dlq e c = (r, c')"
  shows "sql_inv c' \<and> sql_retained c' = sql_retained c \<and> sql_acked c' = sql_acked c \<and> sql_mode c' = sql_mode c \<and>
         (is_ok r \<or> sql_dead c' = sql_dead c) \<and>
         (sql_storable (dq_message e) \<longrightarrow> is_ok r \<longrightarrow> sql_dead c' = sql_dead c @ [e])"
proof (cases "sq_packb c (MDict (message_to_wire (dq_message e)))")
  case (Inl x)
  with assms show ?thesis by (auto simp: sql_to_dlq_def)
next
  case (Inr blob)
  with assms(2) have ex: "execute (insert_dlq (dq_sid e) (dq_attempts e) blob) c = (r, c')"
    by (simp add: sql_to_dlq_def)
  have c: "sq_open c = None" "seqs_ok (sq_committed c)" "msgpack_roundtrip (sq_packb c) (sq_unpackb c)"
    using assms(1) by (simp_all add: sql_inv_def)
  note cases = execute_cases [OF ex c(1)]
  have "seqs_ok (sq_committed c')" using cases c(2) seqs_insert_dlq by auto
  then have "sql_inv c'" using cases inv_static [OF assms(1)] by blast
  moreover have "sql_dead c' = sql_dead c @ [e]" if "sql_storable (dq_message e)" "is_ok r"
    using cases that stored_dead [OF c(3) that(1) Inr]
    by (auto simp: sql_dead_def insert_dlq_def map_filter_def)
  ultimately show ?thesis
    using cases
    by (auto simp: sql_acked_def sql_mode_def fun_eq_iff insert_dlq_def intro!: dead_cong retained_cong)
qed

lemma sql_upsert_contract:
  assumes "sql_inv c" "execute f c = (r, c')"
    and "\<And>db. tb_messages (f db) = tb_messages db \<and> tb_message_seq (f db) = tb_message_seq db \<and>
              tb_dlq (f db) = tb_dlq db \<and> tb_dlq_seq (f db) = tb_dlq_seq db"
  shows "sql_inv c' \<and> sql_retained c' = sql_retained c \<and> sql_dead c' = sql_dead c \<and>
         (r = Inr () \<and> sq_committed c' = f (sq_committed c) \<or> (\<exists>e. r = Inl e) \<and> sq_committed c' = sq_committed c)"
proof -
  have c: "sq_open c = None" "seqs_ok (sq_committed c)" using assms(1) by (simp_all add: sql_inv_def)
  note cases = execute_cases [OF assms(2) c(1)]
  have "seqs_ok (sq_committed c')" using cases c(2) assms(3) by (auto simp: seqs_ok_def)
  then have "sql_inv c'" using cases inv_static [OF assms(1)] by blast
  then show ?thesis
    using cases assms(3) by (auto intro!: retained_cong dead_cong)
qed

lemma sql_fetch_contract:
  assumes "sql_inv c" "fetch f c = (r, c')"
  shows "sql_inv c' \<and> sql_retained c' = sql_retained c \<and> sql_dead c' = sql_dead c \<and> sql_acked c' = sql_acked c \<and>
         sql_mode c' = sql_mode c \<and> (r = Inr (f (sq_committed c)) \<or> (\<exists>e. r = Inl e)) \<and> sq_unpackb c' = sq_unpackb c"
proof -
  have c: "sq_open c = None" using assms(1) by (simp add: sql_inv_def)
  note cases = fetch_cases [OF assms(2) c]
  have "sql_inv c'" using cases inv_static [OF assms(1)] assms(1) by (simp add: sql_inv_def)
  then show ?thesis
    using cases by (simp add: sql_acked_def sql_mode_def fun_eq_iff retained_cong dead_cong)
qed

lemma sql_read_contract:
  assumes "sql_inv c" "sql_read_from ts c = (r, c')"
  shows "sql_inv c' \<and> sql_retained c' = sql_retained c \<and> sql_dead c' = sql_dead c \<and> sql_acked c' = sql_acked c \<and>
         (\<forall>ms. r = Inr ms \<longrightarrow> ms = history_from ts (sql_retained c))"
proof -
  obtain r1 c1 where f: "fetch (select_messages ts) c = (r1, c1)" by fastforce
  note fetch = sql_fetch_contract [OF assms(1) f]
  have c': "c' = c1" "\<forall>ms. r = Inr ms \<longrightarrow> (\<exists>rows. r1 = Inr rows \<and> map_result (row_to_message (sq_unpackb c)) rows = Inr ms)"
    using assms(2) f by (auto simp: sql_read_from_def split: sum.splits)
  have "seqs_ok (sq_committed c)" using assms(1) by (simp add: sql_inv_def)
  then show ?thesis
    using fetch c' read_back [of "sq_committed c" "sq_unpackb c" ts] by (auto simp: sql_retained_def)
qed

lemma sql_read_dlq_contract:
  assumes "sql_inv c" "sql_read_dlq c = (r, c')"
  shows "sql_inv c' \<and> sql_retained c' = sql_retained c \<and> sql_dead c' = sql_dead c \<and> sql_acked c' = sql_acked c \<and>
         (\<forall>es. r = Inr es \<longrightarrow> es = sql_dead c)"
proof -
  obtain r1 c1 where f: "fetch select_dlq c = (r1, c1)" by fastforce
  note fetch = sql_fetch_contract [OF assms(1) f]
  have c': "c' = c1" "\<forall>es. r = Inr es \<longrightarrow> (\<exists>rows. r1 = Inr rows \<and> map_result (row_to_dlq (sq_unpackb c)) rows = Inr es)"
    using assms(2) f by (auto simp: sql_read_dlq_def split: sum.splits)
  have "sorted (map dr_seq (tb_dlq (sq_committed c)))"
    using assms(1) by (simp add: sql_inv_def seqs_ok_def strict_sorted_iff)
  then have "select_dlq (sq_committed c) = tb_dlq (sq_committed c)"
    by (simp add: select_dlq_def sort_key_id_if_sorted)
  then show ?thesis
    using fetch c' map_result_Inr [of "row_to_dlq (sq_unpackb c)"] by (auto simp: sql_dead_def)
qed

lemma is_ok_iff: "is_ok r \<longleftrightarrow> (\<exists>x. r = Inr x)"
  by (cases r) simp_all

interpretation sq: retaining_backend sqlite_backend sql_inv sql_retained sql_acked sql_dead sql_storable sql_mode
proof (unfold_locales, unfold sqlite_backend_sel)
  fix c c' r t b
  assume "sql_inv c" "sql_register_topic t b c = (r, c')"
  with sql_upsert_contract [of c "upsert_topic t (if b then 1 else 0)" r c']
  show "sql_inv c' \<and> sql_retained c' = sql_retained c \<and> sql_acked c' = sql_acked c \<and> sql_dead c' = sql_dead c"
    by (auto simp: sql_register_topic_def upsert_topic_def sql_acked_def fun_eq_iff)
next
  fix c c' r m
  assume "sql_inv c" "sql_append m c = (r, c')"
  note con = sql_append_contract [OF this]
  from con show "sql_inv c' \<and> sql_acked c' = sql_acked c \<and> sql_dead c' = sql_dead c" by blast
  from con show "sql_mode c' = sql_mode c" by blast
  from con show "sql_retained c' = sql_retained c \<or> sql_retained c' = sql_retained c @ [m]" if "sql_storable m"
    using that by (auto split: if_splits)
next
  fix c c' m x
  assume "sql_inv c" "sql_append m c = (Inl x, c')"
  from sql_append_contract [OF this] show "sql_retained c' = sql_retained c" by simp
next
  fix c c' m u
  assume "sql_inv c" "sql_storable m" "sql_append m c = (Inr u, c')"
  with sql_append_contract [of c m "Inr u" c']
  show "sql_retained c' = (if sql_mode c (msg_topic m) then sql_retained c @ [m] else sql_retained c)" by simp
next
  fix c c' ts rm
  assume "sql_inv c" "sql_read_from ts c = (rm, c')"
  from sql_read_contract [OF this]
  show "sql_inv c' \<and> sql_retained c' = sql_retained c \<and> sql_acked c' = sql_acked c \<and> sql_dead c' = sql_dead c" by blast
next
  fix c c' ts ms
  assume "sql_inv c" "sql_read_from ts c = (Inr ms, c')"
  from sql_read_contract [OF this] show "ms = history_from ts (sql_retained c)" by blast
next
  fix c c' sid mid r
  assume ack: "sql_inv c" "sql_record_ack sid mid c = (r, c')"
  with sql_upsert_contract [of c "upsert_ack sid mid" r c']
  have con: "sql_inv c' \<and> sql_retained c' = sql_retained c \<and> sql_dead c' = sql_dead c \<and>
      (r = Inr () \<and> sq_committed c' = upsert_ack sid mid (sq_committed c) \<or>
       (\<exists>e. r = Inl e) \<and> sq_committed c' = sq_committed c)"
    by (simp add: sql_record_ack_def upsert_ack_def)
  then have acked: "r = Inr () \<and> sql_acked c' = (sql_acked c)(sid \<mapsto> mid) \<or>
      (\<exists>e. r = Inl e) \<and> sql_acked c' = sql_acked c"
    by (auto simp: sql_acked_def upsert_ack_def dict_simps fun_eq_iff)
  with con show "sql_inv c' \<and> sql_retained c' = sql_retained c \<and> sql_dead c' = sql_dead c \<and>
      (sql_acked c' = sql_acked c \<or> sql_acked c' = (sql_acked c)(sid \<mapsto> mid))" by blast
  from con show "sql_mode c' = sql_mode c" by (auto simp: sql_mode_def upsert_ack_def fun_eq_iff)
next
  fix c c' sid mid u
  assume "sql_inv c" "sql_record_ack sid mid c = (Inr u, c')"
  with sql_upsert_contract [of c "upsert_ack sid mid" "Inr u" c']
  show "sql_acked c' = (sql_acked c)(sid \<mapsto> mid)"
    by (simp add: sql_record_ack_def upsert_ack_def sql_acked_def dict_simps fun_eq_iff)
next
  fix c c' sid ra
  assume "sql_inv c" "sql_last_acked sid c = (ra, c')"
  with sql_fetch_contract [of c "select_ack sid" ra c']
  show "sql_inv c' \<and> sql_retained c' = sql_retained c \<and> sql_acked c' = sql_acked c \<and> sql_dead c' = sql_dead c"
    by (simp add: sql_last_acked_def)
next
  fix c c' sid a
  assume "sql_inv c" "sql_last_acked sid c = (Inr a, c')"
  with sql_fetch_contract [of c "select_ack sid" "Inr a" c'] show "a = sql_acked c sid"
    by (simp add: sql_last_acked_def select_ack_def sql_acked_def)
next
  fix c c' e r
  assume "sql_inv c" "sql_to_dlq e c = (r, c')"
  note con = sql_dlq_contract [OF this]
  from con show "sql_inv c' \<and> sql_retained c' = sql_retained c \<and> sql_acked c' = sql_acked c" by blast
  from con show "sql_mode c' = sql_mode c" by blast
  from con show "sql_dead c' = sql_dead c \<or> sql_dead c' = sql_dead c @ [e]" if "sql_storable (dq_message e)"
    using that by blast
next
  fix c c' e u
  assume "sql_inv c" "sql_storable (dq_message e)" "sql_to_dlq e c = (Inr u, c')"
  with sql_dlq_contract [of c e "Inr u" c'] show "sql_dead c' = sql_dead c @ [e]" by simp
next
  fix c c' rd
  assume "sql_inv c" "sql_read_dlq c = (rd, c')"
  from sql_read_dlq_contract [OF this]
  show "sql_inv c' \<and> sql_retained c' = sql_retained c \<and> sql_acked c' = sql_acked c \<and> sql_dead c' = sql_dead c" by blast
next
  fix c c' es
  assume "sql_inv c" "sql_read_dlq c = (Inr es, c')"
  from sql_read_dlq_contract [OF this] show "es = sql_dead c" by blast
next
  fix c c' t b u
  assume "sql_inv c" "sql_register_topic t b c = (Inr u, c')"
  with sql_upsert_contract [of c "upsert_topic t (if b then 1 else 0)" "Inr u" c']
  show "sql_mode c' = (sql_mode c)(t := b)"
    by (auto simp: sql_register_topic_def upsert_topic_def sql_mode_def dict_simps fun_eq_iff)
qed

section \<open>Properties\<close>

text \<open>A connection on an empty database where no statement fails.\<close>

definition sqlite_start :: "(mpval \<Rightarrow> byte list result) \<Rightarrow> (byte list \<Rightarrow> mpval result) \<Rightarrow> nat \<Rightarrow> sqlite" where
  "sqlite_start packb unpackb readers =
     \<lparr>sq_committed = empty_db, sq_open = None, sq_readers = readers, sq_packb = packb, sq_unpackb = unpackb,
      sq_faults = (\<lambda>_. None), sq_end_faults = (\<lambda>_. None), sq_clock = 0, sq_closed = False\<rparr>"

text \<open>
  A fragment of MessagePack for the examples: nil, the empty map, and a map from the integer 1
  to nil, which packs but which the decoder refuses under its default of string keys only.
\<close>

fun tiny_pack :: "mpval \<Rightarrow> byte list result" where
  "tiny_pack MNone = Inr [0xC0]"
| "tiny_pack (MDict []) = Inr [0x80]"
| "tiny_pack (MDict [(MInt i, MNone)]) = (if i = 1 then Inr [0x81, 0x01, 0xC0] else Inl (ValueError ''unsupported''))"
| "tiny_pack _ = Inl (ValueError ''unsupported'')"

definition tiny_unpack :: "byte list \<Rightarrow> mpval result" where
  "tiny_unpack bs =
     (if bs = [0xC0] then Inr MNone else if bs = [0x80] then Inr (MDict [])
      else Inl (ValueError ''int is not allowed for map key when strict_map_key=True''))"

definition tiny_sqlite :: sqlite where
  "tiny_sqlite = sqlite_start tiny_pack tiny_unpack 4"

definition tiny_message :: message where
  "tiny_message = \<lparr>msg_id = ''1'', msg_topic = ''a'', msg_payload = MNone, msg_extras = [], msg_created_at = 5\<rparr>"

definition int_key_message :: message where
  "int_key_message = \<lparr>msg_id = ''2'', msg_topic = ''a'', msg_payload = MDict [(MInt 1, MNone)], msg_extras = [],
     msg_created_at = 6\<rparr>"

lemma tiny_roundtrip: "msgpack_roundtrip tiny_pack tiny_unpack"
  unfolding msgpack_roundtrip_def
proof (intro allI impI)
  fix v bs assume "mp_wf v" "tiny_pack v = Inr bs"
  then show "tiny_unpack bs = Inr v"
    by (cases v rule: tiny_pack.cases) (auto simp: tiny_unpack_def split: if_splits)
qed

lemma tiny_inv: "sql_inv tiny_sqlite"
  by (simp add: sql_inv_def tiny_sqlite_def sqlite_start_def tiny_roundtrip seqs_ok_def empty_db_def)

lemma tiny_storable: "sql_storable tiny_message"
  by (simp add: sql_storable_def tiny_message_def str_keys_def)

text \<open>
  C20. SQLite and memory agree: if MessagePack round-trips and COMMIT and ROLLBACK do not fail,
  then for any sequence of writes of storable messages that SQLite accepts, starting from an
  empty database, a replay read, the last ack of any subscription and the dead letters - where
  SQLite answers at all - are exactly what the in-memory backend gives after the same writes.
\<close>

theorem sqlite_agrees_with_memory:
  assumes "sql_inv c" "sq_committed c = empty_db" "list_all sq.write_ok ws"
    and "run_writes sqlite_backend ws c = (Inr u, c')" "run_writes memory_backend ws mem_init = (Inr v, d')"
  shows "(sql_read_from ts c' = (Inr ms, c1) \<longrightarrow> mem_read_from ts d' = (Inr ms, d')) \<and>
         (sql_last_acked sid c' = (Inr a, c2) \<longrightarrow> mem_last_acked sid d' = (Inr a, d')) \<and>
         (sql_read_dlq c' = (Inr es, c3) \<longrightarrow> mem_read_dlq d' = (Inr es, d'))"
proof -
  have inv: "sql_inv c'" and view: "sq.view c' = fold abs_write ws (sq.view c)"
    using sq.run_writes_view [OF assms(1,3,4)] by blast+
  have "sq.view c = abs_empty"
    by (simp add: sq.view_def abs_empty_def sql_mode_def sql_retained_def sql_acked_def sql_dead_def assms(2)
        empty_db_def map_filter_simps fun_eq_iff)
  moreover have "mem.view d' = fold abs_write ws abs_empty"
    using mem.run_writes_view [OF _ _ assms(5)] by (simp add: mem_view_init)
  ultimately have "sq.view c' = mem.view d'" using view by simp
  then have same: "sql_retained c' = ms_history d'" "sql_acked c' = dict_get (ms_acks d')" "sql_dead c' = ms_dlq d'"
    by (simp_all add: sq.view_def mem.view_def)
  show ?thesis
    using sq.read_result [OF inv, of ts ms c1] sq.last_acked_result [OF inv, of sid a c2]
      sq.read_dlq_result [OF inv, of es c3] same
    by (simp add: mem_read_from_def mem_last_acked_def mem_read_dlq_def history_from_def)
qed

lemma tiny_writes:
  "\<exists>c'. run_writes sqlite_backend [RegisterTopic ''a'' True, Append tiny_message] tiny_sqlite = (Inr (), c') \<and>
        sql_read_from 5 c' = (Inr [tiny_message], c'\<lparr>sq_clock := Suc (sq_clock c')\<rparr>)"
  by (simp add: run_write_def sql_register_topic_def sql_append_def append_params_def tiny_message_def
      tiny_sqlite_def sqlite_start_def execute_def tick_def transaction_def begin_tx_def commit_tx_def
      upsert_topic_def empty_db_def str_keys_def sql_read_from_def fetch_def select_messages_def
      row_to_message_def tiny_unpack_def)

theorem sqlite_agrees_with_memory_witness:
  "\<exists>d'. mem_read_from 5 d' = (Inr [tiny_message], d')"
proof -
  let ?ws = "[RegisterTopic ''a'' True, Append tiny_message]"
  obtain c' where run: "run_writes sqlite_backend ?ws tiny_sqlite = (Inr (), c')"
    and read: "sql_read_from 5 c' = (Inr [tiny_message], c'\<lparr>sq_clock := Suc (sq_clock c')\<rparr>)"
    using tiny_writes by blast
  obtain d' where mem: "run_writes memory_backend ?ws mem_init = (Inr (), d')"
    using mem_writes_total by blast
  have "sq_committed tiny_sqlite = empty_db" by (simp add: tiny_sqlite_def sqlite_start_def)
  moreover have "list_all sq.write_ok ?ws" using tiny_storable by simp
  ultimately show ?thesis
    using sqlite_agrees_with_memory [OF tiny_inv _ _ run mem] read by blast
qed

text \<open>
  Batches are atomic: if COMMIT and ROLLBACK do not fail, committing a batch of rows either
  succeeds with all of them in the table, in order and numbered consecutively, or raises with
  the committed database exactly as before; in both cases no transaction is left open.
\<close>

theorem batch_is_atomic:
  assumes "transaction (insert_batch ps) c = (r, c')" "sq_open c = None" "\<forall>n. sq_end_faults c n = None"
  shows "sq_open c' = None \<and>
         (case r of Inr _ \<Rightarrow> sq_committed c' = fold insert_message ps (sq_committed c)
                  | Inl _ \<Rightarrow> sq_committed c' = sq_committed c)"
  using batch_atomic [OF assms] by auto

theorem batch_is_atomic_witness:
  "sq_open (snd (transaction (insert_batch [(''1'', ''a'', [], [], 0)]) tiny_sqlite)) = None"
proof -
  obtain r c' where t: "transaction (insert_batch [(''1'', ''a'', [], [], 0)]) tiny_sqlite = (r, c')" by fastforce
  have "sq_open tiny_sqlite = None" "\<forall>n. sq_end_faults tiny_sqlite n = None"
    by (simp_all add: tiny_sqlite_def sqlite_start_def)
  from batch_is_atomic [OF t this] t show ?thesis by simp
qed

text \<open>
  A failed COMMIT wedges the writer: it leaves the transaction open, and as long as one is
  open every further append raises and leaves it open, while an ack that is reported as
  recorded is not committed.
\<close>

theorem failed_commit_wedges_writer:
  assumes "commit_tx c = (Inl e, c1)" "sq_open c = Some db"
  shows "sq_open c1 = Some db \<and> sq_committed c1 = sq_committed c \<and>
         \<not> is_ok (fst (sql_append m c1)) \<and> sq_open (snd (sql_append m c1)) = Some db \<and>
         sq_committed (snd (sql_append m c1)) = sq_committed c \<and>
         sq_committed (snd (sql_record_ack sid mid c1)) = sq_committed c"
proof -
  have c1: "sq_open c1 = Some db" "sq_committed c1 = sq_committed c"
    using assms by (auto simp: commit_tx_def tick_def split: if_splits option.splits)
  have "\<exists>x c2. begin_tx c1 = (Inl x, c2) \<and> sq_open c2 = Some db \<and> sq_committed c2 = sq_committed c"
    using c1 by (auto simp: begin_tx_def tick_def split: option.split)
  then show ?thesis
    using c1
    by (auto simp: sql_append_def transaction_def sql_record_ack_def execute_def tick_def
        split: sum.splits option.splits)
qed

definition busy_commit :: sqlite where
  "busy_commit = snd (begin_tx (tiny_sqlite\<lparr>sq_end_faults := (\<lambda>_. Some (BackendError ''database is locked''))\<rparr>))"

theorem failed_commit_wedges_writer_witness:
  "\<not> is_ok (fst (sql_append tiny_message (snd (commit_tx busy_commit))))"
proof -
  have "\<exists>c1. commit_tx busy_commit = (Inl (BackendError ''database is locked''), c1)"
    and "sq_open busy_commit = Some empty_db"
    by (simp_all add: busy_commit_def commit_tx_def begin_tx_def tiny_sqlite_def sqlite_start_def tick_def)
  then show ?thesis using failed_commit_wedges_writer by fastforce
qed

lemma map_result_fails: "x \<in> set xs \<Longrightarrow> f x = Inl e \<Longrightarrow> \<not> is_ok (map_result f xs)"
proof (induction xs)
  case (Cons y ys)
  then show ?case
    by (cases "f y"; cases "map_result f ys") auto
qed simp

text \<open>
  One payload can poison every replay: when a retained row does not decode, each replay read
  that reaches back to it raises, whatever else is stored.  MessagePack packs a map with an
  integer key and by default refuses to unpack it, so an accepted publish of such a payload is
  enough.
\<close>

theorem undecodable_row_poisons_replay:
  assumes "row \<in> set (tb_messages (sq_committed c))" "mr_replayable row = 1" "ts \<le> mr_created_at row"
    and "row_to_message (sq_unpackb c) row = Inl e" "sq_open c = None"
  shows "\<not> is_ok (fst (sql_read_from ts c))"
proof -
  have "row \<in> set (select_messages ts (sq_committed c))"
    using assms(1-3) by (simp add: select_messages_def)
  from map_result_fails [OF this, of "row_to_message (sq_unpackb c)", OF assms(4)] assms(5)
  show ?thesis by (auto simp: sql_read_from_def fetch_def split: option.split)
qed

theorem undecodable_row_poisons_replay_witness:
  "is_ok (fst (run_writes sqlite_backend [RegisterTopic ''a'' True, Append int_key_message] tiny_sqlite)) \<and>
   \<not> is_ok (fst (sql_read_from 0 (snd (run_writes sqlite_backend
       [RegisterTopic ''a'' True, Append int_key_message] tiny_sqlite))))"
proof -
  let ?ws = "[RegisterTopic ''a'' True, Append int_key_message]"
  obtain c row where run: "run_writes sqlite_backend ?ws tiny_sqlite = (Inr (), c)"
    and row: "tb_messages (sq_committed c) = [row]" "mr_replayable row = 1" "0 \<le> mr_created_at row"
      "row_to_message (sq_unpackb c) row = Inl (ValueError ''int is not allowed for map key when strict_map_key=True'')"
      "sq_open c = None"
    by (simp add: run_write_def sql_register_topic_def sql_append_def append_params_def int_key_message_def
        tiny_sqlite_def sqlite_start_def execute_def tick_def transaction_def begin_tx_def commit_tx_def
        upsert_topic_def empty_db_def str_keys_def row_to_message_def tiny_unpack_def)
  have "row \<in> set (tb_messages (sq_committed c))" using row(1) by simp
  from undecodable_row_poisons_replay [OF this row(2-5)] run show ?thesis by simp
qed

end
