(* ===== verification/GroupCommit.thy ===== *)
theory GroupCommit
  imports SQLite
begin

text \<open>
  Group commit (\<open>SQLiteDurability.append\<close> and \<open>_drain_appends\<close>): appends queue their row and
  wait on a future; the drain task takes the whole queue and commits it in one transaction,
  then resolves every future of the batch with the outcome.  Futures are numbered in the order
  of the appends; \<open>gc_params\<close> remembers their rows and \<open>gc_done\<close>, which is not in the code,
  the numbers of the rows that were committed.  A batch is one step: what the transaction awaits
  in between can only append to the new, empty queue or wait for the write lock.
\<close>

record group =
  gc_db :: sqlite
  gc_queue :: "(insert_params \<times> nat) list"
  gc_futures :: "unit result option list"
  gc_params :: "insert_params list"
  gc_done :: "nat list"

text \<open>\<open>append\<close> up to \<open>await fut\<close>; packing may raise before anything is queued.\<close>

definition gc_append :: "message \<Rightarrow> group \<Rightarrow> nat result \<times> group" where
  "gc_append m g =
     (case append_params (gc_db g) m of
        Inl e \<Rightarrow> (Inl e, g)
      | Inr p \<Rightarrow>
          (let fut = length (gc_futures g) in
           (Inr fut, g\<lparr>gc_queue := gc_queue g @ [(p, fut)], gc_futures := gc_futures g @ [None],
                       gc_params := gc_params g @ [p]\<rparr>)))"

text \<open>\<open>if not fut.done(): fut.set_result / set_exception\<close>.\<close>

definition resolve :: "unit result \<Rightarrow> nat \<Rightarrow> unit result option list \<Rightarrow> unit result option list" where
  "resolve r fut fs = (if fs ! fut = None then fs[fut := Some r] else fs)"

text \<open>One iteration of the loop of \<open>_drain_appends\<close>.\<close>

definition gc_drain :: "group \<Rightarrow> group" where
  "gc_drain g =
     (let batch = gc_queue g;
          (r, db) = transaction (insert_batch (map fst batch)) (gc_db g)
      in g\<lparr>gc_db := db, gc_queue := [],
           gc_futures := fold (resolve r) (map snd batch) (gc_futures g),
           gc_done := (case r of Inr _ \<Rightarrow> gc_done g @ map snd batch | Inl _ \<Rightarrow> gc_done g)\<rparr>)"

text \<open>A publisher that is cancelled cancels its future; the queued row stays.\<close>

definition gc_cancel :: "nat \<Rightarrow> group \<Rightarrow> group" where
  "gc_cancel fut g =
     (if gc_futures g ! fut = None
      then g\<lparr>gc_futures := (gc_futures g)[fut := Some (Inl CancelledError)]\<rparr> else g)"

text \<open>\<open>close\<close> after the drain task is done: what is still queued fails.\<close>

definition gc_close :: "group \<Rightarrow> group" where
  "gc_close g =
     g\<lparr>gc_queue := [],
       gc_futures := fold (resolve (Inl (RuntimeError ''durability backend closed''))) (map snd (gc_queue g)) (gc_futures g),
       gc_db := snd (sql_close (gc_db g))\<rparr>"

inductive gc_step :: "group \<Rightarrow> group \<Rightarrow> bool" where
  gc_append: "gc_append m g = (Inr fut, g') \<Longrightarrow> gc_step g g'"
| gc_drain: "gc_queue g \<noteq> [] \<Longrightarrow> gc_step g (gc_drain g)"
| gc_cancel: "fut < length (gc_futures g) \<Longrightarrow> gc_step g (gc_cancel fut g)"
| gc_other:
    "execute f (gc_db g) = (r, db) \<Longrightarrow> \<forall>d. tb_messages (f d) = tb_messages d \<Longrightarrow>
     gc_step g (g\<lparr>gc_db := db\<rparr>)"
| gc_close: "gc_step g (gc_close g)"

definition gc_start :: "group \<Rightarrow> bool" where
  "gc_start g \<longleftrightarrow>
     (\<forall>n. sq_end_faults (gc_db g) n = None) \<and> sq_open (gc_db g) = None \<and>
     tb_messages (sq_committed (gc_db g)) = [] \<and>
     gc_queue g = [] \<and> gc_futures g = [] \<and> gc_params g = [] \<and> gc_done g = []"

section \<open>The invariant\<close>

definition row_params :: "msg_row \<Rightarrow> insert_params" where
  "row_params r = (mr_message_id r, mr_topic r, mr_payload r, mr_extras r, mr_created_at r)"

lemma rows_insert_batch:
  "map row_params (tb_messages (fold insert_message ps db)) = map row_params (tb_messages db) @ ps"
proof (induction ps arbitrary: db)
  case Nil
  then show ?case by simp
next
  case (Cons p ps)
  have "map row_params (tb_messages (insert_message p db)) = map row_params (tb_messages db) @ [p]"
    by (cases p) (simp add: row_params_def)
  with Cons show ?case by simp
qed

text \<open>
  One future: unanswered only while queued; succeeded only when committed; failed with any
  error but a cancellation only when neither.
\<close>

fun future_ok :: "bool \<Rightarrow> bool \<Rightarrow> unit result option \<Rightarrow> bool" where
  "future_ok committed queued None = queued"
| "future_ok committed queued (Some (Inr u)) = committed"
| "future_ok committed queued (Some (Inl e)) = (e = CancelledError \<or> \<not> committed \<and> \<not> queued)"

definition futures_ok :: "nat list \<Rightarrow> nat list \<Rightarrow> unit result option list \<Rightarrow> bool" where
  "futures_ok fin queued fs \<longleftrightarrow>
     sorted_wrt (<) (fin @ queued) \<and> set (fin @ queued) \<subseteq> {..<length fs} \<and>
     (\<forall>i < length fs. future_ok (i \<in> set fin) (i \<in> set queued) (fs ! i))"

definition gc_inv :: "group \<Rightarrow> bool" where
  "gc_inv g \<longleftrightarrow>
     (\<forall>n. sq_end_faults (gc_db g) n = None) \<and> sq_open (gc_db g) = None \<and>
     length (gc_params g) = length (gc_futures g) \<and>
     (\<forall>p\<in>set (gc_queue g). fst p = gc_params g ! snd p) \<and>
     futures_ok (gc_done g) (map snd (gc_queue g)) (gc_futures g) \<and>
     map row_params (tb_messages (sq_committed (gc_db g))) = map ((!) (gc_params g)) (gc_done g)"

lemma length_fold_resolve [simp]: "length (fold (resolve r) is fs) = length fs"
  by (induction "is" arbitrary: fs) (auto simp: resolve_def)

lemma fold_resolve_nth:
  "distinct is \<Longrightarrow> \<forall>i\<in>set is. i < length fs \<Longrightarrow> j < length fs \<Longrightarrow>
   fold (resolve r) is fs ! j = (if j \<in> set is \<and> fs ! j = None then Some r else fs ! j)"
proof (induction "is" arbitrary: fs)
  case Nil
  then show ?case by simp
next
  case (Cons i "is")
  have "length (resolve r i fs) = length fs" by (simp add: resolve_def)
  with Cons show ?case by (auto simp: resolve_def nth_list_update)
qed

lemma sorted_wrt_less_distinct: "sorted_wrt (<) (xs :: nat list) \<Longrightarrow> distinct xs"
  by (simp add: strict_sorted_iff)

lemma futures_append:
  assumes "futures_ok fin q fs"
  shows "futures_ok fin (q @ [length fs]) (fs @ [None])"
proof -
  have "sorted_wrt (<) (fin @ q @ [length fs])"
    using assms unfolding futures_ok_def append_assoc [symmetric] sorted_wrt_append [of _ _ "[length fs]"] by auto
  moreover have "future_ok (i \<in> set fin) (i \<in> set (q @ [length fs])) ((fs @ [None]) ! i)"
    if "i < Suc (length fs)" for i
    using assms that by (cases "i = length fs") (auto simp: futures_ok_def nth_append)
  ultimately show ?thesis
    using assms by (auto simp: futures_ok_def)
qed

lemma future_resolved:
  "future_ok c q v \<Longrightarrow> future_ok (c \<or> q) False (if q \<and> v = None then Some (Inr ()) else v)"
  "future_ok c q v \<Longrightarrow> \<not> (c \<and> q) \<Longrightarrow> future_ok c False (if q \<and> v = None then Some (Inl e) else v)"
  by (cases "(c, q, v)" rule: future_ok.cases, auto)+

lemma futures_resolve:
  assumes "futures_ok fin q fs"
  shows "futures_ok (fin @ q) [] (fold (resolve (Inr ())) q fs)"
    and "futures_ok fin [] (fold (resolve (Inl e)) q fs)"
proof -
  have q: "distinct q" "\<forall>i\<in>set q. i < length fs" "set fin \<inter> set q = {}"
    using assms sorted_wrt_less_distinct [of "fin @ q"] by (auto simp: futures_ok_def)
  have s: "sorted_wrt (<) (fin @ q)" "set (fin @ q) \<subseteq> {..<length fs}" "sorted_wrt (<) fin"
    using assms by (simp_all add: futures_ok_def sorted_wrt_append)
  have each: "future_ok (i \<in> set fin) (i \<in> set q) (fs ! i)" if "i < length fs" for i
    using assms that by (simp add: futures_ok_def)
  have nth: "fold (resolve r) q fs ! j = (if j \<in> set q \<and> fs ! j = None then Some r else fs ! j)"
    if "j < length fs" for r j
    using fold_resolve_nth [OF q(1,2) that] .
  have "future_ok (i \<in> set (fin @ q)) (i \<in> set []) (fold (resolve (Inr ())) q fs ! i)" if "i < length fs" for i
    using future_resolved(1) [OF each [OF that]] nth [OF that] by simp
  with s show "futures_ok (fin @ q) [] (fold (resolve (Inr ())) q fs)" by (simp add: futures_ok_def)
  have "future_ok (i \<in> set fin) (i \<in> set []) (fold (resolve (Inl e)) q fs ! i)" if "i < length fs" for i
  proof -
    have "\<not> (i \<in> set fin \<and> i \<in> set q)" using q(3) by auto
    from future_resolved(2) [OF each [OF that] this] show ?thesis by (simp add: nth [OF that])
  qed
  with s show "futures_ok fin [] (fold (resolve (Inl e)) q fs)" by (simp add: futures_ok_def)
qed

lemma futures_cancel:
  "futures_ok fin q fs \<Longrightarrow> futures_ok fin q (fs[i := Some (Inl CancelledError)])"
  by (cases "i < length fs") (simp_all add: futures_ok_def nth_list_update)

lemma gc_inv_append: "gc_inv g \<Longrightarrow> gc_append m g = (Inr fut, g') \<Longrightarrow> gc_inv g'"
proof -
  assume inv: "gc_inv g" and app: "gc_append m g = (Inr fut, g')"
  obtain p where g': "g' = g\<lparr>gc_queue := gc_queue g @ [(p, length (gc_futures g))],
      gc_futures := gc_futures g @ [None], gc_params := gc_params g @ [p]\<rparr>"
    using app by (auto simp: gc_append_def Let_def split: sum.splits)
  have bound: "\<forall>i\<in>set (gc_done g) \<union> snd ` set (gc_queue g). i < length (gc_params g)"
    using inv by (auto simp: gc_inv_def futures_ok_def)
  then have "map ((!) (gc_params g @ [p])) (gc_done g) = map ((!) (gc_params g)) (gc_done g)"
    "\<forall>x\<in>set (gc_queue g). (gc_params g @ [p]) ! snd x = gc_params g ! snd x"
    by (auto simp: nth_append)
  moreover have "(gc_params g @ [p]) ! length (gc_futures g) = p"
    using inv by (simp add: gc_inv_def nth_append)
  ultimately show "gc_inv g'"
    using inv futures_append [of "gc_done g" "map snd (gc_queue g)" "gc_futures g"]
    by (simp add: g' gc_inv_def)
qed

lemma gc_inv_drain:
  assumes "gc_inv g"
  shows "gc_inv (gc_drain g)"
proof -
  obtain r db where t: "transaction (insert_batch (map fst (gc_queue g))) (gc_db g) = (r, db)" by fastforce
  have c: "sq_open (gc_db g) = None" "\<forall>n. sq_end_faults (gc_db g) n = None"
    using assms by (simp_all add: gc_inv_def)
  note atomic = batch_atomic [OF t c]
  have rows: "map fst (gc_queue g) = map ((!) (gc_params g)) (map snd (gc_queue g))"
    using assms by (simp add: gc_inv_def)
  have f: "futures_ok (gc_done g) (map snd (gc_queue g)) (gc_futures g)" using assms by (simp add: gc_inv_def)
  have eq: "gc_drain g = g\<lparr>gc_db := db, gc_queue := [],
      gc_futures := fold (resolve r) (map snd (gc_queue g)) (gc_futures g),
      gc_done := (case r of Inr _ \<Rightarrow> gc_done g @ map snd (gc_queue g) | Inl _ \<Rightarrow> gc_done g)\<rparr>"
    by (simp add: gc_drain_def Let_def t)
  show ?thesis
  proof (cases r)
    case (Inl e)
    with atomic assms futures_resolve(2) [OF f, of e] show ?thesis
      by (simp add: eq gc_inv_def)
  next
    case (Inr u)
    with atomic assms futures_resolve(1) [OF f] rows show ?thesis
      by (simp add: eq gc_inv_def rows_insert_batch)
  qed
qed

lemma gc_inv_step: "gc_inv g \<Longrightarrow> gc_step g h \<Longrightarrow> gc_inv h"
proof (erule gc_step.cases, goal_cases)
  case (1 m g fut g')
  then show ?case using gc_inv_append by simp
next
  case (2 g)
  then show ?case using gc_inv_drain by simp
next
  case (3 fut g)
  then show ?case
    using futures_cancel [of "gc_done g" "map snd (gc_queue g)" "gc_futures g" fut]
    by (simp add: gc_inv_def gc_cancel_def)
next
  case (4 f g r db)
  then have "sq_open (gc_db g) = None" by (simp add: gc_inv_def)
  from execute_cases [OF 4(4) this] 4 show ?case by (auto simp: gc_inv_def)
next
  case (5 g)
  then show ?case
    using futures_resolve(2) [of "gc_done g" "map snd (gc_queue g)" "gc_futures g"]
    by (simp add: gc_inv_def gc_close_def sql_close_def)
qed

lemma gc_inv_start: "gc_start g \<Longrightarrow> gc_inv g"
  by (simp add: gc_start_def gc_inv_def futures_ok_def)

interpretation gc: invariant_system gc_start gc_step gc_inv
  by unfold_locales (blast intro: gc_inv_start gc_inv_step)+

section \<open>Properties\<close>

text \<open>
  C21. Group commit keeps the publish contract: in every state reachable by any interleaving of
  appends, batch commits, cancelled publishers, other statements and the close, provided COMMIT
  and ROLLBACK do not fail, the committed message rows are exactly the rows of some appends in
  the order they were made; every append that was told it succeeded is among them; and one
  that is not yet answered is still queued.  An append that got any error but its own
  cancellation is not among them.
\<close>

theorem group_commit_contract:
  assumes "reach gc_start gc_step g"
  shows "map row_params (tb_messages (sq_committed (gc_db g))) = map ((!) (gc_params g)) (gc_done g) \<and>
         sorted_wrt (<) (gc_done g) \<and>
         (\<forall>i < length (gc_futures g).
            (gc_futures g ! i = Some (Inr ()) \<longrightarrow> i \<in> set (gc_done g)) \<and>
            (gc_futures g ! i = None \<longrightarrow> (gc_params g ! i, i) \<in> set (gc_queue g)) \<and>
            (\<forall>e. gc_futures g ! i = Some (Inl e) \<longrightarrow> e \<noteq> CancelledError \<longrightarrow> i \<notin> set (gc_done g)))"
proof -
  have inv: "gc_inv g" using assms by (rule gc.reachable_inv)
  then have f: "futures_ok (gc_done g) (map snd (gc_queue g)) (gc_futures g)" by (simp add: gc_inv_def)
  have "(gc_params g ! i, i) \<in> set (gc_queue g)" if "i < length (gc_futures g)" "gc_futures g ! i = None" for i
  proof -
    have "i \<in> snd ` set (gc_queue g)" using f that by (fastforce simp: futures_ok_def)
    then obtain p where "p \<in> set (gc_queue g)" "snd p = i" by auto
    then show ?thesis using inv unfolding gc_inv_def by (metis prod.collapse)
  qed
  moreover have "i \<in> set (gc_done g)" if "i < length (gc_futures g)" "gc_futures g ! i = Some (Inr ())" for i
    using f that by (fastforce simp: futures_ok_def)
  moreover have "i \<notin> set (gc_done g)"
    if "i < length (gc_futures g)" "gc_futures g ! i = Some (Inl e)" "e \<noteq> CancelledError" for i e
    using f that by (fastforce simp: futures_ok_def)
  moreover have "sorted_wrt (<) (gc_done g)" using f by (simp add: futures_ok_def sorted_wrt_append)
  ultimately show ?thesis using inv by (simp add: gc_inv_def)
qed

text \<open>One append, committed.\<close>

definition gc_demo_start :: group where
  "gc_demo_start = \<lparr>gc_db = tiny_sqlite, gc_queue = [], gc_futures = [], gc_params = [], gc_done = []\<rparr>"

definition gc_demo :: group where
  "gc_demo = gc_drain (snd (gc_append tiny_message gc_demo_start))"

theorem group_commit_contract_witness:
  "gc_futures gc_demo = [Some (Inr ())] \<and> gc_done gc_demo = [0] \<and>
   map row_params (tb_messages (sq_committed (gc_db gc_demo))) = map ((!) (gc_params gc_demo)) [0]"
proof -
  have "reach gc_start gc_step gc_demo_start"
    by (rule reach_init)
      (simp add: gc_start_def gc_demo_start_def tiny_sqlite_def sqlite_start_def empty_db_def)
  moreover have "is_ok (fst (gc_append tiny_message gc_demo_start))" by code_simp
  then obtain fut g where app: "gc_append tiny_message gc_demo_start = (Inr fut, g)"
    by (metis is_ok.elims(2) prod.collapse)
  ultimately have r: "reach gc_start gc_step g" by (blast intro: reach_step gc_append)
  have "length (gc_queue (snd (gc_append tiny_message gc_demo_start))) = 1" by code_simp
  then have "gc_queue g \<noteq> []" using app by auto
  from reach_step [OF r gc_drain [OF this]] have "reach gc_start gc_step gc_demo"
    using app by (simp add: gc_demo_def)
  from group_commit_contract [OF this]
  have "map row_params (tb_messages (sq_committed (gc_db gc_demo))) = map ((!) (gc_params gc_demo)) (gc_done gc_demo)"
    by blast
  moreover have "gc_done gc_demo = [0]" "gc_futures gc_demo = [Some (Inr ())]" by code_simp+
  ultimately show ?thesis by simp
qed

end
