(* ===== verification/Writer.thy ===== *)
theory Writer
  imports Prelude
begin

text \<open>
  The write side of \<open>AsyncSQLite\<close> (\<open>pubsub/server/_asqlite.py\<close>) with its worker thread: a
  coroutine submits a statement to the writer's single-worker executor (\<open>_Conn.run\<close>) and awaits
  it under the write lock.  Cancelling the coroutine withdraws a statement the worker has not
  started, but not one that runs: that one finishes with nobody waiting for it.  The lock itself
  is the subject of \<open>RWLock\<close>; here it is the task that holds it and the place where it is.
  Whether a statement raises is decided when the worker ends it, except that a BEGIN inside a
  transaction always does; one that raises leaves the transaction as it is, a COMMIT or ROLLBACK
  included.
\<close>

section \<open>The writer and its worker\<close>

text \<open>\<open>Single\<close> is a statement outside a transaction, which commits itself.\<close>

datatype job = Begin | Stmt | Single | Commit | Rollback

datatype place = Beginning | Inside | InStmt | Ending job | Writing

record wconn =
  wc_holder :: "(nat \<times> place) option"
  wc_queue :: "(bool \<times> nat \<times> job) list"
  wc_busy :: bool
  wc_tx :: bool
  wc_ran :: "(nat \<times> job \<times> bool) list"

definition wconn_init :: wconn where
  "wconn_init = \<lparr>wc_holder = None, wc_queue = [], wc_busy = False, wc_tx = False, wc_ran = []\<rparr>"

text \<open>\<open>_Conn.run\<close>: the entry says whether somebody waits, for which task it is, and what it does.\<close>

definition run_on :: "nat \<Rightarrow> job \<Rightarrow> wconn \<Rightarrow> wconn" where
  "run_on t j s = s\<lparr>wc_queue := wc_queue s @ [(True, t, j)]\<rparr>"

definition at_place :: "(nat \<times> place) option \<Rightarrow> wconn \<Rightarrow> wconn" where
  "at_place h s = s\<lparr>wc_holder := h\<rparr>"

text \<open>\<open>_Transaction.__aenter__\<close>, \<open>_write\<close> and \<open>_Transaction.__aexit__\<close>, up to the wait for the worker.\<close>

definition enter_tx :: "nat \<Rightarrow> wconn \<Rightarrow> wconn" where
  "enter_tx t s = (if wc_holder s = None then run_on t Begin (at_place (Some (t, Beginning)) s) else s)"

definition db_write :: "nat \<Rightarrow> wconn \<Rightarrow> wconn" where
  "db_write t s =
     (if wc_holder s = Some (t, Inside) then run_on t Stmt (at_place (Some (t, InStmt)) s)
      else if wc_holder s = None then run_on t Single (at_place (Some (t, Writing)) s)
      else s)"

definition exit_tx :: "nat \<Rightarrow> bool \<Rightarrow> wconn \<Rightarrow> wconn" where
  "exit_tx t ok s =
     (if wc_holder s = Some (t, Inside)
      then (let j = (if ok then Commit else Rollback) in run_on t j (at_place (Some (t, Ending j)) s))
      else s)"

fun effect :: "job \<Rightarrow> bool \<Rightarrow> bool" where
  "effect Begin tx = True"
| "effect Commit tx = False"
| "effect Rollback tx = False"
| "effect _ tx = tx"

text \<open>After the wait: a BEGIN that worked opens the body, anything else but a statement of the body releases the lock.\<close>

fun resumed :: "nat \<Rightarrow> job \<Rightarrow> bool \<Rightarrow> (nat \<times> place) option" where
  "resumed t Begin ok = (if ok then Some (t, Inside) else None)"
| "resumed t Stmt ok = Some (t, Inside)"
| "resumed t _ ok = None"

definition worker_starts :: "wconn \<Rightarrow> wconn" where
  "worker_starts s = (if wc_queue s = [] then s else s\<lparr>wc_busy := True\<rparr>)"

definition worker_ends :: "bool \<Rightarrow> wconn \<Rightarrow> wconn" where
  "worker_ends raised s =
     (case wc_queue s of
        [] \<Rightarrow> s
      | (awaited, t, j) # q \<Rightarrow>
          if \<not> wc_busy s then s
          else (let ok = (\<not> raised \<and> (j \<noteq> Begin \<or> \<not> wc_tx s));
                    s1 = s\<lparr>wc_queue := q, wc_busy := False, wc_tx := (if ok then effect j (wc_tx s) else wc_tx s),
                           wc_ran := wc_ran s @ [(t, j, wc_tx s)]\<rparr>
                in if awaited then at_place (resumed t j ok) s1 else s1))"

text \<open>
  The cancelled coroutine withdraws its statement, or leaves it to the worker that runs it; then
  the handlers around the wait run.
\<close>

definition withdraw :: "wconn \<Rightarrow> wconn" where
  "withdraw s =
     s\<lparr>wc_queue :=
         (case wc_queue s of
            (True, t, j) # q \<Rightarrow> if wc_busy s then (False, t, j) # q else q
          | e # q \<Rightarrow> e # filter (\<lambda>e. \<not> fst e) q
          | [] \<Rightarrow> [])\<rparr>"

definition cancel_task :: "nat \<Rightarrow> wconn \<Rightarrow> wconn" where
  "cancel_task t s =
     (case wc_holder s of
        None \<Rightarrow> s
      | Some (t', p) \<Rightarrow>
          if t' \<noteq> t then s
          else case p of
                 Inside \<Rightarrow> exit_tx t False s
               | InStmt \<Rightarrow> exit_tx t False (at_place (Some (t, Inside)) (withdraw s))
               | _ \<Rightarrow> at_place None (withdraw s))"

datatype waction = Enter nat | Write nat | Exit nat bool | WorkerStarts | WorkerEnds bool | CancelTask nat

fun wact :: "waction \<Rightarrow> wconn \<Rightarrow> wconn" where
  "wact (Enter t) s = enter_tx t s"
| "wact (Write t) s = db_write t s"
| "wact (Exit t ok) s = exit_tx t ok s"
| "wact WorkerStarts s = worker_starts s"
| "wact (WorkerEnds raised) s = worker_ends raised s"
| "wact (CancelTask t) s = cancel_task t s"


section \<open>The invariant\<close>






lemmas writer_defs = enter_tx_def db_write_def exit_tx_def run_on_def at_place_def worker_starts_def worker_ends_def
  withdraw_def cancel_task_def Let_def













section \<open>Properties\<close>



definition wrun :: "waction list \<Rightarrow> wconn \<Rightarrow> wconn" where
  "wrun xs s = fold wact xs s"

text \<open>
  A cancellation during BEGIN leaves a transaction open: the worker runs the BEGIN to its end
  although the coroutine has gone and released the write lock.  From then on every other
  transaction fails at its own BEGIN, however many are tried, and nothing ends the open one.
\<close>

theorem cancelled_begin_wedges_writer:
  assumes "wc_holder s = Some (t, Beginning)" "wc_queue s = [(True, t, Begin)]" "wc_busy s" "\<not> wc_tx s"
  shows "wc_holder (wrun ([CancelTask t, WorkerEnds False] @ concat (map (\<lambda>t'. [Enter t', WorkerStarts, WorkerEnds False]) ts)) s) = None \<and>
         wc_tx (wrun ([CancelTask t, WorkerEnds False] @ concat (map (\<lambda>t'. [Enter t', WorkerStarts, WorkerEnds False]) ts)) s)"
proof -
  let ?stuck = "\<lambda>s. wc_holder s = None \<and> wc_queue s = [] \<and> \<not> wc_busy s \<and> wc_tx s"
  have "?stuck (wrun [CancelTask t, WorkerEnds False] s)" using assms by (simp add: wrun_def writer_defs)
  moreover have "?stuck (wrun (concat (map (\<lambda>t'. [Enter t', WorkerStarts, WorkerEnds False]) ts)) s')" if "?stuck s'" for s'
    using that by (induction ts arbitrary: s') (simp_all add: wrun_def writer_defs)
  ultimately show ?thesis by (simp add: wrun_def)
qed

theorem cancelled_begin_wedges_writer_witness:
  "wc_tx (wrun [Enter 1, WorkerStarts, CancelTask 1, WorkerEnds False, Enter 2, WorkerStarts, WorkerEnds False] wconn_init)"
proof -
  let ?s = "wrun [Enter 1, WorkerStarts] wconn_init"
  have "wc_holder ?s = Some (1, Beginning)" "wc_queue ?s = [(True, 1, Begin)]" "wc_busy ?s" "\<not> wc_tx ?s"
    by (simp_all add: wrun_def writer_defs wconn_init_def)
  from cancelled_begin_wedges_writer [OF this, of "[2]"] show ?thesis by (simp add: wrun_def)
qed

text \<open>The condition on the ends is needed: one that raises releases the lock with the transaction open.\<close>

theorem failed_end_leaves_transaction_open:
  assumes "wc_holder s = Some (t, Ending j)" "wc_queue s = [(True, t, j)]" "wc_busy s" "wc_tx s" "j = Commit \<or> j = Rollback"
  shows "wc_holder (worker_ends True s) = None \<and> wc_tx (worker_ends True s)"
  using assms by (auto simp: writer_defs)


end
