(* ===== verification/LogSetup.thy ===== *)
theory LogSetup
  imports Prelude
begin

text \<open>
  The logging set-up (\<open>pubsub/shared/log.py\<close>): whether a stream takes colours, the colour
  formatter around the library's formatter, and the handlers of the package's logger.  The
  environment and the terminal are arguments; the formatters of the logging library are
  parameters.  Handlers are shared objects in a heap.
\<close>

section \<open>Colours\<close>

record terminal =
  tm_env :: "string \<Rightarrow> string option"
  tm_isatty :: bool
  tm_platform :: string
  tm_dockerenv :: bool
  tm_cgroup :: "string list option"

text \<open>\<open>s in line\<close> for strings.\<close>

fun py_in :: "string \<Rightarrow> string \<Rightarrow> bool" where
  "py_in s [] \<longleftrightarrow> s = []"
| "py_in s (c # cs) \<longleftrightarrow> take (length s) (c # cs) = s \<or> py_in s cs"

definition is_docker :: "terminal \<Rightarrow> bool" where
  "is_docker t \<longleftrightarrow>
     (if tm_dockerenv t then True
      else case tm_cgroup t of None \<Rightarrow> False | Some ls \<Rightarrow> list_ex (py_in ''docker'') ls)"

definition env_flag :: "terminal \<Rightarrow> string \<Rightarrow> bool" where
  "env_flag t name \<longleftrightarrow> tm_env t name = Some ''1''"

definition in_env :: "terminal \<Rightarrow> string \<Rightarrow> bool" where
  "in_env t name \<longleftrightarrow> \<not> Option.is_none (tm_env t name)"

definition stream_supports_colour :: "terminal \<Rightarrow> bool" where
  "stream_supports_colour t \<longleftrightarrow>
     (if env_flag t ''NO_COLOUR'' \<or> env_flag t ''NO_COLOR'' then False
      else if env_flag t ''FORCE_COLOUR'' \<or> env_flag t ''FORCE_COLOR'' then True
      else if in_env t ''PYCHARM_HOSTED'' \<or> tm_env t ''TERM_PROGRAM'' = Some ''vscode'' then tm_isatty t
      else if tm_platform t \<noteq> ''win32'' then tm_isatty t \<or> is_docker t
      else tm_isatty t \<and> (in_env t ''ANSICON'' \<or> in_env t ''WT_SESSION''))"

definition ESC :: char where "ESC = CHR 0x1B"

definition LEVEL_COLOURS :: "(int \<times> string) list" where
  "LEVEL_COLOURS =
     [(10, ESC # ''[40;1m''), (20, ESC # ''[34;1m''), (30, ESC # ''[33;1m''), (40, ESC # ''[31m''), (50, ESC # ''[41m'')]"

definition format_of :: "string \<Rightarrow> string" where
  "format_of colour =
     ESC # ''[30;1m%(asctime)s'' @ ESC # ''[0m '' @ colour @ ''%(levelname)-8s'' @ ESC # ''[0m '' @
     ESC # ''[35m%(name)s'' @ ESC # ''[0m %(message)s''"

definition FORMATS :: "(int, string) dict" where
  "FORMATS = map (\<lambda>(level, colour). (level, format_of colour)) LEVEL_COLOURS"

text \<open>The format of a level; an unknown level has the one of DEBUG.\<close>

definition format_for :: "int \<Rightarrow> string" where
  "format_for level =
     (case dict_get FORMATS level of Some f \<Rightarrow> f | None \<Rightarrow> (case dict_get FORMATS 10 of Some f \<Rightarrow> f | None \<Rightarrow> []))"

text \<open>
  \<open>ColourFormatter.format\<close> over a record with an optional exception and the cached text of it.
  \<open>fmt\<close> is the library's \<open>Formatter.format\<close>, which may cache the text in the record, \<open>fmt_exc\<close> its
  \<open>formatException\<close>.
\<close>

record 'x log_rec =
  rc_levelno :: int
  rc_exc_info :: "'x option"
  rc_exc_text :: "string option"

definition colour_format ::
    "(string \<Rightarrow> 'x log_rec \<Rightarrow> string result \<times> 'x log_rec) \<Rightarrow> (string \<Rightarrow> 'x \<Rightarrow> string) \<Rightarrow> 'x log_rec \<Rightarrow>
     string result \<times> 'x log_rec" where
  "colour_format fmt fmt_exc r =
     (let f = format_for (rc_levelno r); prior = rc_exc_text r;
          r1 = (case rc_exc_info r of
                  None \<Rightarrow> r
                | Some x \<Rightarrow> r\<lparr>rc_exc_text := Some (ESC # ''[31m'' @ fmt_exc f x @ ESC # ''[0m'')\<rparr>)
      in case fmt f r1 of
           (Inl e, r2) \<Rightarrow> (Inl e, r2)
         | (Inr out, r2) \<Rightarrow> (Inr out, r2\<lparr>rc_exc_text := prior\<rparr>))"

section \<open>The package's logger\<close>

datatype formatter = PlainFormatter | ColourFormatter | OwnFormatter string

definition make_formatter :: "terminal \<Rightarrow> formatter" where
  "make_formatter t = (if stream_supports_colour t then ColourFormatter else PlainFormatter)"

record logger =
  lo_formatters :: "formatter option list"
  lo_handlers :: "nat list"
  lo_level :: int
  lo_propagate :: bool

text \<open>\<open>addHandler\<close> and \<open>removeHandler\<close> of the logging library.\<close>

definition add_handler :: "nat \<Rightarrow> logger \<Rightarrow> logger" where
  "add_handler a s = (if a \<in> set (lo_handlers s) then s else s\<lparr>lo_handlers := lo_handlers s @ [a]\<rparr>)"

definition remove_handler :: "nat \<Rightarrow> logger \<Rightarrow> logger" where
  "remove_handler a s = s\<lparr>lo_handlers := remove1 a (lo_handlers s)\<rparr>"

definition set_formatter :: "nat \<Rightarrow> formatter \<Rightarrow> logger \<Rightarrow> logger" where
  "set_formatter a f s = s\<lparr>lo_formatters := (lo_formatters s)[a := Some f]\<rparr>"

definition configure_logging :: "int \<Rightarrow> terminal \<Rightarrow> nat option \<Rightarrow> logger \<Rightarrow> logger" where
  "configure_logging level t durable s =
     (let s1 = (fold remove_handler (lo_handlers s) s)\<lparr>lo_level := level\<rparr>;
          console = length (lo_formatters s1);
          s2 = add_handler console (set_formatter console (make_formatter t) (s1\<lparr>lo_formatters := lo_formatters s1 @ [None]\<rparr>));
          s3 = (case durable of
                  None \<Rightarrow> s2
                | Some a \<Rightarrow>
                    add_handler a (if lo_formatters s2 ! a = None then set_formatter a PlainFormatter s2 else s2))
      in s3\<lparr>lo_propagate := False\<rparr>)"

section \<open>Properties\<close>

lemma fold_remove:
  "lo_handlers (fold remove_handler xs s) = fold remove1 xs (lo_handlers s) \<and>
   lo_formatters (fold remove_handler xs s) = lo_formatters s"
  by (induction xs arbitrary: s) (simp_all add: remove_handler_def)

lemma fold_remove1_self: "fold remove1 xs xs = []"
  by (induction xs) simp_all

text \<open>What one configuration leaves, whatever handlers were there before.\<close>

lemma configured:
  fixes s :: logger
  assumes "case durable of None \<Rightarrow> True | Some a \<Rightarrow> a < length (lo_formatters s)"
    and "s' = configure_logging level t durable s"
  shows "lo_handlers s' = length (lo_formatters s) # (case durable of None \<Rightarrow> [] | Some a \<Rightarrow> [a])"
    and "lo_formatters s' =
           (case durable of
              None \<Rightarrow> lo_formatters s
            | Some a \<Rightarrow> if lo_formatters s ! a = None then (lo_formatters s)[a := Some PlainFormatter] else lo_formatters s) @
           [Some (make_formatter t)]"
    and "lo_level s' = level" "\<not> lo_propagate s'"
  using assms(1) fold_remove [of "lo_handlers s" s] fold_remove1_self [of "lo_handlers s"]
  by (auto simp: assms(2) configure_logging_def add_handler_def set_formatter_def Let_def nth_append
      list_update_append split: option.splits)

text \<open>
  Configuring the logging is idempotent: however often it is done, with whatever settings
  before, the package's logger ends with exactly one console handler, whose formatter fits the
  terminal of the last call, and the durable handler of the last call, once; the durable handler
  keeps a formatter of its own, and records are not propagated.
\<close>

theorem configure_logging_idempotent:
  assumes "case durable' of None \<Rightarrow> True | Some a \<Rightarrow> a < length (lo_formatters s)"
    and "case durable of None \<Rightarrow> True | Some a \<Rightarrow> a < length (lo_formatters s)"
    and "s' = configure_logging level t durable (configure_logging level' t' durable' s)"
  shows "lo_handlers s' = Suc (length (lo_formatters s)) # (case durable of None \<Rightarrow> [] | Some a \<Rightarrow> [a]) \<and>
         lo_formatters s' ! hd (lo_handlers s') = Some (make_formatter t) \<and>
         (\<forall>a f. durable = Some a \<and> lo_formatters s ! a = Some f \<longrightarrow> lo_formatters s' ! a = Some f) \<and>
         lo_level s' = level \<and> \<not> lo_propagate s'"
proof -
  let ?s1 = "configure_logging level' t' durable' s"
  note 1 = configured [OF assms(1), of ?s1 level' t', OF refl]
  have len: "length (lo_formatters ?s1) = Suc (length (lo_formatters s))"
    by (simp add: 1(2) split: option.split)
  have "case durable of None \<Rightarrow> True | Some a \<Rightarrow> a < length (lo_formatters ?s1)"
    using assms(2) len by (auto split: option.splits)
  note 2 = configured [OF this assms(3)]
  have keep: "lo_formatters ?s1 ! a = Some f" if "durable = Some a" "lo_formatters s ! a = Some f" for a f
    using that assms(1,2) by (auto simp: 1(2) nth_append nth_list_update split: option.splits)
  have "lo_formatters s' ! a = Some f" if "durable = Some a" "lo_formatters s ! a = Some f" for a f
    using keep [OF that] that assms(2) len by (simp add: 2(2) nth_append)
  moreover have "lo_formatters s' ! hd (lo_handlers s') = Some (make_formatter t)"
    by (simp add: 2(1,2) nth_append len split: option.split)
  ultimately show ?thesis using 2(1,3,4) len by simp
qed

definition demo_terminal :: terminal where
  "demo_terminal = \<lparr>tm_env = (\<lambda>n. if n = ''FORCE_COLOUR'' then Some ''1'' else None), tm_isatty = False,
     tm_platform = ''linux'', tm_dockerenv = False, tm_cgroup = None\<rparr>"

theorem configure_logging_idempotent_witness:
  "lo_handlers (configure_logging 20 demo_terminal (Some 0) (configure_logging 10 demo_terminal None
     \<lparr>lo_formatters = [Some (OwnFormatter ''x'')], lo_handlers = [0], lo_level = 30, lo_propagate = True\<rparr>)) = [2, 0]"
  using configure_logging_idempotent [where durable' = None and durable = "Some 0" and
    s = "\<lparr>lo_formatters = [Some (OwnFormatter ''x'')], lo_handlers = [0], lo_level = 30, lo_propagate = True\<rparr>", OF _ _ refl]
  by simp

text \<open>
  \<open>format\<close> leaves the cached text of the exception as it found it, unless the formatter raises:
  then the record keeps the coloured text, which the handlers after this one would write.
\<close>

theorem format_restores_exc_text:
  "(case colour_format fmt fmt_exc r of
      (Inr out, r') \<Rightarrow> rc_exc_text r' = rc_exc_text r
    | (Inl e, r') \<Rightarrow> (\<exists>r1. fmt (format_for (rc_levelno r)) r1 = (Inl e, r')))"
  by (auto simp: colour_format_def Let_def split: option.split prod.split sum.split)

end
