(* ===== verification/Broker_Runs.thy ===== *)
theory Broker_Runs
  imports Broker_Sys Broker_Effects
begin

text \<open>
  The broker's operations, called one after the other as a caller does, are runs of
  \<open>broker_step\<close>: what holds of every reachable broker holds whoever calls it.  The assumption on
  the random draws is needed for the broker a run ends with only, because the draws are never
  taken back (\<open>later\<close>).
\<close>

section \<open>Draws only grow\<close>

definition later :: "'d broker \<Rightarrow> 'd broker \<Rightarrow> bool" where
  "later b b' \<longleftrightarrow> bk_draws b' = bk_draws b \<and> bk_drawn b \<le> bk_drawn b'"

lemma later_refl [simp]: "later b b"
  by (simp add: later_def)

lemma later_trans [trans]: "later a b \<Longrightarrow> later b c \<Longrightarrow> later a c"
  by (simp add: later_def)

lemma later_no_collision: "later b b' \<Longrightarrow> no_collision b' \<Longrightarrow> no_collision b"
  unfolding later_def no_collision_def by (metis inj_on_subset lessThan_subset_iff)

lemma later_emit [simp]: "later b (emit e b)"
  by (simp add: later_def emit_def)

lemma later_mint [simp]: "later b (snd (mint b))"
  by (simp add: later_def mint_def)

lemma later_enqueue [simp]: "later b (snd (enqueue a d b))"
  by (simp add: later_def)

lemma later_set_reg [simp]: "later b (set_reg a reg b)"
  by (simp add: later_def set_reg_def)

lemma later_deliver: "later b (snd (deliver a m n b))"
proof -
  obtain did b1 where mi: "mint b = (did, b1)" by fastforce
  with later_mint [of b] have b1: "later b b1" by simp
  then have "later b (snd (enqueue a d b1))" "later b (set_reg a reg b1)" for d reg
    by (auto intro: later_trans)
  with mi show ?thesis by (simp add: deliver_def Let_def)
qed

lemma later_deliver_each: "later b (snd (deliver_each as m b))"
proof (induction as m b rule: deliver_each.induct)
  case (2 a as m b)
  obtain r b1 where d: "deliver a m 1 b = (r, b1)" by fastforce
  with later_deliver [of b a m 1] have "later b b1" by simp
  with 2 d show ?case by (auto split: sum.split intro: later_trans)
qed simp

lemma later_publish_begin: "later b (snd (publish_begin t p e now b))"
  by (auto simp: publish_begin_def mint_def later_def emit_def split: sum.split py_exn.split)

lemma later_publish_store: "later b (snd (publish_store m b))"
  by (simp add: publish_store_def later_def split: prod.split)

lemma later_publish_fanout: "later b (snd (publish_fanout m b))"
proof (cases "router_match (bk_regs b) (bk_router b) (msg_topic m)")
  case (Inr as)
  obtain r b1 where d: "deliver_each as m b = (r, b1)" by fastforce
  with later_deliver_each [of b as m] later_trans [OF _ later_emit] Inr show ?thesis
    by (auto simp: publish_fanout_def split: sum.split)
qed (simp add: publish_fanout_def)

lemma later_gate_pass: "later b (snd (gate_pass b))"
  by (simp add: later_def gate_pass_def)

lemma later_publish_resume: "later b (snd (publish_resume m b))"
proof -
  obtain ok b1 r2 b2 r3 b3 where s: "gate_pass b = (ok, b1)" "publish_store m b1 = (r2, b2)" "publish_fanout m b2 = (r3, b3)"
    by (metis surj_pair)
  then have "later b b1" "later b1 b2" "later b2 b3"
    using later_gate_pass [of b] later_publish_store [of b1 m] later_publish_fanout [of b2 m] by simp_all
  then show ?thesis
    using s by (auto simp: publish_resume_def split: bool.split sum.split intro: later_trans)
qed

lemma later_publish: "later b (snd (publish t p e now b))"
proof -
  obtain r b1 where s: "publish_begin t p e now b = (r, b1)" by fastforce
  then have "later b b1" using later_publish_begin [of b t p e now] by simp
  then show ?thesis
    using s by (auto simp: publish_def split: sum.split intro: later_trans later_publish_resume)
qed

lemma later_replay_history: "later b (snd (replay_history a ms b))"
proof (induction a ms b rule: replay_history.induct)
  case (2 a m ms b)
  show ?case
  proof (cases "matches_tokens (reg_tokens (bk_regs b ! a)) (msg_topic m)")
    case (Inr hit)
    obtain did b1 where mi: "mint b = (did, b1)" by fastforce
    obtain r b2 where e: "enqueue a (make_delivery (bk_regs b1 ! a) m 1 did) b1 = (r, b2)" by fastforce
    have "later b b1" "later b1 b2"
      using later_mint [of b] mi later_enqueue [of b1 a "make_delivery (bk_regs b1 ! a) m 1 did"] e by simp_all
    then have "later b b2" by (rule later_trans)
    with Inr 2 mi e show ?thesis by (cases hit) (auto split: sum.split intro: later_trans)
  qed simp
qed simp

lemma later_enqueue_each: "later b (snd (enqueue_each a ds b))"
proof (induction a ds b rule: enqueue_each.induct)
  case (2 a d ds b)
  obtain r b1 where e: "enqueue a d b = (r, b1)" by fastforce
  with later_enqueue [of b a d] have "later b b1" by simp
  with 2 e show ?case by (auto split: sum.split intro: later_trans)
qed simp

lemma later_replay_flush: "later b (snd (replay_flush a ms b))"
proof -
  obtain r1 b1 where h: "replay_history a ms b = (r1, b1)" by fastforce
  let ?b2 = "set_replaying a False b1"
  obtain r3 b3 where e: "enqueue_each a (sort_key (\<lambda>d. msg_created_at (dl_message d)) (reg_buffer (bk_regs ?b2 ! a))) ?b2 = (r3, b3)"
    by fastforce
  have 1: "later b b1" using later_replay_history [of b a ms] h by simp
  have "later b1 ?b2" by (simp add: set_replaying_def)
  moreover have "later ?b2 b3" using later_enqueue_each e by (metis snd_conv)
  ultimately have 3: "later b b3" using 1 later_trans by blast
  then have "later b (clear_buffer a b3)" by (rule later_trans) (simp add: clear_buffer_def)
  with 1 3 h e show ?thesis by (auto simp: replay_flush_def Let_def split: sum.split)
qed

lemma later_subscribe_replay: "later b (snd (subscribe_replay a h b))"
proof -
  have f: "later b' (subscribe_fail a b')" for b' by (simp add: later_def subscribe_fail_def Let_def)
  show ?thesis
  proof (cases h)
    case (Inl e)
    have "later b (set_replaying a False b)" by (simp add: set_replaying_def)
    with Inl f show ?thesis by (auto simp: subscribe_replay_def intro: later_trans)
  next
    case (Inr ms)
    obtain r b1 where "replay_flush a ms b = (r, b1)" by fastforce
    with later_replay_flush [of b a ms] f Inr show ?thesis
      by (auto simp: subscribe_replay_def split: sum.split intro: later_trans)
  qed
qed

lemma later_replay_read: "later b (snd (replay_read ts b))"
  by (simp add: replay_read_def later_def split: prod.split)

lemma later_subscribe_begin: "later b (snd (subscribe_begin sel rp b))"
  by (auto simp: subscribe_begin_def later_def mint_def set_reg_def frame_simps Let_def
      split: sum.split replay_policy.split option.split)

lemma later_subscribe: "later b (snd (subscribe sel rp b))"
proof -
  obtain r b1 where s: "subscribe_begin sel rp b = (r, b1)" by fastforce
  have 1: "later b b1" using later_subscribe_begin [of b sel rp] s by simp
  have "later b (snd (subscribe_replay a h b2))" if "replay_read ts b1 = (h, b2)" for a ts h b2
    using 1 later_replay_read [of b1 ts] that later_subscribe_replay later_trans by (metis snd_conv)
  with 1 s show ?thesis
    by (auto simp: subscribe_def split: sum.split option.split replay_policy.split prod.split)
qed

lemma later_ack: "later b (snd (ack d b))"
  by (simp add: ack_def later_def Let_def frame_simps split: prod.split)

lemma later_nack: "later b (snd (nack d b))"
  by (simp add: nack_def later_def Let_def frame_simps schedule_frame split: prod.split option.split)

lemma later_stream_unsubscribe: "later b (stream_unsubscribe a b)"
  by (simp add: stream_unsubscribe_def unsubscribe_def later_def Let_def frame_simps)

lemma later_stream_next: "later b (snd (stream_next a b))"
  by (auto simp: stream_next_def later_def Let_def set_queue_def split: option.split)

lemma later_register_topic: "later b (snd (register_topic t v b))"
  by (simp add: register_topic_def later_def split: prod.split)

lemma later_wake_task: "later b (snd (wake_task i draw b))"
  by (auto simp: wake_task_def later_def mint_def Let_def frame_simps record_retried_def record_inflight_def set_queue_def
      schedule_frame split: sum.split)

section \<open>Runs\<close>

text \<open>A run of the broker that ends well, keeping what was handed out.\<close>

definition reaches :: "'d sys \<Rightarrow> 'd sys \<Rightarrow> bool" where
  "reaches s s' \<longleftrightarrow>
     collision_free_step\<^sup>*\<^sup>* s s' \<and> sys_inv s' \<and> evolves (sy_broker s) (sy_broker s') \<and>
     set (sy_handed s) \<subseteq> set (sy_handed s')"

lemma reaches_refl: "sys_inv s \<Longrightarrow> reaches s s"
  by (simp add: reaches_def)

lemma reaches_trans [trans]: "reaches s t \<Longrightarrow> reaches t u \<Longrightarrow> reaches s u"
  unfolding reaches_def by (meson evolves_trans rtranclp_trans subset_trans)

lemma reaches_inv: "reaches s t \<Longrightarrow> sys_inv t"
  by (simp add: reaches_def)

lemma sys_inv_core: "sys_inv s \<Longrightarrow> core_inv (sy_broker s)"
  by (simp add: sys_inv_def)

lemma reaches_step:
  assumes "sys_inv s" "broker_step s t" "no_collision (sy_broker t)" "set (sy_handed s) \<subseteq> set (sy_handed t)"
  shows "reaches s t"
proof -
  have step: "collision_free_step s t" using assms(2,3) by (simp add: collision_free_step_def)
  from sys_step [OF assms(1) step] step assms(4) show ?thesis by (auto simp: reaches_def)
qed

section \<open>The operations as runs\<close>

lemma run_register_topic:
  assumes "sys_inv s" "no_collision (snd (register_topic t v (sy_broker s)))"
  shows "\<exists>s'. reaches s s' \<and> sy_broker s' = snd (register_topic t v (sy_broker s)) \<and> sy_parked s' = sy_parked s"
  using reaches_step [OF assms(1) step_register_topic] assms(2) by (metis order_refl with_broker_sel(1,2,7))

text \<open>A publisher that got through the gate, up to its reply.\<close>

definition store_fanout :: "message \<Rightarrow> ('d, publish_outcome) bk_op" where
  "store_fanout m b =
     (case publish_store m b of
        (Inl e, b2) \<Rightarrow> (Inl e, b2)
      | (Inr _, b2) \<Rightarrow>
          (case publish_fanout m b2 of
             (Inl e, b3) \<Rightarrow> (Inl e, b3)
           | (Inr r, b3) \<Rightarrow> (Inr (Published r), b3)))"

lemma publish_resume_eq:
  "publish_resume m b =
     (case gate_pass b of (False, b') \<Rightarrow> (Inr (Parked m), b') | (True, b') \<Rightarrow> store_fanout m b')"
  by (simp add: publish_resume_def store_fanout_def split: prod.split bool.split)

lemma later_store_fanout: "later b (snd (store_fanout m b))"
proof -
  obtain r2 b2 r3 b3 where s: "publish_store m b = (r2, b2)" "publish_fanout m b2 = (r3, b3)" by (metis surj_pair)
  then have "later b b2" "later b2 b3"
    using later_publish_store [of b m] later_publish_fanout [of b2 m] by simp_all
  then show ?thesis using s by (auto simp: store_fanout_def split: sum.split intro: later_trans)
qed

text \<open>Who waits at the gate after a publish.\<close>

definition parked_after :: "publish_outcome result \<Rightarrow> message list \<Rightarrow> message list" where
  "parked_after res ps = (case res of Inr (Parked m) \<Rightarrow> ps @ [m] | _ \<Rightarrow> ps)"

lemma parked_after_simps [simp]:
  "parked_after (Inl e) ps = ps" "parked_after (Inr (Published r)) ps = ps" "parked_after (Inr (Parked m)) ps = ps @ [m]"
  by (simp_all add: parked_after_def)

lemma store_fanout_not_parked: "store_fanout m b = (res, b') \<Longrightarrow> parked_after res ps = ps"
  by (auto simp: store_fanout_def split: prod.splits sum.splits)

lemma run_store_fanout:
  assumes "sys_inv s" "m \<in> set (sy_storing s)" "store_fanout m (sy_broker s) = (res, b')" "no_collision b'"
  shows "\<exists>s'. reaches s s' \<and> sy_broker s' = b' \<and> sy_parked s' = sy_parked s"
proof -
  obtain r b2 where st: "publish_store m (sy_broker s) = (r, b2)" by fastforce
  show ?thesis
  proof (cases r)
    case (Inl e)
    then have "b2 = b'" using assms(3) st by (simp add: store_fanout_def)
    let ?t = "s\<lparr>sy_broker := b2, sy_storing := remove1 m (sy_storing s)\<rparr>"
    have "broker_step s ?t" using step_append_fails [OF assms(2)] st Inl by blast
    then have "reaches s ?t" by (rule reaches_step [OF assms(1)]) (use \<open>b2 = b'\<close> assms(4) in simp_all)
    moreover have "sy_broker ?t = b'" "sy_parked ?t = sy_parked s" using \<open>b2 = b'\<close> by simp_all
    ultimately show ?thesis by blast
  next
    case (Inr u)
    obtain r3 b3 where fo: "publish_fanout m b2 = (r3, b3)" by fastforce
    have b3: "b3 = b'" using assms(3) st Inr fo by (auto simp: store_fanout_def split: sum.splits)
    have "later b2 b3" using later_publish_fanout [of b2 m] fo by simp
    then have free: "no_collision b2" using assms(4) b3 by (blast intro: later_no_collision)
    let ?t = "s\<lparr>sy_broker := b2, sy_storing := remove1 m (sy_storing s), sy_stored := sy_stored s @ [m]\<rparr>"
    have "broker_step s ?t" using step_append [OF assms(2)] st Inr by blast
    then have 1: "reaches s ?t" by (rule reaches_step [OF assms(1)]) (use free in simp_all)
    let ?u = "?t\<lparr>sy_broker := snd (publish_fanout m (sy_broker ?t)), sy_stored := remove1 m (sy_stored ?t)\<rparr>"
    have "broker_step ?t ?u" by (rule step_fanout) simp
    then have "reaches ?t ?u" by (rule reaches_step [OF reaches_inv [OF 1]]) (use fo b3 assms(4) in simp_all)
    with 1 have "reaches s ?u" by (rule reaches_trans)
    moreover have "sy_broker ?u = b'" "sy_parked ?u = sy_parked s" using fo b3 by simp_all
    ultimately show ?thesis by blast
  qed
qed

text \<open>A publisher at the gate, coming from its call or from a wait.\<close>

lemma run_at_gate:
  assumes "sys_inv s" "broker_step s (at_gate m t)" "sy_handed t = sy_handed s"
    and "publish_resume m (sy_broker t) = (res, b')" "no_collision b'"
  shows "\<exists>s'. reaches s s' \<and> sy_broker s' = b' \<and>
           sy_parked s' = parked_after res (sy_parked t)"
proof -
  obtain ok b where g: "gate_pass (sy_broker t) = (ok, b)" by fastforce
  have "later b b'"
    using assms(4) g later_store_fanout [of b m] by (cases ok) (simp_all add: publish_resume_eq)
  then have free: "no_collision b" using assms(5) by (rule later_no_collision)
  have gb: "sy_broker (at_gate m t) = b" using g by simp
  have 1: "reaches s (at_gate m t)"
    by (rule reaches_step [OF assms(1,2)]) (use gb free assms(3) in simp_all)
  show ?thesis
  proof (cases ok)
    case False
    then have "at_gate m t = t\<lparr>sy_broker := b, sy_parked := sy_parked t @ [m]\<rparr>" "res = Inr (Parked m)" "b' = b"
      using g assms(4) by (simp_all add: at_gate_def publish_resume_eq)
    with 1 gb show ?thesis by (intro exI [of _ "at_gate m t"]) simp
  next
    case True
    then have at: "at_gate m t = t\<lparr>sy_broker := b, sy_storing := sy_storing t @ [m]\<rparr>"
      and sf: "store_fanout m b = (res, b')"
      using g assms(4) by (simp_all add: at_gate_def publish_resume_eq)
    have "m \<in> set (sy_storing (at_gate m t))" "store_fanout m (sy_broker (at_gate m t)) = (res, b')"
      using at sf by simp_all
    then obtain s' where "reaches (at_gate m t) s'" "sy_broker s' = b'" "sy_parked s' = sy_parked (at_gate m t)"
      using run_store_fanout [OF reaches_inv [OF 1]] assms(5) by blast
    moreover have "sy_parked (at_gate m t) = sy_parked t" using at by simp
    ultimately show ?thesis
      using reaches_trans [OF 1] store_fanout_not_parked [OF sf] by auto
  qed
qed

lemma run_publish:
  assumes "sys_inv s" "publish topic payload extras now (sy_broker s) = (res, b')" "no_collision b'"
  shows "\<exists>s'. reaches s s' \<and> sy_broker s' = b' \<and>
           sy_parked s' = parked_after res (sy_parked s)"
proof -
  obtain r b1 where pb: "publish_begin topic payload extras now (sy_broker s) = (r, b1)" by fastforce
  consider (err) e where "r = Inl e" | (rejected) pr where "r = Inr (Inl pr)" | (msg) m where "r = Inr (Inr m)"
    by (metis sum.exhaust)
  then show ?thesis
  proof cases
    case err
    then have "b1 = sy_broker s" using pb by (auto simp: publish_begin_def mint_def split: sum.splits py_exn.splits)
    with err assms(2) pb reaches_refl [OF assms(1)] show ?thesis by (auto simp: publish_def)
  next
    case rejected
    then have b': "b' = b1" "res = Inr (Published pr)" using assms(2) pb by (simp_all add: publish_def)
    have "reaches s (with_broker s b1)"
      by (rule reaches_step [OF assms(1) step_publish_rejected]) (use pb rejected b' assms(3) in auto)
    with b' show ?thesis by (auto intro!: exI [of _ "with_broker s b1"])
  next
    case msg
    then have "publish_resume m (sy_broker (with_broker s b1)) = (res, b')" using assms(2) pb by (simp add: publish_def)
    from run_at_gate [OF assms(1) step_publish [OF pb [unfolded msg]] _ this assms(3)] show ?thesis by simp
  qed
qed

lemma run_publish_resume:
  assumes "sys_inv s" "m \<in> set (sy_parked s)" "publish_resume m (sy_broker s) = (res, b')" "no_collision b'"
  shows "\<exists>s'. reaches s s' \<and> sy_broker s' = b' \<and>
           sy_parked s' = parked_after res (remove1 m (sy_parked s))"
  using run_at_gate [OF assms(1) step_unpark [OF assms(2)], of res b'] assms(3,4) by simp

lemma run_subscribe:
  assumes "sys_inv s" "subscribe sel rp (sy_broker s) = (res, b')" "no_collision b'"
  shows "\<exists>s'. reaches s s' \<and> sy_broker s' = b' \<and> sy_parked s' = sy_parked s \<and>
           (\<forall>a. res = Inr a \<longrightarrow> a < length (bk_regs b'))"
proof -
  obtain r b1 where sb: "subscribe_begin sel rp (sy_broker s) = (r, b1)" by fastforce
  show ?thesis
  proof (cases "\<exists>a ts. r = Inr a \<and> rp = Some (FromUnixTimestamp ts)")
    case False
    then have b': "b' = b1" "res = r" using assms(2) sb
      by (auto simp: subscribe_def split: sum.splits option.splits replay_policy.splits)
    have "broker_step s (with_broker s b1)"
    proof (cases r)
      case (Inl e)
      with sb show ?thesis by (blast intro: step_subscribe_fails)
    next
      case (Inr a)
      with sb False show ?thesis
        by (intro step_subscribe_live [of sel rp s a]) (auto split: option.split replay_policy.split)
    qed
    then have "reaches s (with_broker s b1)" by (rule reaches_step [OF assms(1)]) (use b' assms(3) in simp_all)
    moreover have "\<forall>a. res = Inr a \<longrightarrow> a < length (bk_regs b')"
      using subscribe_begin_safe [OF sys_inv_core [OF assms(1)] sb] b' assms(3) by simp
    ultimately show ?thesis using b' by (auto intro!: exI [of _ "with_broker s b1"])
  next
    case True
    then obtain a ts where a: "r = Inr a" "rp = Some (FromUnixTimestamp ts)" by blast
    obtain h b2 where rd: "replay_read ts b1 = (h, b2)" by fastforce
    have fl: "subscribe_replay a h b2 = (res, b')" using assms(2) sb a rd by (simp add: subscribe_def)
    have "later b2 b'" using later_subscribe_replay [of b2 a h] fl by simp
    moreover have "later b1 b2" using later_replay_read [of b1 ts] rd by simp
    ultimately have free: "no_collision b2" "no_collision b1" using assms(3) later_no_collision by blast+
    let ?t = "s\<lparr>sy_broker := b1, sy_reading := sy_reading s @ [(a, ts)]\<rparr>"
    have "broker_step s ?t" using step_subscribe_replay sb a by blast
    then have 1: "reaches s ?t" by (rule reaches_step [OF assms(1)]) (use free in simp_all)
    let ?u = "?t\<lparr>sy_broker := b2, sy_reading := remove1 (a, ts) (sy_reading ?t), sy_flushing := sy_flushing ?t @ [(a, h)]\<rparr>"
    have "broker_step ?t ?u" by (rule step_read) (use rd in simp_all)
    then have 2: "reaches ?t ?u" by (rule reaches_step [OF reaches_inv [OF 1]]) (use free in simp_all)
    let ?v = "?u\<lparr>sy_broker := snd (subscribe_replay a h (sy_broker ?u)), sy_flushing := remove1 (a, h) (sy_flushing ?u)\<rparr>"
    have "broker_step ?u ?v" by (rule step_flush) simp
    then have 3: "reaches ?u ?v" by (rule reaches_step [OF reaches_inv [OF 2]]) (use fl assms(3) in simp_all)
    have all: "reaches s ?v" using reaches_trans [OF reaches_trans [OF 1 2] 3] .
    have "a < length (bk_regs b1)"
      using subscribe_begin_safe [OF sys_inv_core [OF assms(1)] sb free(2)] a by simp
    moreover have "length (bk_regs b1) \<le> length (bk_regs b')"
      using reaches_trans [OF 2 3] evolves_length fl unfolding reaches_def by fastforce
    moreover have "res = Inr a' \<Longrightarrow> a' = a" for a'
      using fl by (auto simp: subscribe_replay_def split: sum.splits prod.splits)
    ultimately show ?thesis using all fl by (auto intro!: exI [of _ ?v])
  qed
qed

lemma run_stream_next:
  assumes "sys_inv s" "a < length (bk_regs (sy_broker s))" "stream_next a (sy_broker s) = (r, b')" "no_collision b'"
  shows "\<exists>s'. reaches s s' \<and> sy_broker s' = b' \<and> sy_parked s' = sy_parked s \<and>
           (\<forall>d. r = Next d \<longrightarrow> d \<in> set (sy_handed s'))"
proof (cases "\<exists>d. r = Next d")
  case True
  then obtain d where d: "r = Next d" by blast
  let ?t = "s\<lparr>sy_broker := b', sy_handed := sy_handed s @ [d]\<rparr>"
  have "broker_step s ?t" using step_next assms(2,3) d by blast
  then have "reaches s ?t" by (rule reaches_step [OF assms(1)]) (use assms(4) in auto)
  then show ?thesis using d by (intro exI [of _ ?t]) simp
next
  case False
  then have "b' = sy_broker s" using assms(3) by (auto simp: stream_next_def Let_def split: if_splits option.splits)
  with False reaches_refl [OF assms(1)] show ?thesis by blast
qed

lemma run_settle:
  assumes "sys_inv s" "d \<in> set (sy_handed s)" "act = ack \<or> act = nack" "no_collision (snd (act d (sy_broker s)))"
  shows "\<exists>s'. reaches s s' \<and> sy_broker s' = snd (act d (sy_broker s)) \<and> sy_parked s' = sy_parked s"
proof -
  let ?t = "with_broker s (snd (act d (sy_broker s)))"
  have "broker_step s ?t" using assms(2,3) step_ack step_nack by blast
  then have "reaches s ?t" by (rule reaches_step [OF assms(1)]) (use assms(4) in simp_all)
  then show ?thesis by (intro exI [of _ ?t]) simp
qed

lemma run_unsubscribe:
  assumes "sys_inv s" "a < length (bk_regs (sy_broker s))" "no_collision (stream_unsubscribe a (sy_broker s))"
  shows "\<exists>s'. reaches s s' \<and> sy_broker s' = stream_unsubscribe a (sy_broker s) \<and> sy_parked s' = sy_parked s"
proof -
  let ?t = "with_broker s (stream_unsubscribe a (sy_broker s))"
  have "reaches s ?t"
    by (rule reaches_step [OF assms(1) step_unsubscribe [OF assms(2)]]) (use assms(3) in simp_all)
  then show ?thesis by (intro exI [of _ ?t]) simp
qed

lemma run_wake_task:
  assumes "sys_inv s" "i < length (bk_tasks (sy_broker s))" "no_collision (snd (wake_task i draw (sy_broker s)))"
  shows "\<exists>s'. reaches s s' \<and> sy_broker s' = snd (wake_task i draw (sy_broker s)) \<and> sy_parked s' = sy_parked s"
proof -
  let ?t = "with_broker s (snd (wake_task i draw (sy_broker s)))"
  have "reaches s ?t"
    by (rule reaches_step [OF assms(1) step_wake [OF assms(2)]]) (use assms(3) in simp_all)
  then show ?thesis by (intro exI [of _ ?t]) simp
qed

end
