(* ===== verification/Server.thy ===== *)
theory Server
  imports Broker_Runs Wire
begin

text \<open>
  The TCP server (\<open>pubsub/transport/server.py\<close>): connections that translate frames into calls of
  the shared broker.  The broker's operations run to their end inside a handler, except that a
  publish may park at the admission gate, and then the connection's reader waits with it.  A pump
  task takes one delivery per turn; an entry of \<open>cn_subs\<close> keeps the stream and how its pump stands
  (a pump without an entry has ended or was cancelled, because no id is drawn twice).  What the
  network does is an argument: the outcome of a read, and whether a write finds the connection
  lost.
\<close>

section \<open>Connections\<close>

datatype reader = Handshaking | Reading | AtGate mpval message | Stopped

datatype task = Running | Returned | Failed py_exn

record conn =
  cn_packb :: "mpval \<Rightarrow> byte list result"
  cn_subs :: "(string, nat \<times> task) dict"
  cn_inflight :: "(string, delivery) dict"
  cn_sent :: "frame list"
  cn_open :: bool
  cn_reader :: reader
  cn_heartbeat :: "task option"
  cn_last_recv :: real

definition new_conn :: "(mpval \<Rightarrow> byte list result) \<Rightarrow> real \<Rightarrow> conn" where
  "new_conn packb now =
     \<lparr>cn_packb = packb, cn_subs = [], cn_inflight = [], cn_sent = [], cn_open = True,
      cn_reader = Handshaking, cn_heartbeat = None, cn_last_recv = now\<rparr>"

text \<open>The outcome of a handler: an exception ends the reader.\<close>

type_synonym 'd handled = "unit result \<times> conn \<times> 'd broker"

definition conn_send :: "bool \<Rightarrow> frame \<Rightarrow> conn \<Rightarrow> unit result \<times> conn" where
  "conn_send lost f c =
     (case encode_frame (cn_packb c) f of
        Inl e \<Rightarrow> (Inl e, c)
      | Inr _ \<Rightarrow>
          if lost \<or> \<not> cn_open c then (Inl (ConnectionError ''Connection lost''), c)
          else (Inr (), c\<lparr>cn_sent := cn_sent c @ [f]\<rparr>))"

fun swallowed :: "py_exn \<Rightarrow> bool" where
  "swallowed (ConnectionError _) = True"
| "swallowed (RuntimeError _) = True"
| "swallowed _ = False"

definition error_frame :: "string \<Rightarrow> mpval \<Rightarrow> frame" where
  "error_frame detail rid =
     [(MStr ''op'', MStr (op_str ERROR)), (MStr ''detail'', MStr detail)] @
     (if rid = MNone then [] else [(MStr ''rid'', rid)])"

definition send_error :: "bool \<Rightarrow> string \<Rightarrow> mpval \<Rightarrow> conn \<Rightarrow> unit result \<times> conn" where
  "send_error lost detail rid c =
     (case conn_send lost (error_frame detail rid) c of
        (Inl e, c') \<Rightarrow> (if swallowed e then Inr () else Inl e, c')
      | (Inr u, c') \<Rightarrow> (Inr u, c'))"

text \<open>\<open>str(exc)\<close> of what the broker raises; cancellation is not an \<open>Exception\<close>.\<close>

fun exn_text :: "py_exn \<Rightarrow> string" where
  "exn_text (TopicError s) = s"
| "exn_text (ProtocolError s) = s"
| "exn_text (ConnectionError s) = s"
| "exn_text (RuntimeError s) = s"
| "exn_text (ValueError s) = s"
| "exn_text (KeyError s) = py_repr s"
| "exn_text (AttributeError s) = s"
| "exn_text (BackendError s) = s"
| "exn_text OverflowError = ''int too large to convert to float''"
| "exn_text _ = []"

definition is_exception :: "py_exn \<Rightarrow> bool" where
  "is_exception e \<longleftrightarrow> e \<noteq> CancelledError"

section \<open>Handlers\<close>

definition on_register :: "bool \<Rightarrow> frame \<Rightarrow> conn \<Rightarrow> 'd broker \<Rightarrow> 'd handled" where
  "on_register lost f c b =
     (let rid = get_or_none f ''rid'';
          (r, b1) = (case bind_result (item f ''topic'') as_str of
                       Inl e \<Rightarrow> (Inl e, b)
                     | Inr topic \<Rightarrow> register_topic topic (truthy (get_or_none f ''replayable'')) b)
      in case r of
           Inl e \<Rightarrow>
             if is_exception e
             then (let (s, c1) = send_error lost (''register failed: '' @ exn_text e) rid c in (s, c1, b1))
             else (Inl e, c, b1)
         | Inr _ \<Rightarrow>
             (let (s, c1) = conn_send lost [(MStr ''op'', MStr (op_str REGISTER_OK)), (MStr ''rid'', rid)] c
              in (s, c1, b1)))"

definition reply_published :: "bool \<Rightarrow> mpval \<Rightarrow> publish_outcome result \<times> 'd broker \<Rightarrow> conn \<Rightarrow> 'd handled" where
  "reply_published lost rid rb c =
     (case rb of
        (Inl e, b) \<Rightarrow> (Inl e, c, b)
      | (Inr (Parked m), b) \<Rightarrow> (Inr (), c\<lparr>cn_reader := AtGate rid m\<rparr>, b)
      | (Inr (Published r), b) \<Rightarrow>
          (let (s, c1) = conn_send lost (publish_result_to_wire rid r) (c\<lparr>cn_reader := Reading\<rparr>) in (s, c1, b)))"

definition on_publish :: "bool \<Rightarrow> timestamp \<Rightarrow> frame \<Rightarrow> conn \<Rightarrow> 'd broker \<Rightarrow> 'd handled" where
  "on_publish lost now f c b =
     (let extras = get_or_none f ''extras'' in
      case bind_result (if truthy extras then bind_result (as_map extras) extras_of else Inr []) (\<lambda>d.
             bind_result (bind_result (item f ''topic'') as_str) (\<lambda>topic. Inr (d, topic))) of
        Inl e \<Rightarrow> (Inl e, c, b)
      | Inr (d, topic) \<Rightarrow>
          reply_published lost (get_or_none f ''rid'')
            (publish topic (get_or_none f ''payload'') (Some d) now b) c)"

text \<open>The parked publish tries the gate again.\<close>

definition gate_turn :: "bool \<Rightarrow> mpval \<Rightarrow> message \<Rightarrow> conn \<Rightarrow> 'd broker \<Rightarrow> 'd handled" where
  "gate_turn lost rid m c b = reply_published lost rid (publish_resume m b) c"

text \<open>
  A selector that is no string fails inside \<open>subscribe\<close>, at the call of its \<open>split\<close>; a bytes object
  has one, which wants bytes (its \<open>TypeError\<close> is a \<open>ValueError\<close> here: only the text goes on).
\<close>

fun type_name :: "mpval \<Rightarrow> string" where
  "type_name (MStr _) = ''str''"
| "type_name (MInt _) = ''int''"
| "type_name (MFloat _) = ''float''"
| "type_name (MBool _) = ''bool''"
| "type_name MNone = ''NoneType''"
| "type_name (MBytes _) = ''bytes''"
| "type_name (MList _) = ''list''"
| "type_name (MDict _) = ''dict''"

fun broker_subscribe :: "mpval \<Rightarrow> replay_policy \<Rightarrow> 'd broker \<Rightarrow> nat result \<times> 'd broker" where
  "broker_subscribe (MStr selector) replay b = subscribe selector (Some replay) b"
| "broker_subscribe (MBytes _) replay b =
     (Inl (ValueError (''a bytes-like object is required, not '' @ py_repr ''str'')), b)"
| "broker_subscribe v replay b =
     (Inl (AttributeError (py_repr (type_name v) @ '' object has no attribute '' @ py_repr ''split'')), b)"

definition on_subscribe :: "bool \<Rightarrow> frame \<Rightarrow> conn \<Rightarrow> 'd broker \<Rightarrow> 'd handled" where
  "on_subscribe lost f c b =
     (let rid = get_or_none f ''rid''; rp = get_or_none f ''replay'' in
      case bind_result (item f ''selector'') (\<lambda>selector.
             bind_result (bind_result (if truthy rp then as_map rp else Inr [(MStr ''mode'', MStr ''future'')]) replay_from_wire)
               (\<lambda>replay. Inr (selector, replay))) of
        Inl e \<Rightarrow> (Inl e, c, b)
      | Inr (selector, replay) \<Rightarrow>
          (case broker_subscribe selector replay b of
             (Inl e, b1) \<Rightarrow>
               if is_exception e
               then (let (s, c1) = send_error lost (''subscribe failed: '' @ exn_text e) rid c in (s, c1, b1))
               else (Inl e, c, b1)
           | (Inr a, b1) \<Rightarrow>
               (let sid = sub_id (st_sub (bk_stream_heap b1 ! a));
                    c1 = c\<lparr>cn_subs := dict_set sid (a, Running) (cn_subs c)\<rparr>;
                    (s, c2) = conn_send lost [(MStr ''op'', MStr (op_str SUBSCRIBE_OK)), (MStr ''rid'', rid),
                                              (MStr ''subscription_id'', MStr sid)] c1
                in (s, c2, b1))))"

text \<open>A value as a key of a dictionary of strings: one that is no string finds nothing, an unhashable one raises.\<close>

fun as_key :: "mpval \<Rightarrow> string option result" where
  "as_key (MStr s) = Inr (Some s)"
| "as_key (MList _) = Inl (ValueError ''unhashable type'')"
| "as_key (MDict _) = Inl (ValueError ''unhashable type'')"
| "as_key _ = Inr None"

definition lookup_key :: "frame \<Rightarrow> string \<Rightarrow> (string, 'v) dict \<Rightarrow> (string \<times> 'v) option result" where
  "lookup_key f k d =
     bind_result (as_key (get_or_none f k)) (\<lambda>key.
       Inr (case key of None \<Rightarrow> None | Some s \<Rightarrow> (case dict_get d s of None \<Rightarrow> None | Some v \<Rightarrow> Some (s, v))))"

definition settle :: "(delivery \<Rightarrow> 'd broker \<Rightarrow> unit result \<times> 'd broker) \<Rightarrow> frame \<Rightarrow> conn \<Rightarrow> 'd broker \<Rightarrow> 'd handled" where
  "settle act f c b =
     (case lookup_key f ''delivery_id'' (cn_inflight c) of
        Inl e \<Rightarrow> (Inl e, c, b)
      | Inr None \<Rightarrow> (Inr (), c, b)
      | Inr (Some (did, d)) \<Rightarrow>
          (let c1 = c\<lparr>cn_inflight := dict_pop did (cn_inflight c)\<rparr> in
           case dict_get (cn_subs c1) (dl_sid d) of
             None \<Rightarrow> (Inr (), c1, b)
           | Some _ \<Rightarrow> (let (r, b1) = act d b in (r, c1, b1))))"

definition on_ack :: "frame \<Rightarrow> conn \<Rightarrow> 'd broker \<Rightarrow> 'd handled" where
  "on_ack f c b = settle stream_ack f c b"

definition on_nack :: "frame \<Rightarrow> conn \<Rightarrow> 'd broker \<Rightarrow> 'd handled" where
  "on_nack f c b = settle stream_nack f c b"

definition on_unsubscribe :: "frame \<Rightarrow> conn \<Rightarrow> 'd broker \<Rightarrow> 'd handled" where
  "on_unsubscribe f c b =
     (case lookup_key f ''subscription_id'' (cn_subs c) of
        Inl e \<Rightarrow> (Inl e, c, b)
      | Inr None \<Rightarrow> (Inr (), c, b)
      | Inr (Some (sid, a, pump)) \<Rightarrow>
          (Inr (), c\<lparr>cn_subs := dict_pop sid (cn_subs c)\<rparr>, stream_unsubscribe a b))"

definition dispatch :: "bool \<Rightarrow> timestamp \<Rightarrow> frame \<Rightarrow> conn \<Rightarrow> 'd broker \<Rightarrow> 'd handled" where
  "dispatch lost now f c b =
     (if has_op f REGISTER then on_register lost f c b
      else if has_op f PUBLISH then on_publish lost now f c b
      else if has_op f SUBSCRIBE then on_subscribe lost f c b
      else if has_op f ACK then on_ack f c b
      else if has_op f NACK then on_nack f c b
      else if has_op f UNSUBSCRIBE then on_unsubscribe f c b
      else if has_op f HEARTBEAT then (Inr (), c, b)
      else (let (s, c1) = send_error lost (''unknown op '' @ mp_repr (get_or_none f ''op'')) MNone c in (s, c1, b)))"

section \<open>The life of a connection\<close>

definition stop_conn :: "conn \<Rightarrow> conn" where
  "stop_conn c = c\<lparr>cn_open := False, cn_reader := Stopped\<rparr>"

definition server_handshake :: "bool \<Rightarrow> frame result \<Rightarrow> conn \<Rightarrow> conn" where
  "server_handshake lost outcome c =
     (case outcome of
        Inl _ \<Rightarrow> stop_conn c
      | Inr f \<Rightarrow>
          if \<not> has_op f HELLO then stop_conn (snd (send_error lost ''expected hello'' MNone c))
          else if \<not> equals_int (get_or_none f ''version'') PROTOCOL_VERSION
          then stop_conn (snd (send_error lost
                 (''unsupported protocol version '' @ mp_repr (get_or_none f ''version'')) MNone c))
          else (case conn_send lost [(MStr ''op'', MStr (op_str WELCOME)), (MStr ''version'', MInt PROTOCOL_VERSION)] c of
                  (Inl _, c') \<Rightarrow> stop_conn c'
                | (Inr _, c') \<Rightarrow> c'\<lparr>cn_reader := Reading, cn_heartbeat := Some Running\<rparr>))"

text \<open>
  \<open>_teardown\<close> cancels each pump, awaits it (\<open>_drain\<close>) and drops its subscription.  Awaiting a task
  that was cancelled or has returned is silent; one that ended with an exception raises it again,
  and that is the end of the loop.
\<close>

fun drain :: "task \<Rightarrow> unit result" where
  "drain (Failed e) = Inl e"
| "drain _ = Inr ()"

fun drain_subs :: "(string \<times> nat \<times> task) list \<Rightarrow> 'd broker \<Rightarrow> unit result \<times> (string \<times> nat \<times> task) list \<times> 'd broker" where
  "drain_subs [] b = (Inr (), [], b)"
| "drain_subs ((sid, a, pump) # ss) b =
     (case drain pump of
        Inl e \<Rightarrow> (Inl e, (sid, a, pump) # ss, b)
      | Inr _ \<Rightarrow> (let (r, ss', b1) = drain_subs ss (stream_unsubscribe a b) in (r, (sid, a, Returned) # ss', b1)))"

definition teardown :: "conn \<Rightarrow> 'd broker \<Rightarrow> conn \<times> 'd broker" where
  "teardown c b =
     (case cn_heartbeat c of
        Some (Failed e) \<Rightarrow> (stop_conn c, b)
      | _ \<Rightarrow>
          (case drain_subs (cn_subs c) b of
             (Inl e, ss, b1) \<Rightarrow> (stop_conn (c\<lparr>cn_heartbeat := Some Returned, cn_subs := ss\<rparr>), b1)
           | (Inr _, ss, b1) \<Rightarrow>
               (stop_conn (c\<lparr>cn_heartbeat := Some Returned, cn_subs := [], cn_inflight := []\<rparr>), b1)))"

text \<open>\<open>run\<close> after the reader task: whatever ended it, the connection is torn down.\<close>

definition after_reader :: "'d handled \<Rightarrow> conn \<times> 'd broker" where
  "after_reader h = (case h of (Inl _, c, b) \<Rightarrow> teardown c b | (Inr _, c, b) \<Rightarrow> (c, b))"

definition reader_turn :: "bool \<Rightarrow> timestamp \<Rightarrow> frame result \<Rightarrow> conn \<Rightarrow> 'd broker \<Rightarrow> conn \<times> 'd broker" where
  "reader_turn lost now outcome c b =
     (case outcome of
        Inl (ProtocolError text) \<Rightarrow> teardown (snd (send_error lost text MNone c)) b
      | Inl _ \<Rightarrow> teardown c b
      | Inr f \<Rightarrow> after_reader (dispatch lost now f (c\<lparr>cn_last_recv := now\<rparr>) b))"

text \<open>How a task stands after an exception of a write: a lost connection ends it quietly.\<close>

definition ended_by :: "py_exn \<Rightarrow> task" where
  "ended_by e = (if swallowed e then Returned else Failed e)"

text \<open>One turn of a pump: only a natural end of the stream says so to the client.\<close>

definition pump_turn :: "bool \<Rightarrow> nat \<Rightarrow> conn \<Rightarrow> 'd broker \<Rightarrow> conn \<times> 'd broker" where
  "pump_turn lost j c b =
     (let (sid, a, pump) = cn_subs c ! j in
      case stream_next a b of
        (Waiting, b1) \<Rightarrow> (c, b1)
      | (Ended, b1) \<Rightarrow>
          (snd (conn_send lost [(MStr ''op'', MStr (op_str SUB_CLOSED)), (MStr ''subscription_id'', MStr sid),
                                (MStr ''reason'', MStr ''closed'')]
                  (c\<lparr>cn_subs := dict_pop sid (cn_subs c)\<rparr>)), b1)
      | (Next d, b1) \<Rightarrow>
          (case conn_send lost (delivery_to_wire d) (c\<lparr>cn_inflight := dict_set (dl_id d) d (cn_inflight c)\<rparr>) of
             (Inl e, c2) \<Rightarrow> (c2\<lparr>cn_subs := (cn_subs c2)[j := (sid, a, ended_by e)]\<rparr>, b1)
           | (Inr _, c2) \<Rightarrow> (c2, b1)))"

text \<open>One turn of the heartbeat task, after its sleep.\<close>

definition heartbeat_turn :: "bool \<Rightarrow> real \<Rightarrow> real \<Rightarrow> conn \<Rightarrow> 'd broker \<Rightarrow> conn \<times> 'd broker" where
  "heartbeat_turn lost timeout now c b =
     (if now - cn_last_recv c > timeout then teardown (c\<lparr>cn_heartbeat := Some Returned\<rparr>) b
      else case conn_send lost HEARTBEAT_FRAME c of
             (Inl e, c') \<Rightarrow> (c'\<lparr>cn_heartbeat := Some (ended_by e)\<rparr>, b)
           | (Inr _, c') \<Rightarrow> (c', b))"

definition abort :: "conn \<Rightarrow> 'd broker \<Rightarrow> conn \<times> 'd broker" where
  "abort c b =
     (case cn_reader c of
        Handshaking \<Rightarrow> (c\<lparr>cn_open := False\<rparr>, b)
      | Stopped \<Rightarrow> (c, b)
      | _ \<Rightarrow> teardown c b)"

section \<open>The server\<close>

record 'd server =
  sr_broker :: "'d broker"
  sr_timeout :: real
  sr_conns :: "conn list"

definition DEFAULT_HEARTBEAT_TIMEOUT :: real where "DEFAULT_HEARTBEAT_TIMEOUT = 45"

datatype sr_action =
    Accept "mpval \<Rightarrow> byte list result" real
  | Frame nat bool real "frame result"
  | GateTurn nat bool
  | PumpTurn nat nat bool
  | HeartbeatTurn nat bool real
  | AbortConn nat
  | RetryTurn nat real

definition put_conn :: "nat \<Rightarrow> conn \<times> 'd broker \<Rightarrow> 'd server \<Rightarrow> 'd server" where
  "put_conn i cb s = s\<lparr>sr_conns := (sr_conns s)[i := fst cb], sr_broker := snd cb\<rparr>"

fun conn_act :: "sr_action \<Rightarrow> real \<Rightarrow> conn \<Rightarrow> 'd broker \<Rightarrow> conn \<times> 'd broker" where
  "conn_act (Frame i lost now outcome) timeout c b =
     (case cn_reader c of
        Handshaking \<Rightarrow> (server_handshake lost outcome c, b)
      | Reading \<Rightarrow> reader_turn lost now outcome c b
      | _ \<Rightarrow> (c, b))"
| "conn_act (GateTurn i lost) timeout c b =
     (case cn_reader c of AtGate rid m \<Rightarrow> after_reader (gate_turn lost rid m c b) | _ \<Rightarrow> (c, b))"
| "conn_act (PumpTurn i j lost) timeout c b = 
     (if j < length (cn_subs c) \<and> snd (snd (cn_subs c ! j)) = Running then pump_turn lost j c b else (c, b))"
| "conn_act (HeartbeatTurn i lost now) timeout c b =
     (if cn_heartbeat c = Some Running then heartbeat_turn lost timeout now c b else (c, b))"
| "conn_act (AbortConn i) timeout c b = abort c b"
| "conn_act _ timeout c b = (c, b)"

fun target :: "sr_action \<Rightarrow> nat option" where
  "target (Frame i lost now outcome) = Some i"
| "target (GateTurn i lost) = Some i"
| "target (PumpTurn i j lost) = Some i"
| "target (HeartbeatTurn i lost now) = Some i"
| "target (AbortConn i) = Some i"
| "target _ = None"

text \<open>
  One action of the server: a new connection, a turn of one of a connection's tasks, or a
  redelivery of the broker's retry engine whose backoff is over.
\<close>

definition sr_act :: "sr_action \<Rightarrow> 'd server \<Rightarrow> 'd server" where
  "sr_act x s =
     (case x of
        Accept packb now \<Rightarrow> s\<lparr>sr_conns := sr_conns s @ [new_conn packb now]\<rparr>
      | RetryTurn i draw \<Rightarrow>
          if i < length (bk_tasks (sr_broker s)) then s\<lparr>sr_broker := snd (wake_task i draw (sr_broker s))\<rparr> else s
      | _ \<Rightarrow>
          (case target x of
             None \<Rightarrow> s
           | Some i \<Rightarrow>
               if i < length (sr_conns s)
               then put_conn i (conn_act x (sr_timeout s) (sr_conns s ! i) (sr_broker s)) s
               else s))"

definition sr_run :: "sr_action list \<Rightarrow> 'd server \<Rightarrow> 'd server" where
  "sr_run xs s = fold sr_act xs s"

text \<open>\<open>BrokerServer.close\<close> drops every live connection.\<close>

definition close_server :: "'d server \<Rightarrow> 'd server" where
  "close_server s = sr_run (map AbortConn [0..<length (sr_conns s)]) s"

end
