(* ===== verification/Server_Inv.thy ===== *)
theory Server_Inv
  imports Server "HOL-Library.Multiset"
begin

text \<open>
  Every task of every connection drives the broker through its own steps only: the relation
  \<open>server_rel\<close> between the server and the broker's transition system is kept by each action of
  the server, with the subscriptions a connection holds, the deliveries it can settle and the
  publish that waits in its reader all known to the broker.
\<close>

section \<open>Frames\<close>

definition same_session :: "conn \<Rightarrow> conn \<Rightarrow> bool" where
  "same_session c c' \<longleftrightarrow> cn_subs c' = cn_subs c \<and> cn_inflight c' = cn_inflight c \<and> cn_reader c' = cn_reader c"

lemma same_session_refl [simp]: "same_session c c"
  by (simp add: same_session_def)

lemma conn_send_session: "conn_send lost f c = (r, c') \<Longrightarrow> same_session c c'"
  by (auto simp: conn_send_def same_session_def split: sum.splits if_splits)

lemma send_error_session: "send_error lost t rid c = (r, c') \<Longrightarrow> same_session c c'"
  using conn_send_session [of lost "error_frame t rid" c]
  by (auto simp: send_error_def split: prod.splits sum.splits)

lemmas sent_session =
  conn_send_session [unfolded same_session_def] send_error_session [unfolded same_session_def]

lemma snd_conn_send [simp]:
  "cn_subs (snd (conn_send lost f c)) = cn_subs c" "cn_inflight (snd (conn_send lost f c)) = cn_inflight c"
  "cn_reader (snd (conn_send lost f c)) = cn_reader c"
  by (simp_all add: conn_send_def split: sum.split)

lemma snd_send_error [simp]:
  "cn_subs (snd (send_error lost t rid c)) = cn_subs c" "cn_inflight (snd (send_error lost t rid c)) = cn_inflight c"
  "cn_reader (snd (send_error lost t rid c)) = cn_reader c"
  by (simp_all add: send_error_def conn_send_def split: sum.split)

section \<open>What the broker has to know of a connection\<close>

definition subs_known :: "'d broker \<Rightarrow> (string \<times> nat \<times> task) list \<Rightarrow> bool" where
  "subs_known b ss \<longleftrightarrow>
     dict_wf ss \<and> (\<forall>x\<in>set ss. fst (snd x) < length (bk_regs b) \<and> fst (statics b ! fst (snd x)) = fst x)"

definition conn_ok :: "'d sys \<Rightarrow> conn \<Rightarrow> bool" where
  "conn_ok s c \<longleftrightarrow> (\<forall>x\<in>set (cn_inflight c). snd x \<in> set (sy_handed s)) \<and> subs_known (sy_broker s) (cn_subs c)"

definition waiting :: "conn \<Rightarrow> message list" where
  "waiting c = (case cn_reader c of AtGate rid m \<Rightarrow> [m] | _ \<Rightarrow> [])"

lemma conn_waiting_simps [simp]:
  "cn_reader c = Reading \<Longrightarrow> waiting c = []" "cn_reader c = Stopped \<Longrightarrow> waiting c = []"
  "cn_reader c = Handshaking \<Longrightarrow> waiting c = []" "cn_reader c = AtGate rid m \<Longrightarrow> waiting c = [m]"
  by (simp_all add: waiting_def)

lemma waiting_same: "cn_reader c' = cn_reader c \<Longrightarrow> waiting c' = waiting c"
  by (simp add: waiting_def)

lemma subs_known_Nil [simp]: "subs_known b []"
  by (simp add: subs_known_def)

lemma subs_known_Cons [simp]:
  "subs_known b ((sid, a, t) # ss) \<longleftrightarrow>
     sid \<notin> dict_keys ss \<and> a < length (bk_regs b) \<and> fst (statics b ! a) = sid \<and> subs_known b ss"
  by (auto simp: subs_known_def)

lemma subs_known_nth:
  "subs_known b ss \<Longrightarrow> j < length ss \<Longrightarrow> ss ! j = (sid, a, t) \<Longrightarrow>
   a < length (bk_regs b) \<and> fst (statics b ! a) = sid \<and> dict_get ss sid = Some (a, t)"
  using nth_mem [of j ss] by (auto simp: subs_known_def intro: dict_wf_set_get)

lemma subs_known_pop: "subs_known b ss \<Longrightarrow> subs_known b (dict_pop sid ss)"
  using set_dict_pop [of sid ss] by (auto simp: subs_known_def dict_simps)

lemma subs_known_set:
  "subs_known b ss \<Longrightarrow> a < length (bk_regs b) \<Longrightarrow> fst (statics b ! a) = sid \<Longrightarrow> subs_known b (dict_set sid (a, t) ss)"
  by (auto simp: subs_known_def dict_simps dest!: set_dict_setD)

lemma subs_known_update:
  "subs_known b ss \<Longrightarrow> j < length ss \<Longrightarrow> ss ! j = (sid, a, t) \<Longrightarrow> subs_known b (ss[j := (sid, a, t')])"
  using subs_known_nth [of b ss j sid a t] map_update_same [of fst "(sid, a, t')" ss j]
  by (auto simp: subs_known_def dest!: set_update_subset_insert [THEN subsetD])

lemma subs_known_mono: "subs_known b ss \<Longrightarrow> evolves b b' \<Longrightarrow> subs_known b' ss"
  using evolves_length [of b b'] evolves_static [of b b'] by (fastforce simp: subs_known_def)

lemma conn_ok_reaches: "conn_ok s c \<Longrightarrow> reaches s s' \<Longrightarrow> conn_ok s' c"
  using subs_known_mono by (auto simp: conn_ok_def reaches_def)

lemma conn_ok_pop:
  assumes "conn_ok s c"
  shows "conn_ok s (c\<lparr>cn_subs := dict_pop sid (cn_subs c)\<rparr>)" "conn_ok s (c\<lparr>cn_inflight := dict_pop did (cn_inflight c)\<rparr>)"
  using assms set_dict_pop [of did "cn_inflight c"] by (auto simp: conn_ok_def subs_known_pop)

lemma conn_ok_same:
  "conn_ok s c \<Longrightarrow> cn_inflight c' = cn_inflight c \<Longrightarrow> cn_subs c' = cn_subs c \<Longrightarrow> conn_ok s c'"
  by (simp add: conn_ok_def)

section \<open>Handlers as runs\<close>

text \<open>
  What one turn of a connection does to the broker's transition system: a run to the broker it
  leaves, its connection known there, and every publish that waits elsewhere (\<open>W\<close>) still parked
  next to the one that waits here.
\<close>

definition turn_run :: "'d sys \<Rightarrow> conn \<Rightarrow> message list \<Rightarrow> conn \<Rightarrow> 'd broker \<Rightarrow> bool" where
  "turn_run s c ms c' b' \<longleftrightarrow>
     (\<exists>s'. reaches s s' \<and> sy_broker s' = b' \<and> conn_ok s' c' \<and>
        (\<forall>W. mset (waiting c) + W \<subseteq># mset (sy_parked s) \<longrightarrow> mset ms + W \<subseteq># mset (sy_parked s')))"

definition handled_run :: "'d sys \<Rightarrow> conn \<Rightarrow> 'd handled \<Rightarrow> bool" where
  "handled_run s c h = (case h of (r, c', b') \<Rightarrow> turn_run s c (if is_ok r then waiting c' else []) c' b')"

definition conn_run :: "'d sys \<Rightarrow> conn \<Rightarrow> conn \<times> 'd broker \<Rightarrow> bool" where
  "conn_run s c cb = turn_run s c (waiting (fst cb)) (fst cb) (snd cb)"

lemma turn_runI:
  assumes "reaches s s'" "sy_broker s' = b'" "conn_ok s' c'" "sy_parked s' = sy_parked s"
    and "ms = waiting c \<or> ms = []"
  shows "turn_run s c ms c' b'"
proof -
  have "mset ms + W \<subseteq># mset (sy_parked s)" if "mset (waiting c) + W \<subseteq># mset (sy_parked s)" for W
    using assms(5) that by (metis mset.simps(1) mset_subset_eq_add_right add_0 subset_mset.order_trans)
  with assms(1-4) show ?thesis unfolding turn_run_def by auto
qed

text \<open>A turn that leaves the broker alone.\<close>

lemma turn_run_idle:
  assumes "sys_inv s" "conn_ok s c'" "b' = sy_broker s" "ms = waiting c \<or> ms = []"
  shows "turn_run s c ms c' b'"
  using turn_runI [OF reaches_refl [OF assms(1)]] assms(2-4) by blast

lemma turn_run_drop: "turn_run s c ms c' b' \<Longrightarrow> turn_run s c [] c' b'"
  unfolding turn_run_def
  by (metis (no_types, lifting) add_0 mset.simps(1) mset_subset_eq_add_right subset_mset.order_trans)

section \<open>Teardown\<close>

text \<open>\<open>drain_subs\<close> by the state of the first pump.\<close>

lemma drain_subs_Cons [simp]:
  "drain_subs ((sid, a, t) # ss) b =
     (case t of
        Failed e \<Rightarrow> (Inl e, (sid, a, t) # ss, b)
      | _ \<Rightarrow> (let (r, ss', b1) = drain_subs ss (stream_unsubscribe a b) in (r, (sid, a, Returned) # ss', b1)))"
  by (cases t) simp_all

declare drain_subs.simps(2) [simp del]

lemma later_drain_subs: "drain_subs ss b = (r, ss', b') \<Longrightarrow> later b b'"
proof (induction ss arbitrary: b r ss' b')
  case (Cons x ss)
  obtain sid a t where x: "x = (sid, a, t)" by (metis prod.collapse)
  obtain r1 ss1 b1 where d: "drain_subs ss (stream_unsubscribe a b) = (r1, ss1, b1)" by (metis surj_pair)
  have "later b b1" using later_stream_unsubscribe Cons.IH [OF d] by (rule later_trans)
  moreover have "b' = b \<or> b' = b1" using Cons.prems d x by (auto simp: drain_subs_Cons split: task.splits)
  ultimately show ?case by auto
qed simp

lemma drain_subs_keys: "drain_subs ss b = (r, ss', b') \<Longrightarrow> map fst ss' = map fst ss"
  by (induction ss b arbitrary: r ss' b' rule: drain_subs.induct) (auto split: prod.splits sum.splits task.splits)

lemma run_drain_subs:
  assumes "sys_inv s" "subs_known (sy_broker s) ss" "drain_subs ss (sy_broker s) = (r, ss', b')" "no_collision b'"
  shows "\<exists>s'. reaches s s' \<and> sy_broker s' = b' \<and> sy_parked s' = sy_parked s \<and> subs_known b' ss'"
  using assms
proof (induction ss arbitrary: s r ss' b')
  case Nil
  then show ?case using reaches_refl by auto
next
  case (Cons x ss)
  obtain sid a t where x: "x = (sid, a, t)" by (metis prod.collapse)
  show ?case
  proof (cases "\<exists>e. t = Failed e")
    case True
    with Cons.prems x reaches_refl [OF Cons.prems(1)] show ?thesis by (auto intro!: exI [of _ s])
  next
    case False
    obtain r1 ss1 b1 where d: "drain_subs ss (stream_unsubscribe a (sy_broker s)) = (r1, ss1, b1)"
      by (metis surj_pair)
    have res: "ss' = (sid, a, Returned) # ss1" "b' = b1"
      using Cons.prems(3) False d x by (auto simp: drain_subs_Cons split: task.splits)
    have a: "a < length (bk_regs (sy_broker s))" "subs_known (sy_broker s) ss" using Cons.prems(2) by (simp_all add: x)
    have "no_collision (stream_unsubscribe a (sy_broker s))"
      using later_no_collision [OF later_drain_subs [OF d]] Cons.prems(4) res by simp
    from run_unsubscribe [OF Cons.prems(1) a(1) this] obtain s1
      where s1: "reaches s s1" "sy_broker s1 = stream_unsubscribe a (sy_broker s)" "sy_parked s1 = sy_parked s"
      by blast
    have "subs_known (sy_broker s1) ss" using a(2) s1(1) subs_known_mono by (auto simp: reaches_def)
    from Cons.IH [OF reaches_inv [OF s1(1)] this _ Cons.prems(4)] d s1(2) res obtain s2
      where s2: "reaches s1 s2" "sy_broker s2 = b'" "sy_parked s2 = sy_parked s1" "subs_known b' ss1" by auto
    have s: "reaches s s2" using s1(1) s2(1) by (rule reaches_trans)
    then have "subs_known b' (x # ss)" using Cons.prems(2) s2(2) subs_known_mono by (auto simp: reaches_def)
    with s s2 s1(3) res x arg_cong [OF drain_subs_keys [OF d], of set] show ?thesis by auto
  qed
qed

lemma teardown_reader [simp]: "cn_reader (fst (teardown c b)) = Stopped" "\<not> cn_open (fst (teardown c b))"
  by (auto simp: teardown_def stop_conn_def split: option.splits task.splits prod.splits sum.splits)

lemma later_teardown: "later b (snd (teardown c b))"
  by (auto simp: teardown_def split: option.split task.split prod.split sum.split dest: later_drain_subs)

lemma run_teardown:
  assumes "sys_inv s" "conn_ok s c" "teardown c (sy_broker s) = (c', b')" "no_collision b'"
  shows "\<exists>s'. reaches s s' \<and> sy_broker s' = b' \<and> conn_ok s' c' \<and> sy_parked s' = sy_parked s"
proof (cases "\<exists>e. cn_heartbeat c = Some (Failed e)")
  case True
  with assms(3) have "b' = sy_broker s" "c' = stop_conn c" by (auto simp: teardown_def)
  then have "conn_ok s c'" "sy_broker s = b'" using assms(2) by (simp_all add: stop_conn_def conn_ok_def)
  with reaches_refl [OF assms(1)] show ?thesis by blast
next
  case False
  obtain r ss b1 where d: "drain_subs (cn_subs c) (sy_broker s) = (r, ss, b1)" by (metis surj_pair)
  have c': "b' = b1" "cn_subs c' = ss \<or> cn_subs c' = []" "cn_inflight c' = cn_inflight c \<or> cn_inflight c' = []"
    using assms(3) False d
    by (auto simp: teardown_def stop_conn_def split: option.splits task.splits sum.splits)
  have "subs_known (sy_broker s) (cn_subs c)" using assms(2) by (simp add: conn_ok_def)
  from run_drain_subs [OF assms(1) this d] assms(4) c'(1) obtain s'
    where s': "reaches s s'" "sy_broker s' = b'" "sy_parked s' = sy_parked s" "subs_known b' ss" by blast
  have "conn_ok s' c'" using conn_ok_reaches [OF assms(2) s'(1)] c' s'(2,4) by (auto simp: conn_ok_def)
  with s' show ?thesis by blast
qed

section \<open>The handlers\<close>

lemma run_on_register:
  assumes "sys_inv s" "conn_ok s c" "on_register lost f c (sy_broker s) = (r, c', b')" "no_collision b'"
  shows "turn_run s c (waiting c) c' b'" "cn_reader c' = cn_reader c"
proof -
  obtain r0 b1 where rb: "(case bind_result (item f ''topic'') as_str of
      Inl e \<Rightarrow> (Inl e, sy_broker s)
    | Inr topic \<Rightarrow> register_topic topic (truthy (get_or_none f ''replayable'')) (sy_broker s)) = (r0, b1)" by fastforce
  have b': "b' = b1" "same_session c c'"
    using assms(3) rb send_error_session conn_send_session
    by (auto simp: on_register_def Let_def split: prod.splits sum.splits if_splits)
  then show "cn_reader c' = cn_reader c" by (simp add: same_session_def)
  have "\<exists>s'. reaches s s' \<and> sy_broker s' = b1 \<and> sy_parked s' = sy_parked s"
  proof (cases "bind_result (item f ''topic'') as_str")
    case (Inl e)
    with rb reaches_refl [OF assms(1)] show ?thesis by auto
  next
    case (Inr topic)
    with rb run_register_topic [OF assms(1), of topic "truthy (get_or_none f ''replayable'')"] assms(4) b'(1)
    show ?thesis by auto
  qed
  then obtain s' where s': "reaches s s'" "sy_broker s' = b'" "sy_parked s' = sy_parked s" using b'(1) by blast
  have "conn_ok s' c'" using conn_ok_reaches [OF assms(2) s'(1)] b'(2) by (simp add: conn_ok_def same_session_def)
  from turn_runI [OF s'(1,2) this s'(3)] show "turn_run s c (waiting c) c' b'" by simp
qed

lemma reply_published_cases:
  assumes "reply_published lost rid (res, b) c = (r, c', b')"
  shows "b' = b" "cn_subs c' = cn_subs c" "cn_inflight c' = cn_inflight c"
    "is_ok r \<Longrightarrow> waiting c' = parked_after res []"
    "cn_reader c' \<in> {cn_reader c, Reading} \<union> range (\<lambda>m. AtGate rid m)"
proof -
  have "b' = b \<and> cn_subs c' = cn_subs c \<and> cn_inflight c' = cn_inflight c \<and>
      (is_ok r \<longrightarrow> waiting c' = parked_after res []) \<and> cn_reader c' \<in> {cn_reader c, Reading} \<union> range (\<lambda>m. AtGate rid m)"
  proof (cases res)
    case (Inl e)
    with assms show ?thesis by (auto simp: reply_published_def)
  next
    case (Inr x)
    show ?thesis
    proof (cases x)
      case (Published pr)
      obtain s1 c1 where sd: "conn_send lost (publish_result_to_wire rid pr) (c\<lparr>cn_reader := Reading\<rparr>) = (s1, c1)"
        by fastforce
      with assms Inr Published have "r = s1" "c' = c1" "b' = b" by (simp_all add: reply_published_def)
      with conn_send_session [OF sd] Inr Published show ?thesis by (auto simp: same_session_def)
    next
      case (Parked m)
      with assms Inr show ?thesis by (auto simp: reply_published_def)
    qed
  qed
  then show "b' = b" "cn_subs c' = cn_subs c" "cn_inflight c' = cn_inflight c"
    "is_ok r \<Longrightarrow> waiting c' = parked_after res []"
    "cn_reader c' \<in> {cn_reader c, Reading} \<union> range (\<lambda>m. AtGate rid m)" by blast+
qed

lemma run_reply_published:
  assumes "conn_ok s c" "reaches s s1" "sy_broker s1 = b1" "reply_published lost rid (res, b1) c = (r, c', b')"
    and "\<And>W. mset (waiting c) + W \<subseteq># mset (sy_parked s) \<Longrightarrow>
           mset (parked_after res []) + W \<subseteq># mset (sy_parked s1)"
  shows "handled_run s c (r, c', b')"
proof -
  note c' = reply_published_cases [OF assms(4)]
  have "conn_ok s1 c'" using conn_ok_reaches [OF assms(1,2)] c'(2,3) by (simp add: conn_ok_def)
  with assms(2,3) c'(1,4) assms(5) have "turn_run s c (parked_after res []) c' b'"
    unfolding turn_run_def by blast
  then show ?thesis using c'(4) turn_run_drop by (auto simp: handled_run_def)
qed

lemma run_on_publish:
  assumes "sys_inv s" "conn_ok s c" "cn_reader c = Reading" "on_publish lost now f c (sy_broker s) = (r, c', b')"
    and "no_collision b'"
  shows "handled_run s c (r, c', b')"
proof -
  define args where "args =
    bind_result (if truthy (get_or_none f ''extras'') then bind_result (as_map (get_or_none f ''extras'')) extras_of else Inr [])
      (\<lambda>d. bind_result (bind_result (item f ''topic'') as_str) (\<lambda>topic. Inr (d, topic)))"
  show ?thesis
  proof (cases args)
    case (Inl e)
    with assms(4) have "r = Inl e" "c' = c" "b' = sy_broker s" by (simp_all add: on_publish_def args_def Let_def)
    with turn_run_idle [OF assms(1,2)] show ?thesis by (simp add: handled_run_def)
  next
    case (Inr dt)
    obtain d topic where dt: "dt = (d, topic)" by fastforce
    obtain res b1 where p: "publish topic (get_or_none f ''payload'') (Some d) now (sy_broker s) = (res, b1)" by fastforce
    have rp: "reply_published lost (get_or_none f ''rid'') (res, b1) c = (r, c', b')"
      using assms(4) Inr dt p by (simp add: on_publish_def args_def Let_def)
    have "no_collision b1" using reply_published_cases(1) [OF rp] assms(5) by simp
    from run_publish [OF assms(1) p this] obtain s' where s': "reaches s s'" "sy_broker s' = b1"
      "sy_parked s' = parked_after res (sy_parked s)" by blast
    show ?thesis
    proof (rule run_reply_published [OF assms(2) s'(1,2) rp])
      fix W
      assume "mset (waiting c) + W \<subseteq># mset (sy_parked s)"
      then have "W \<subseteq># mset (sy_parked s)" using assms(3) by simp
      then show "mset (parked_after res []) + W \<subseteq># mset (sy_parked s')"
        using s'(3) by (auto simp: parked_after_def split: sum.split publish_outcome.split)
    qed
  qed
qed

lemma run_gate_turn:
  assumes "sys_inv s" "conn_ok s c" "cn_reader c = AtGate rid m" "m \<in> set (sy_parked s)"
    and "gate_turn lost rid m c (sy_broker s) = (r, c', b')" "no_collision b'"
  shows "handled_run s c (r, c', b')"
proof -
  obtain res b1 where p: "publish_resume m (sy_broker s) = (res, b1)" by fastforce
  have rp: "reply_published lost rid (res, b1) c = (r, c', b')" using assms(5) p by (simp add: gate_turn_def)
  have "no_collision b1" using reply_published_cases(1) [OF rp] assms(6) by simp
  from run_publish_resume [OF assms(1,4) p this] obtain s' where s': "reaches s s'" "sy_broker s' = b1"
    "sy_parked s' = parked_after res (remove1 m (sy_parked s))" by blast
  have same: "res = Inr (Parked m') \<Longrightarrow> m' = m" for m'
    using p by (auto simp: publish_resume_def split: prod.splits bool.splits sum.splits)
  show ?thesis
  proof (rule run_reply_published [OF assms(2) s'(1,2) rp])
    fix W
    assume "mset (waiting c) + W \<subseteq># mset (sy_parked s)"
    then have "add_mset m W \<subseteq># mset (sy_parked s)" using assms(3) by simp
    then have "W \<subseteq># mset (remove1 m (sy_parked s))"
      by (metis insert_subset_eq_iff mset_remove1)
    then show "mset (parked_after res []) + W \<subseteq># mset (sy_parked s')"
      using s'(3) same by (auto simp: parked_after_def split: sum.split publish_outcome.split)
  qed
qed

lemma handled_run_same:
  assumes "turn_run s c (waiting c) c' b'" "cn_reader c' = cn_reader c"
  shows "handled_run s c (r, c', b')"
  using assms(1) turn_run_drop [OF assms(1)] waiting_same [OF assms(2)] by (simp add: handled_run_def)

lemma broker_subscribe_cases:
  obtains sel where "v = MStr sel" | e where "broker_subscribe v replay b = (Inl e, b)"
  by (cases v) auto

lemma run_broker_subscribe:
  assumes "sys_inv s" "broker_subscribe v replay (sy_broker s) = (res, b')" "no_collision b'"
  shows "\<exists>s'. reaches s s' \<and> sy_broker s' = b' \<and> sy_parked s' = sy_parked s \<and>
           (\<forall>a. res = Inr a \<longrightarrow> a < length (bk_regs b'))"
proof (rule broker_subscribe_cases [where v = v and replay = replay and b = "sy_broker s"])
  fix sel
  assume "v = MStr sel"
  with assms run_subscribe [OF assms(1)] show ?thesis by simp
next
  fix e
  assume "broker_subscribe v replay (sy_broker s) = (Inl e, sy_broker s)"
  with assms(2) reaches_refl [OF assms(1)] show ?thesis by auto
qed

lemma later_broker_subscribe: "later b (snd (broker_subscribe v replay b))"
  by (cases v) (simp_all add: later_subscribe)

lemma run_on_subscribe:
  assumes "sys_inv s" "conn_ok s c" "on_subscribe lost f c (sy_broker s) = (r, c', b')" "no_collision b'"
  shows "handled_run s c (r, c', b')"
proof -
  define args where "args =
    bind_result (item f ''selector'') (\<lambda>selector.
      bind_result (bind_result (if truthy (get_or_none f ''replay'') then as_map (get_or_none f ''replay'')
          else Inr [(MStr ''mode'', MStr ''future'')]) replay_from_wire) (\<lambda>replay. Inr (selector, replay)))"
  show ?thesis
  proof (cases args)
    case (Inl e)
    with assms(3) have "c' = c" "b' = sy_broker s" by (simp_all add: on_subscribe_def args_def Let_def)
    with turn_run_idle [OF assms(1,2)] show ?thesis by (simp add: handled_run_same)
  next
    case (Inr x)
    obtain selector replay where x: "x = (selector, replay)" by fastforce
    obtain res b1 where sb: "broker_subscribe selector replay (sy_broker s) = (res, b1)" by fastforce
    have c': "b' = b1" "cn_inflight c' = cn_inflight c" "cn_reader c' = cn_reader c"
      "cn_subs c' = cn_subs c \<or> (\<exists>a. res = Inr a \<and>
         cn_subs c' = dict_set (sub_id (st_sub (bk_stream_heap b1 ! a))) (a, Running) (cn_subs c))"
      using assms(3) sb unfolding on_subscribe_def Let_def args_def [symmetric] Inr x
      by (auto split: sum.splits prod.splits if_splits dest!: sent_session)
    from run_broker_subscribe [OF assms(1) sb] assms(4) c'(1) obtain s' where s': "reaches s s'" "sy_broker s' = b1"
      "sy_parked s' = sy_parked s" "\<And>a. res = Inr a \<Longrightarrow> a < length (bk_regs b1)" by blast
    have "fst (statics b1 ! a) = sub_id (st_sub (bk_stream_heap b1 ! a))" if "res = Inr a" for a
      using core_heapD(3) [OF sys_inv_core [OF reaches_inv [OF s'(1)]]] s'(2,4) that
      by (simp add: statics_nth reg_static_def)
    then have "conn_ok s' c'"
      using conn_ok_reaches [OF assms(2) s'(1)] c'(2,4) s'(2,4) by (auto simp: conn_ok_def subs_known_set)
    from turn_runI [OF s'(1) _ this s'(3)] s'(2) c' show ?thesis by (simp add: handled_run_same)
  qed
qed

lemma lookup_key_get: "lookup_key f k d = Inr (Some (s, v)) \<Longrightarrow> dict_get d s = Some v"
  by (auto simp: lookup_key_def bind_result_Inr_iff split: option.splits)

lemma run_settle_frame:
  assumes "sys_inv s" "conn_ok s c" "act = ack \<or> act = nack" "settle act f c (sy_broker s) = (r, c', b')" "no_collision b'"
  shows "handled_run s c (r, c', b')"
proof -
  consider (none) "c' = c" "b' = sy_broker s"
    | (found) did d where "lookup_key f ''delivery_id'' (cn_inflight c) = Inr (Some (did, d))"
    using assms(4) by (auto simp: settle_def split: sum.splits option.splits prod.splits)
  then show ?thesis
  proof cases
    case none
    with turn_run_idle [OF assms(1,2)] show ?thesis by (simp add: handled_run_same)
  next
    case found
    let ?c = "c\<lparr>cn_inflight := dict_pop did (cn_inflight c)\<rparr>"
    have c': "c' = ?c" "b' = sy_broker s \<or> b' = snd (act d (sy_broker s))"
      using assms(4) found by (auto simp: settle_def Let_def split: option.splits prod.splits)
    have ok: "conn_ok s ?c" using assms(2) by (rule conn_ok_pop)
    have d: "d \<in> set (sy_handed s)"
      using lookup_key_get [OF found] assms(2) by (auto simp: conn_ok_def dest!: map_of_SomeD)
    from c'(2) have "turn_run s c (waiting c) ?c b'"
    proof
      assume "b' = sy_broker s"
      with turn_run_idle [OF assms(1) ok] show ?thesis by simp
    next
      assume b': "b' = snd (act d (sy_broker s))"
      from run_settle [OF assms(1) d assms(3)] b' assms(5) obtain s'
        where s': "reaches s s'" "sy_broker s' = b'" "sy_parked s' = sy_parked s" by auto
      from turn_runI [OF s'(1,2) conn_ok_reaches [OF ok s'(1)] s'(3)] show ?thesis by simp
    qed
    with c'(1) show ?thesis by (simp add: handled_run_same)
  qed
qed

lemma run_on_unsubscribe:
  assumes "sys_inv s" "conn_ok s c" "on_unsubscribe f c (sy_broker s) = (r, c', b')" "no_collision b'"
  shows "handled_run s c (r, c', b')"
proof -
  consider (none) "c' = c" "b' = sy_broker s"
    | (found) sid a t where "lookup_key f ''subscription_id'' (cn_subs c) = Inr (Some (sid, a, t))"
    using assms(3) by (auto simp: on_unsubscribe_def split: sum.splits option.splits prod.splits)
  then show ?thesis
  proof cases
    case none
    with turn_run_idle [OF assms(1,2)] show ?thesis by (simp add: handled_run_same)
  next
    case found
    let ?c = "c\<lparr>cn_subs := dict_pop sid (cn_subs c)\<rparr>"
    have c': "c' = ?c" "b' = stream_unsubscribe a (sy_broker s)"
      using assms(3) found by (simp_all add: on_unsubscribe_def)
    have ok: "conn_ok s ?c" using assms(2) by (rule conn_ok_pop)
    have "a < length (bk_regs (sy_broker s))"
      using lookup_key_get [OF found] assms(2) by (auto simp: conn_ok_def subs_known_def dest!: map_of_SomeD)
    from run_unsubscribe [OF assms(1) this] c' assms(4) obtain s'
      where s': "reaches s s'" "sy_broker s' = b'" "sy_parked s' = sy_parked s" by auto
    from turn_runI [OF s'(1,2) conn_ok_reaches [OF ok s'(1)] s'(3)] c'(1) show ?thesis by (simp add: handled_run_same)
  qed
qed

lemma run_dispatch:
  assumes "sys_inv s" "conn_ok s c" "cn_reader c = Reading" "dispatch lost now f c (sy_broker s) = (r, c', b')"
    and "no_collision b'"
  shows "handled_run s c (r, c', b')"
proof -
  consider "on_register lost f c (sy_broker s) = (r, c', b')" | "on_publish lost now f c (sy_broker s) = (r, c', b')"
    | "on_subscribe lost f c (sy_broker s) = (r, c', b')" | "settle ack f c (sy_broker s) = (r, c', b')"
    | "settle nack f c (sy_broker s) = (r, c', b')" | "on_unsubscribe f c (sy_broker s) = (r, c', b')"
    | (idle) "same_session c c'" "b' = sy_broker s"
    using assms(4) by (auto simp: dispatch_def on_ack_def on_nack_def split: if_splits prod.splits dest: send_error_session)
  then show ?thesis
  proof cases
    case 1
    from run_on_register [OF assms(1,2) 1 assms(5)] show ?thesis by (rule handled_run_same)
  next
    case idle
    then have "conn_ok s c'" using assms(2) by (simp add: conn_ok_def same_session_def)
    from turn_run_idle [OF assms(1) this] idle show ?thesis by (simp add: handled_run_same same_session_def)
  next
    case 2
    with run_on_publish [OF assms(1-3)] assms(5) show ?thesis by blast
  next
    case 3
    with run_on_subscribe [OF assms(1,2)] assms(5) show ?thesis by blast
  next
    case 4
    from run_settle_frame [OF assms(1,2) _ this assms(5)] show ?thesis by simp
  next
    case 5
    from run_settle_frame [OF assms(1,2) _ this assms(5)] show ?thesis by simp
  next
    case 6
    with run_on_unsubscribe [OF assms(1,2)] assms(5) show ?thesis by blast
  qed
qed

section \<open>The tasks of a connection\<close>

lemma after_reader_run:
  assumes "sys_inv s" "no_collision b1 \<Longrightarrow> handled_run s c (r, c1, b1)"
    and "after_reader (r, c1, b1) = (c', b')" "no_collision b'"
  shows "conn_run s c (c', b')"
proof (cases r)
  case (Inr u)
  with assms(2-4) show ?thesis by (simp add: after_reader_def conn_run_def handled_run_def)
next
  case (Inl e)
  then have td: "teardown c1 b1 = (c', b')" using assms(3) by (simp add: after_reader_def)
  have "later b1 b'" using td later_teardown by (metis snd_conv)
  with assms(2,4) Inl have run: "turn_run s c [] c1 b1" using later_no_collision by (fastforce simp: handled_run_def)
  have "turn_run s c [] c' b'"
  proof -
    from run obtain s1 where s1: "reaches s s1" "sy_broker s1 = b1" "conn_ok s1 c1"
      "\<And>W. mset (waiting c) + W \<subseteq># mset (sy_parked s) \<Longrightarrow> W \<subseteq># mset (sy_parked s1)"
      unfolding turn_run_def by auto
    from run_teardown [OF reaches_inv [OF s1(1)] s1(3)] td assms(4) s1(2) obtain s2
      where s2: "reaches s1 s2" "sy_broker s2 = b'" "conn_ok s2 c'" "sy_parked s2 = sy_parked s1" by blast
    from reaches_trans [OF s1(1) s2(1)] s2(2-4) s1(4) show ?thesis unfolding turn_run_def by auto
  qed
  moreover have "waiting c' = []" using teardown_reader(1) [of c1 b1] td by simp
  ultimately show ?thesis by (simp add: conn_run_def)
qed

lemma conn_run_idle:
  assumes "sys_inv s" "conn_ok s c'" "waiting c' = waiting c \<or> waiting c' = []"
  shows "conn_run s c (c', sy_broker s)"
  using turn_run_idle [OF assms(1,2) refl assms(3)] by (simp add: conn_run_def)

lemma conn_run_teardown:
  assumes "sys_inv s" "conn_ok s c" "teardown c (sy_broker s) = (c', b')" "no_collision b'"
  shows "conn_run s c (c', b')"
proof -
  from run_teardown [OF assms] obtain s'
    where s': "reaches s s'" "sy_broker s' = b'" "conn_ok s' c'" "sy_parked s' = sy_parked s" by blast
  have "waiting c' = []" using teardown_reader(1) [of c "sy_broker s"] assms(3) by simp
  with turn_runI [OF s'] show ?thesis by (simp add: conn_run_def)
qed

lemma conn_run_same:
  assumes "conn_run s c cb" "cn_reader c = cn_reader c0"
  shows "conn_run s c0 cb"
  using assms waiting_same [OF assms(2)] by (simp add: conn_run_def turn_run_def)

lemma run_server_handshake:
  assumes "sys_inv s" "conn_ok s c" "cn_reader c = Handshaking"
  shows "conn_run s c (server_handshake lost outcome c, sy_broker s)"
proof (rule conn_run_idle [OF assms(1)])
  show "conn_ok s (server_handshake lost outcome c)"
    using assms(2) by (auto simp: server_handshake_def stop_conn_def conn_ok_def split: sum.split prod.split dest!: sent_session(1))
  show "waiting (server_handshake lost outcome c) = waiting c \<or> waiting (server_handshake lost outcome c) = []"
    by (auto simp: server_handshake_def stop_conn_def split: sum.split prod.split)
qed

lemma run_reader_turn:
  assumes "sys_inv s" "conn_ok s c" "cn_reader c = Reading" "reader_turn lost now outcome c (sy_broker s) = (c', b')"
    and "no_collision b'"
  shows "conn_run s c (c', b')"
proof (cases outcome)
  case (Inr f)
  let ?c = "c\<lparr>cn_last_recv := now\<rparr>"
  obtain r c1 b1 where d: "dispatch lost now f ?c (sy_broker s) = (r, c1, b1)" by (metis surj_pair)
  have ok: "conn_ok s ?c" "cn_reader ?c = Reading" using assms(2,3) by (simp_all add: conn_ok_def)
  have "after_reader (r, c1, b1) = (c', b')" using assms(4) Inr d by (simp add: reader_turn_def)
  from after_reader_run [OF assms(1) run_dispatch [OF assms(1) ok d] this assms(5)]
  have "conn_run s ?c (c', b')" .
  then show ?thesis by (rule conn_run_same) simp
next
  case (Inl e)
  show ?thesis
  proof (cases "\<exists>t. e = ProtocolError t")
    case True
    then obtain t where t: "e = ProtocolError t" by blast
    let ?c = "snd (send_error lost t MNone c)"
    have "conn_ok s ?c" using assms(2) by (simp add: conn_ok_def)
    moreover have "teardown ?c (sy_broker s) = (c', b')" using assms(4) Inl t by (simp add: reader_turn_def)
    ultimately have "conn_run s ?c (c', b')" by (rule conn_run_teardown [OF assms(1) _ _ assms(5)])
    then show ?thesis by (rule conn_run_same) simp
  next
    case False
    then have "teardown c (sy_broker s) = (c', b')"
      using assms(4) Inl by (simp add: reader_turn_def split: py_exn.splits)
    then show ?thesis by (rule conn_run_teardown [OF assms(1,2) _ assms(5)])
  qed
qed

lemma run_pump_turn:
  assumes "sys_inv s" "conn_ok s c" "j < length (cn_subs c)" "pump_turn lost j c (sy_broker s) = (c', b')"
    and "no_collision b'"
  shows "conn_run s c (c', b')"
proof -
  obtain sid a t where e: "cn_subs c ! j = (sid, a, t)" by (metis prod.collapse)
  obtain n b1 where n: "stream_next a (sy_broker s) = (n, b1)" by fastforce
  have known: "subs_known (sy_broker s) (cn_subs c)" using assms(2) by (simp add: conn_ok_def)
  have a: "a < length (bk_regs (sy_broker s))" using subs_known_nth [OF known assms(3) e] by simp
  have c': "b' = b1" "cn_reader c' = cn_reader c"
    "cn_subs c' = cn_subs c \<or> cn_subs c' = dict_pop sid (cn_subs c) \<or> (\<exists>t. cn_subs c' = (cn_subs c)[j := (sid, a, t)])"
    "\<And>x. x \<in> set (cn_inflight c') \<Longrightarrow> x \<in> set (cn_inflight c) \<or> n = Next (snd x)"
    using assms(4) e n
    by (auto simp: pump_turn_def split: next_result.splits sum.splits prod.splits dest!: sent_session(1) set_dict_setD)
  from run_stream_next [OF assms(1) a n] assms(5) c'(1) obtain s'
    where s': "reaches s s'" "sy_broker s' = b1" "sy_parked s' = sy_parked s" "\<And>d. n = Next d \<Longrightarrow> d \<in> set (sy_handed s')"
    by blast
  have ok: "conn_ok s' c" using assms(2) s'(1) by (rule conn_ok_reaches)
  have "subs_known (sy_broker s') (cn_subs c')"
    using c'(3) ok subs_known_pop subs_known_update [OF _ assms(3) e] by (auto simp: conn_ok_def)
  moreover have "\<forall>x\<in>set (cn_inflight c'). snd x \<in> set (sy_handed s')"
    using c'(4) ok s'(4) by (fastforce simp: conn_ok_def)
  ultimately have "conn_ok s' c'" by (simp add: conn_ok_def)
  from turn_runI [OF s'(1,2) this s'(3)] c'(1) waiting_same [OF c'(2)] show ?thesis by (simp add: conn_run_def)
qed

lemma run_heartbeat_turn:
  assumes "sys_inv s" "conn_ok s c" "heartbeat_turn lost timeout now c (sy_broker s) = (c', b')" "no_collision b'"
  shows "conn_run s c (c', b')"
proof (cases "now - cn_last_recv c > timeout")
  case True
  let ?c = "c\<lparr>cn_heartbeat := Some Returned\<rparr>"
  have "teardown ?c (sy_broker s) = (c', b')" using assms(3) True by (simp add: heartbeat_turn_def)
  moreover have "conn_ok s ?c" using assms(2) by (simp add: conn_ok_def)
  ultimately have "conn_run s ?c (c', b')" using conn_run_teardown [OF assms(1)] assms(4) by blast
  then show ?thesis by (rule conn_run_same) simp
next
  case False
  then have c': "b' = sy_broker s" "same_session c c'"
    using assms(3) by (auto simp: heartbeat_turn_def same_session_def split: sum.splits prod.splits dest!: sent_session(1))
  then have "conn_ok s c'" using assms(2) by (simp add: conn_ok_def same_session_def)
  moreover have "waiting c' = waiting c" using c'(2) by (simp add: same_session_def waiting_def)
  ultimately show ?thesis using conn_run_idle [OF assms(1)] c'(1) by blast
qed

lemma run_conn_act:
  assumes "sys_inv s" "conn_ok s c" "mset (waiting c) \<subseteq># mset (sy_parked s)"
    and "conn_act x timeout c (sy_broker s) = (c', b')" "no_collision b'"
  shows "conn_run s c (c', b')"
proof -
  have idle: "conn_run s c (c, sy_broker s)" using conn_run_idle [OF assms(1,2)] by simp
  show ?thesis
  proof (cases x)
    case (Frame i lost now outcome)
    then show ?thesis
      using assms idle run_server_handshake run_reader_turn by (cases "cn_reader c") (auto, blast+)
  next
    case (GateTurn i lost)
    show ?thesis
    proof (cases "cn_reader c")
      case (AtGate rid m)
      obtain r c1 b1 where g: "gate_turn lost rid m c (sy_broker s) = (r, c1, b1)" by (metis surj_pair)
      have "m \<in> set (sy_parked s)" using assms(3) AtGate by (simp add: mset_subset_eq_single)
      from after_reader_run [OF assms(1) run_gate_turn [OF assms(1,2) AtGate this g] _ assms(5)] assms(4) AtGate GateTurn g
      show ?thesis by simp
    qed (use assms(4) GateTurn idle in auto)
  next
    case (PumpTurn i j lost)
    then show ?thesis using assms idle run_pump_turn [OF assms(1,2)] by (auto split: if_splits)
  next
    case (HeartbeatTurn i lost now)
    then show ?thesis using assms idle run_heartbeat_turn [OF assms(1,2)] by (auto split: if_splits)
  next
    case (AbortConn i)
    have "conn_run s c (c\<lparr>cn_open := False\<rparr>, sy_broker s)"
      using conn_run_idle [OF assms(1), of "c\<lparr>cn_open := False\<rparr>" c] assms(2) by (simp add: conn_ok_def waiting_def)
    then show ?thesis
      using AbortConn assms(4,5) idle conn_run_teardown [OF assms(1,2)] by (auto simp: abort_def split: reader.splits)
  qed (use assms(4) idle in auto)
qed

section \<open>Draws only grow here too\<close>

lemma later_eq: "f b = (r, b') \<Longrightarrow> later b (snd (f b)) \<Longrightarrow> later b b'"
  by simp

lemma later_on_register: "on_register lost f c b = (r, c', b') \<Longrightarrow> later b b'"
  by (auto simp: on_register_def Let_def split: sum.splits prod.splits if_splits dest!: later_eq [OF _ later_register_topic])

lemma later_on_publish: "on_publish lost now f c b = (r, c', b') \<Longrightarrow> later b b'"
  by (auto simp: on_publish_def Let_def split: sum.splits prod.splits)
    (metis later_publish prod.collapse reply_published_cases(1))

lemma later_gate_turn: "gate_turn lost rid m c b = (r, c', b') \<Longrightarrow> later b b'"
  unfolding gate_turn_def by (metis later_publish_resume prod.collapse reply_published_cases(1))

lemma later_on_subscribe: "on_subscribe lost f c b = (r, c', b') \<Longrightarrow> later b b'"
  by (auto simp: on_subscribe_def Let_def split: sum.splits prod.splits if_splits dest!: later_eq [OF _ later_broker_subscribe])

lemma later_settle: "act = ack \<or> act = nack \<Longrightarrow> settle act f c b = (r, c', b') \<Longrightarrow> later b b'"
  by (auto simp: settle_def Let_def split: sum.splits option.splits prod.splits
      dest!: later_eq [OF _ later_ack] later_eq [OF _ later_nack])

lemma later_on_unsubscribe: "on_unsubscribe f c b = (r, c', b') \<Longrightarrow> later b b'"
  by (auto simp: on_unsubscribe_def split: sum.splits option.splits intro: later_stream_unsubscribe)

lemma later_dispatch: "dispatch lost now f c b = (r, c', b') \<Longrightarrow> later b b'"
  by (auto simp: dispatch_def on_ack_def on_nack_def split: if_splits prod.splits
      intro: later_on_register later_on_publish later_on_subscribe later_on_unsubscribe later_settle)

lemma later_after_reader:
  assumes "later b b1"
  shows "later b (snd (after_reader (r, c1, b1)))"
  using assms later_trans [OF assms later_teardown] by (auto simp: after_reader_def split: sum.split)

lemma later_reader_turn: "later b (snd (reader_turn lost now outcome c b))"
proof (cases outcome)
  case (Inr f)
  obtain r c1 b1 where "dispatch lost now f (c\<lparr>cn_last_recv := now\<rparr>) b = (r, c1, b1)" by (metis surj_pair)
  with Inr later_after_reader [OF later_dispatch [OF this]] show ?thesis by (simp add: reader_turn_def)
qed (auto simp: reader_turn_def later_teardown split: py_exn.split)

lemma later_pump_turn: "later b (snd (pump_turn lost j c b))"
  by (auto simp: pump_turn_def split: prod.split next_result.split sum.split dest!: later_eq [OF _ later_stream_next])

lemma later_heartbeat_turn: "later b (snd (heartbeat_turn lost timeout now c b))"
  by (auto simp: heartbeat_turn_def later_teardown split: prod.split sum.split)

lemma later_conn_act: "later b (snd (conn_act x timeout c b))"
proof (cases x)
  case (GateTurn i lost)
  show ?thesis
  proof (cases "cn_reader c")
    case (AtGate rid m)
    obtain r c1 b1 where "gate_turn lost rid m c b = (r, c1, b1)" by (metis surj_pair)
    with AtGate GateTurn later_after_reader [OF later_gate_turn [OF this]] show ?thesis by simp
  qed (use GateTurn in simp_all)
qed (simp_all add: later_reader_turn later_pump_turn later_heartbeat_turn later_teardown abort_def split: reader.split)

lemma later_sr_act: "later (sr_broker sr) (sr_broker (sr_act x sr))"
  by (auto simp: sr_act_def put_conn_def later_wake_task later_conn_act simp del: conn_act.simps
      split: sr_action.split option.split)

lemma later_sr_run: "later (sr_broker sr) (sr_broker (sr_run xs sr))"
  unfolding sr_run_def
proof (induction xs arbitrary: sr)
  case (Cons x xs)
  from later_trans [OF later_sr_act Cons.IH] show ?case by simp
qed simp

section \<open>The server and the broker's transition system\<close>

definition all_waiting :: "conn list \<Rightarrow> message multiset" where
  "all_waiting cs = (\<Sum>c\<in>#mset cs. mset (waiting c))"

lemma all_waiting_split: "i < length cs \<Longrightarrow> \<exists>W. all_waiting cs = mset (waiting (cs ! i)) + W \<and>
    (\<forall>c. all_waiting (cs[i := c]) = mset (waiting c) + W)"
proof -
  assume i: "i < length cs"
  let ?W = "\<Sum>c\<in>#mset cs - {#cs ! i#}. mset (waiting c)"
  have all: "all_waiting (cs[i := c]) = mset (waiting c) + ?W" for c
    using i by (simp add: all_waiting_def mset_update)
  from all [of "cs ! i"] all show ?thesis by (intro exI [of _ ?W]) simp
qed

definition server_rel :: "'d sys \<Rightarrow> 'd server \<Rightarrow> bool" where
  "server_rel s sr \<longleftrightarrow>
     sys_inv s \<and> sy_broker s = sr_broker sr \<and> (\<forall>c\<in>set (sr_conns sr). conn_ok s c) \<and>
     all_waiting (sr_conns sr) \<subseteq># mset (sy_parked s)"

lemma sr_act_target:
  assumes "target x = Some i"
  shows "sr_act x sr =
    (if i < length (sr_conns sr) then put_conn i (conn_act x (sr_timeout sr) (sr_conns sr ! i) (sr_broker sr)) sr else sr)"
  using assms by (cases x) (simp_all add: sr_act_def del: conn_act.simps)

lemma sr_act_retry:
  "sr_act (RetryTurn i draw) sr =
    (if i < length (bk_tasks (sr_broker sr)) then sr\<lparr>sr_broker := snd (wake_task i draw (sr_broker sr))\<rparr> else sr)"
  by (simp add: sr_act_def)

text \<open>One action of the server is a run of the broker.\<close>

lemma server_rel_act:
  assumes "server_rel s sr" "no_collision (sr_broker (sr_act x sr))"
  shows "\<exists>s'. reaches s s' \<and> server_rel s' (sr_act x sr)"
proof -
  have inv: "sys_inv s" "sy_broker s = sr_broker sr" "\<And>c. c \<in> set (sr_conns sr) \<Longrightarrow> conn_ok s c"
    and sub: "all_waiting (sr_conns sr) \<subseteq># mset (sy_parked s)" using assms(1) by (auto simp: server_rel_def)
  consider (accept) packb now where "x = Accept packb now"
    | (retry) i draw where "x = RetryTurn i draw" "i < length (bk_tasks (sr_broker sr))"
    | (conn) i where "sr_act x sr = put_conn i (conn_act x (sr_timeout sr) (sr_conns sr ! i) (sr_broker sr)) sr"
        "i < length (sr_conns sr)"
    | (idle) "sr_act x sr = sr"
  proof (cases "target x")
    case None
    then consider packb now where "x = Accept packb now" | i draw where "x = RetryTurn i draw" by (cases x) auto
    then show ?thesis
    proof cases
      case 1
      then show ?thesis by (rule accept)
    next
      case (2 i draw)
      then show ?thesis using retry idle sr_act_retry [of i draw sr] by (cases "i < length (bk_tasks (sr_broker sr))") auto
    qed
  next
    case (Some i)
    from sr_act_target [OF this, of sr] show ?thesis using conn idle by (cases "i < length (sr_conns sr)") simp_all
  qed
  then show ?thesis
  proof cases
    case accept
    have "conn_ok s (new_conn packb now)" by (simp add: conn_ok_def new_conn_def)
    moreover have "waiting (new_conn packb now) = []" by (simp add: new_conn_def waiting_def)
    ultimately have "server_rel s (sr_act x sr)"
      using assms(1) accept by (auto simp: server_rel_def sr_act_def all_waiting_def)
    with reaches_refl [OF inv(1)] show ?thesis by blast
  next
    case retry
    then have act: "sr_act x sr = sr\<lparr>sr_broker := snd (wake_task i draw (sr_broker sr))\<rparr>" by (simp add: sr_act_def)
    from run_wake_task [OF inv(1), of i draw] retry(2) inv(2) assms(2) act obtain s'
      where s': "reaches s s'" "sy_broker s' = snd (wake_task i draw (sr_broker sr))" "sy_parked s' = sy_parked s" by auto
    then have "server_rel s' (sr_act x sr)"
      using sub reaches_inv [OF s'(1)] conn_ok_reaches [OF inv(3) s'(1)] by (simp add: server_rel_def act)
    with s'(1) show ?thesis by blast
  next
    case (conn i)
    let ?c = "sr_conns sr ! i"
    obtain c' b' where a: "conn_act x (sr_timeout sr) ?c (sr_broker sr) = (c', b')" by fastforce
    have act: "sr_conns (sr_act x sr) = (sr_conns sr)[i := c']" "sr_broker (sr_act x sr) = b'"
      using conn a by (simp_all add: put_conn_def)
    obtain W where W: "all_waiting (sr_conns sr) = mset (waiting ?c) + W"
      "\<And>c. all_waiting ((sr_conns sr)[i := c]) = mset (waiting c) + W" using all_waiting_split [OF conn(2)] by blast
    have "mset (waiting ?c) \<subseteq># mset (sy_parked s)" using sub W(1) by (simp add: mset_subset_eq_add_left subset_mset.order_trans [rotated])
    from run_conn_act [OF inv(1) inv(3) [OF nth_mem [OF conn(2)]] this] a act(2) inv(2) assms(2)
    have "conn_run s ?c (c', b')" by simp
    then obtain s' where s': "reaches s s'" "sy_broker s' = b'" "conn_ok s' c'"
      "mset (waiting c') + W \<subseteq># mset (sy_parked s')"
      using sub W(1) by (auto simp: conn_run_def turn_run_def)
    have "\<forall>c\<in>set ((sr_conns sr)[i := c']). conn_ok s' c"
      using inv(3) s'(1,3) conn_ok_reaches set_update_subset_insert [of "sr_conns sr" i c'] by blast
    then have "server_rel s' (sr_act x sr)"
      using s' W(2) act reaches_inv by (simp add: server_rel_def)
    with s'(1) show ?thesis by blast
  next
    case idle
    with assms(1) reaches_refl [OF inv(1)] show ?thesis by auto
  qed
qed

lemma server_rel_run:
  assumes "server_rel s sr" "no_collision (sr_broker (sr_run xs sr))"
  shows "\<exists>s'. reaches s s' \<and> server_rel s' (sr_run xs sr)"
  using assms
proof (induction xs arbitrary: s sr)
  case Nil
  then show ?case using reaches_refl by (auto simp: sr_run_def server_rel_def)
next
  case (Cons x xs)
  have run: "sr_run (x # xs) sr = sr_run xs (sr_act x sr)" by (simp add: sr_run_def)
  have "no_collision (sr_broker (sr_act x sr))"
    using Cons.prems(2) run later_no_collision [OF later_sr_run] by metis
  from server_rel_act [OF Cons.prems(1) this] obtain s1 where s1: "reaches s s1" "server_rel s1 (sr_act x sr)" by blast
  from Cons.IH [OF s1(2)] Cons.prems(2) run obtain s2 where "reaches s1 s2" "server_rel s2 (sr_run (x # xs) sr)" by auto
  with reaches_trans [OF s1(1)] show ?case by blast
qed

end
