(* ===== verification/Anext.thy ===== *)
theory Anext
  imports Prelude
begin

text \<open>
  \<open>__anext__\<close> of the two delivery streams, \<open>_SubscriptionStream\<close> (\<open>pubsub/server/broker.py\<close>) and
  \<open>_Subscription\<close> (\<open>pubsub/transport/client.py\<close>): the same code over a queue and a closed event.
  It starts a task that takes from the queue and one that waits for the event, and waits for
  the first of the two, so the item is out of the queue before the consumer runs again.  The
  record holds what the two streams share; \<open>se_get\<close> is the task that takes from the queue.
\<close>

datatype 'a get_task = NoTask | Getting | Got 'a

record 'a selecting =
  se_queue :: "'a list"
  se_closed :: bool
  se_get :: "'a get_task"

datatype 'a next_outcome = Yield 'a | StopIteration | Cancelled

definition se_push :: "'a \<Rightarrow> ('a, 'z) selecting_scheme \<Rightarrow> ('a, 'z) selecting_scheme" where
  "se_push d s = s\<lparr>se_queue := se_queue s @ [d]\<rparr>"

definition se_close :: "('a, 'z) selecting_scheme \<Rightarrow> ('a, 'z) selecting_scheme" where
  "se_close s = s\<lparr>se_closed := True\<rparr>"

text \<open>Up to \<open>asyncio.wait\<close>.\<close>

definition anext_begin :: "('a, 'z) selecting_scheme \<Rightarrow> 'a next_outcome option \<times> ('a, 'z) selecting_scheme" where
  "anext_begin s =
     (if se_closed s \<and> se_queue s = [] then (Some StopIteration, s) else (None, s\<lparr>se_get := Getting\<rparr>))"

text \<open>The task that takes from the queue, when it runs and the queue has an item.\<close>

definition get_runs :: "('a, 'z) selecting_scheme \<Rightarrow> ('a, 'z) selecting_scheme" where
  "get_runs s =
     (case (se_get s, se_queue s) of
        (Getting, d # ds) \<Rightarrow> s\<lparr>se_queue := ds, se_get := Got d\<rparr>
      | _ \<Rightarrow> s)"

text \<open>
  After \<open>asyncio.wait\<close>: a delivery that was taken wins over the close signal; while neither
  task is done the consumer stays where it is.
\<close>

definition anext_wakes :: "('a, 'z) selecting_scheme \<Rightarrow> 'a next_outcome option \<times> ('a, 'z) selecting_scheme" where
  "anext_wakes s =
     (case se_get s of
        Got d \<Rightarrow> (Some (Yield d), s\<lparr>se_get := NoTask\<rparr>)
      | Getting \<Rightarrow> if se_closed s then (Some StopIteration, s\<lparr>se_get := NoTask\<rparr>) else (None, s)
      | NoTask \<Rightarrow> (None, s))"

text \<open>The handler of \<open>CancelledError\<close>: both tasks are cancelled, a finished one with its result.\<close>

definition anext_cancel :: "('a, 'z) selecting_scheme \<Rightarrow> 'a next_outcome option \<times> ('a, 'z) selecting_scheme" where
  "anext_cancel s = (if se_get s = NoTask then (None, s) else (Some Cancelled, s\<lparr>se_get := NoTask\<rparr>))"

section \<open>Interleavings\<close>

text \<open>The producer, the consumer and the task, in any order; the outcomes the consumer saw.\<close>

datatype 'a se_action = Push 'a | Close | Begin | TaskRuns | Wakes | Cancel

fun se_act :: "'a se_action \<Rightarrow> ('a, 'z) selecting_scheme \<Rightarrow> 'a next_outcome option \<times> ('a, 'z) selecting_scheme" where
  "se_act (Push d) s = (None, se_push d s)"
| "se_act Close s = (None, se_close s)"
| "se_act Begin s = (if se_get s = NoTask then anext_begin s else (None, s))"
| "se_act TaskRuns s = (None, get_runs s)"
| "se_act Wakes s = anext_wakes s"
| "se_act Cancel s = anext_cancel s"

fun se_run :: "'a se_action list \<Rightarrow> ('a, 'z) selecting_scheme \<Rightarrow> 'a next_outcome list \<times> ('a, 'z) selecting_scheme" where
  "se_run [] s = ([], s)"
| "se_run (x # xs) s =
     (let (r, s1) = se_act x s; (rs, s2) = se_run xs s1
      in (case r of None \<Rightarrow> rs | Some y \<Rightarrow> y # rs, s2))"

fun pushed :: "'a se_action list \<Rightarrow> 'a list" where
  "pushed [] = []"
| "pushed (Push d # xs) = d # pushed xs"
| "pushed (x # xs) = pushed xs"

fun yielded :: "'a next_outcome list \<Rightarrow> 'a list" where
  "yielded [] = []"
| "yielded (Yield d # rs) = d # yielded rs"
| "yielded (r # rs) = yielded rs"

fun in_hand :: "'a get_task \<Rightarrow> 'a list" where
  "in_hand (Got d) = [d]"
| "in_hand _ = []"

text \<open>What one action does to the deliveries that are still to be handed over.\<close>

lemma act_conserves:
  assumes "se_act x s = (r, s')" "x \<noteq> Cancel"
  shows "in_hand (se_get s) @ se_queue s @ pushed [x] =
         (case r of Some (Yield d) \<Rightarrow> [d] | _ \<Rightarrow> []) @ in_hand (se_get s') @ se_queue s'"
  using assms
  by (cases x)
    (auto simp: se_push_def se_close_def anext_begin_def get_runs_def anext_wakes_def
      split: if_splits get_task.splits list.splits)

lemma act_stop:
  assumes "se_act x s = (Some StopIteration, s')"
  shows "se_closed s \<and> in_hand (se_get s') = []"
  using assms
  by (cases x)
    (auto simp: se_push_def se_close_def anext_begin_def get_runs_def anext_wakes_def anext_cancel_def
      split: if_splits get_task.splits list.splits)

lemma pushed_Cons: "pushed (x # xs) = pushed [x] @ pushed xs"
  by (cases x) simp_all

lemma yielded_opt:
  "yielded (case r of None \<Rightarrow> rs | Some y \<Rightarrow> y # rs) = (case r of Some (Yield d) \<Rightarrow> [d] | _ \<Rightarrow> []) @ yielded rs"
  by (auto split: option.split next_outcome.split)

section \<open>Properties\<close>

text \<open>
  C32. Streams hand over every delivery once and in order: in any interleaving of a producer,
  a consumer and the tasks of \<open>__anext__\<close> in which no call is cancelled, what the consumer got,
  followed by what a task holds for it and by the queue, is what was there and what was pushed.
\<close>

theorem anext_hands_over_in_order:
  assumes "se_run xs s = (rs, s')" "Cancel \<notin> set xs"
  shows "yielded rs @ in_hand (se_get s') @ se_queue s' = in_hand (se_get s) @ se_queue s @ pushed xs"
  using assms
proof (induction xs arbitrary: s rs)
  case Nil
  then show ?case by simp
next
  case (Cons x xs)
  obtain r s1 rs1 where act: "se_act x s = (r, s1)" and run: "se_run xs s1 = (rs1, s')"
    and rs: "rs = (case r of None \<Rightarrow> rs1 | Some y \<Rightarrow> y # rs1)"
    using Cons.prems(1) by (auto simp: Let_def split: prod.splits)
  have "x \<noteq> Cancel" using Cons.prems(2) by auto
  note one = act_conserves [OF act this]
  have ih: "yielded rs1 @ in_hand (se_get s') @ se_queue s' = in_hand (se_get s1) @ se_queue s1 @ pushed xs"
    using Cons.IH [OF run] Cons.prems(2) by simp
  show ?case
    unfolding rs yielded_opt pushed_Cons [of x xs]
    using arg_cong [OF one, of "\<lambda>l. l @ pushed xs"] by (simp add: ih)
qed

definition idle_stream :: "nat selecting" where
  "idle_stream = \<lparr>se_queue = [], se_closed = False, se_get = NoTask\<rparr>"

theorem anext_hands_over_in_order_witness:
  "yielded (fst (se_run [Begin, Push 1, TaskRuns, Push (2 :: nat), Close, Wakes, Begin, TaskRuns, Wakes] idle_stream)) = [1, 2]"
proof -
  let ?xs = "[Begin, Push 1, TaskRuns, Push (2 :: nat), Close, Wakes, Begin, TaskRuns, Wakes]"
  obtain rs s where run: "se_run ?xs idle_stream = (rs, s)" by fastforce
  have "in_hand (se_get (snd (se_run ?xs idle_stream))) = []" "se_queue (snd (se_run ?xs idle_stream)) = []"
    by code_simp+
  with anext_hands_over_in_order [OF run] run show ?thesis by (simp add: idle_stream_def)
qed

text \<open>
  A cancelled \<open>__anext__\<close> can lose a delivery: when the cancellation arrives after the task
  took the delivery and before the consumer runs, the delivery is neither returned nor in the
  queue, and the next call does not see it.
\<close>

theorem cancelled_next_loses_delivery:
  assumes "se_get s = Getting" "se_queue s = d # ds"
  shows "\<exists>s'. se_run [TaskRuns, Cancel] s = ([Cancelled], s') \<and> se_queue s' = ds \<and> se_get s' = NoTask"
  using assms by (simp add: get_runs_def anext_cancel_def Let_def)

theorem cancelled_next_loses_delivery_witness:
  "\<exists>s'. se_run [TaskRuns, Cancel] (idle_stream\<lparr>se_queue := [7], se_get := Getting\<rparr>) = ([Cancelled], s') \<and>
     se_queue s' = []"
proof -
  have "se_get (idle_stream\<lparr>se_queue := [7], se_get := Getting\<rparr>) = Getting"
    "se_queue (idle_stream\<lparr>se_queue := [7], se_get := Getting\<rparr>) = 7 # []" by simp_all
  from cancelled_next_loses_delivery [OF this] show ?thesis by blast
qed

end
