(* ===== verification/Client.thy ===== *)
theory Client
  imports Anext Wire Retry
begin

text \<open>
  The TCP client (\<open>pubsub/transport/client.py\<close>).  Futures, subscription handles and sockets are
  shared objects and live in heaps indexed by address; a coroutine is cut at its suspension
  points, and what waits there is data: the callers in \<open>cl_calls\<close>, the reconnect task in
  \<open>cl_rc\<close>.  What the network does is an argument: whether a write finds the connection lost, and
  the outcome of reading a frame.
\<close>

section \<open>State\<close>

record csub = "delivery selecting" +
  cs_local_id :: string
  cs_selector :: string
  cs_policy :: replay_policy
  cs_server_sid :: "string option"
  cs_last_acked :: "timestamp option"

text \<open>A socket: the frames written to it, and whether its read loop and its heartbeat task run.\<close>

record cconn =
  cc_sent :: "frame list"
  cc_open :: bool
  cc_reading :: bool
  cc_heartbeat :: bool

text \<open>A request on its way: its id and the address of its future.\<close>

type_synonym request = "int \<times> nat"

datatype call = RegisterCall request | PublishCall request | SubscribeCall nat request

datatype call_result = RegisterDone "unit result" | PublishDone "publish_result result" | SubscribeDone "nat result"

text \<open>
  The reconnect task: none, at the loop's test, asleep for a delay before its next attempt, about to
  resubscribe a list of handles, or waiting for the reply for one of them.
\<close>

datatype rc_task =
    RcNone
  | RcTest nat
  | RcSleep nat real
  | RcResume nat "nat list"
  | RcReply nat nat request "nat list"

record client =
  cl_reconnect :: bool
  cl_base :: real
  cl_cap :: real
  cl_max_reconnect :: "int option"
  cl_packb :: "mpval \<Rightarrow> byte list result"
  cl_next_rid :: int
  cl_next_local :: nat
  cl_futures :: "frame result option list"
  cl_pending :: "(int, nat) dict"
  cl_handles :: "csub list"
  cl_subs :: "(string, nat) dict"
  cl_by_server :: "(string, nat) dict"
  cl_conns :: "cconn list"
  cl_writer :: "nat option"
  cl_connected :: bool
  cl_rc :: rc_task
  cl_closed :: bool
  cl_calls :: "call list"
  cl_results :: "call_result list"

definition DEFAULT_RECONNECT_BASE :: real where "DEFAULT_RECONNECT_BASE = 1 / 2"
definition DEFAULT_RECONNECT_CAP :: real where "DEFAULT_RECONNECT_CAP = 30"

definition client_init :: "bool \<Rightarrow> real \<Rightarrow> real \<Rightarrow> int option \<Rightarrow> (mpval \<Rightarrow> byte list result) \<Rightarrow> client" where
  "client_init reconnect base cap limit packb =
     \<lparr>cl_reconnect = reconnect, cl_base = base, cl_cap = cap, cl_max_reconnect = limit, cl_packb = packb,
      cl_next_rid = 1, cl_next_local = 1, cl_futures = [], cl_pending = [], cl_handles = [], cl_subs = [],
      cl_by_server = [], cl_conns = [], cl_writer = None, cl_connected = False, cl_rc = RcNone,
      cl_closed = False, cl_calls = [], cl_results = []\<rparr>"

definition new_handle :: "string \<Rightarrow> string \<Rightarrow> replay_policy \<Rightarrow> csub" where
  "new_handle local_id selector policy =
     \<lparr>se_queue = [], se_closed = False, se_get = NoTask, cs_local_id = local_id, cs_selector = selector,
      cs_policy = policy, cs_server_sid = None, cs_last_acked = None\<rparr>"

definition upd_handle :: "nat \<Rightarrow> (csub \<Rightarrow> csub) \<Rightarrow> client \<Rightarrow> client" where
  "upd_handle a g c = c\<lparr>cl_handles := (cl_handles c)[a := g (cl_handles c ! a)]\<rparr>"

section \<open>Writes and requests\<close>

definition raw_send :: "bool \<Rightarrow> frame \<Rightarrow> client \<Rightarrow> unit result \<times> client" where
  "raw_send lost f c =
     (case cl_writer c of
        None \<Rightarrow> (Inl (ConnectionError ''not connected''), c)
      | Some k \<Rightarrow>
          (case encode_frame (cl_packb c) f of
             Inl e \<Rightarrow> (Inl e, c)
           | Inr _ \<Rightarrow>
               (let conn = cl_conns c ! k in
                if lost \<or> \<not> cc_open conn then (Inl (ConnectionError ''Connection lost''), c)
                else (Inr (), c\<lparr>cl_conns := (cl_conns c)[k := conn\<lparr>cc_sent := cc_sent conn @ [f]\<rparr>]\<rparr>))))"

text \<open>\<open>_request\<close> up to \<open>await fut\<close>, and after it.\<close>

definition request_begin :: "bool \<Rightarrow> frame \<Rightarrow> client \<Rightarrow> request result \<times> client" where
  "request_begin lost f c =
     (if \<not> cl_connected c then (Inl (ConnectionError ''not connected''), c)
      else
        (let rid = cl_next_rid c; fut = length (cl_futures c);
             c1 = c\<lparr>cl_next_rid := rid + 1, cl_futures := cl_futures c @ [None],
                    cl_pending := dict_set rid fut (cl_pending c)\<rparr>
         in case raw_send lost (dict_set (MStr ''rid'') (MInt rid) f) c1 of
              (Inl e, c2) \<Rightarrow> (Inl e, c2\<lparr>cl_pending := dict_pop rid (cl_pending c2)\<rparr>)
            | (Inr _, c2) \<Rightarrow> (Inr (rid, fut), c2)))"

definition forget_request :: "request \<Rightarrow> client \<Rightarrow> client" where
  "forget_request rq c = c\<lparr>cl_pending := dict_pop (fst rq) (cl_pending c)\<rparr>"

definition request_end :: "request \<Rightarrow> client \<Rightarrow> (frame result \<times> client) option" where
  "request_end rq c =
     (case cl_futures c ! snd rq of None \<Rightarrow> None | Some r \<Rightarrow> Some (r, forget_request rq c))"

text \<open>\<open>if not fut.done(): fut.set_exception(exc)\<close> for every entry of the table.\<close>

fun fail_each :: "py_exn \<Rightarrow> (int, nat) dict \<Rightarrow> frame result option list \<Rightarrow> frame result option list" where
  "fail_each e [] fs = fs"
| "fail_each e ((rid, fut) # ps) fs = fail_each e ps (if fs ! fut = None then fs[fut := Some (Inl e)] else fs)"

definition fail_pending :: "py_exn \<Rightarrow> client \<Rightarrow> client" where
  "fail_pending e c =
     c\<lparr>cl_futures := fail_each e (cl_pending c) (cl_futures c), cl_pending := []\<rparr>"

definition check_reply :: "frame \<Rightarrow> unit result" where
  "check_reply f = (if has_op f ERROR then Inl (ProtocolError (mp_str (get_or_none f ''detail''))) else Inr ())"

section \<open>Register and publish\<close>

definition register_frame :: "string \<Rightarrow> bool \<Rightarrow> frame" where
  "register_frame topic replayable =
     [(MStr ''op'', MStr (op_str REGISTER)), (MStr ''topic'', MStr topic), (MStr ''replayable'', MBool replayable)]"

definition publish_frame :: "string \<Rightarrow> mpval \<Rightarrow> (string, mpval) dict option \<Rightarrow> frame" where
  "publish_frame topic payload extras =
     [(MStr ''op'', MStr (op_str PUBLISH)), (MStr ''topic'', MStr topic), (MStr ''payload'', payload),
      (MStr ''extras'', MDict (str_keys (case extras of None \<Rightarrow> [] | Some d \<Rightarrow> d)))]"

definition publish_reply :: "frame \<Rightarrow> publish_result result" where
  "publish_reply f = bind_result (check_reply f) (\<lambda>_. publish_result_from_wire f)"

section \<open>Subscriptions\<close>

definition subscribe_frame :: "string \<Rightarrow> replay_policy \<Rightarrow> frame" where
  "subscribe_frame selector policy =
     [(MStr ''op'', MStr (op_str SUBSCRIBE)), (MStr ''selector'', MStr selector),
      (MStr ''replay'', MDict (replay_to_wire policy))]"

text \<open>\<open>_activate\<close> after its request.\<close>

definition activate_end :: "nat \<Rightarrow> frame \<Rightarrow> client \<Rightarrow> unit result \<times> client" where
  "activate_end a f c =
     (case bind_result (check_reply f) (\<lambda>_. item f ''subscription_id'') of
        Inl e \<Rightarrow> (Inl e, c)
      | Inr v \<Rightarrow>
          (let sid = mp_str v; c1 = upd_handle a (\<lambda>h. h\<lparr>cs_server_sid := Some sid\<rparr>) c
           in (Inr (), c1\<lparr>cl_by_server := dict_set sid a (cl_by_server c1)\<rparr>)))"

text \<open>\<open>subscribe\<close> up to the wait in \<open>_activate\<close>: the handle is entered before the request.\<close>

definition client_subscribe :: "bool \<Rightarrow> string \<Rightarrow> replay_policy option \<Rightarrow> client \<Rightarrow> (nat \<times> request) result \<times> client" where
  "client_subscribe lost selector replay c =
     (let policy = (case replay of None \<Rightarrow> FutureOnly | Some p \<Rightarrow> p);
          local_id = dec (cl_next_local c); a = length (cl_handles c);
          c1 = c\<lparr>cl_next_local := Suc (cl_next_local c),
                 cl_handles := cl_handles c @ [new_handle local_id selector policy],
                 cl_subs := dict_set local_id a (cl_subs c)\<rparr>
      in case request_begin lost (subscribe_frame selector policy) c1 of
           (Inl e, c2) \<Rightarrow> (Inl e, c2)
         | (Inr rq, c2) \<Rightarrow> (Inr (a, rq), c2))"

definition resume_policy :: "csub \<Rightarrow> replay_policy" where
  "resume_policy h =
     (case cs_policy h of
        FromUnixTimestamp ts \<Rightarrow>
          (case cs_last_acked h of Some t \<Rightarrow> FromUnixTimestamp t | None \<Rightarrow> cs_policy h)
      | FutureOnly \<Rightarrow> FutureOnly)"

definition note_ack :: "timestamp \<Rightarrow> csub \<Rightarrow> csub" where
  "note_ack ts h =
     (if (case cs_last_acked h of None \<Rightarrow> True | Some t \<Rightarrow> ts > t) then h\<lparr>cs_last_acked := Some ts\<rparr> else h)"

definition send_ack :: "bool \<Rightarrow> string \<Rightarrow> client \<Rightarrow> unit result \<times> client" where
  [simp]: "send_ack lost did = raw_send lost [(MStr ''op'', MStr (op_str ACK)), (MStr ''delivery_id'', MStr did)]"

definition send_nack :: "bool \<Rightarrow> string \<Rightarrow> client \<Rightarrow> unit result \<times> client" where
  [simp]: "send_nack lost did = raw_send lost [(MStr ''op'', MStr (op_str NACK)), (MStr ''delivery_id'', MStr did)]"

definition send_unsubscribe :: "bool \<Rightarrow> string \<Rightarrow> client \<Rightarrow> unit result \<times> client" where
  [simp]: "send_unsubscribe lost sid =
     raw_send lost [(MStr ''op'', MStr (op_str UNSUBSCRIBE)), (MStr ''subscription_id'', MStr sid)]"

text \<open>The property of a handle; a handle whose request has not been answered yet has no id.\<close>

definition subscription_id :: "csub \<Rightarrow> string result" where
  "subscription_id h =
     (case cs_server_sid h of None \<Rightarrow> Inl (RuntimeError ''subscription not active'') | Some sid \<Rightarrow> Inr sid)"

definition client_ack :: "bool \<Rightarrow> nat \<Rightarrow> delivery \<Rightarrow> client \<Rightarrow> unit result \<times> client" where
  "client_ack lost a d c =
     send_ack lost (dl_id d)
       (upd_handle a (note_ack (msg_created_at (dl_message d))) c)"

definition client_nack :: "bool \<Rightarrow> nat \<Rightarrow> delivery \<Rightarrow> client \<Rightarrow> unit result \<times> client" where
  "client_nack lost a d c =
     send_nack lost (dl_id d) c"

fun is_connection_error :: "py_exn \<Rightarrow> bool" where
  "is_connection_error (ConnectionError _) = True"
| "is_connection_error _ = False"

definition client_unsubscribe :: "bool \<Rightarrow> nat \<Rightarrow> client \<Rightarrow> unit result \<times> client" where
  "client_unsubscribe lost a c =
     (let c1 = c\<lparr>cl_subs := dict_pop (cs_local_id (cl_handles c ! a)) (cl_subs c)\<rparr> in
      case cs_server_sid (cl_handles c ! a) of
        None \<Rightarrow> (Inr (), upd_handle a se_close c1)
      | Some sid \<Rightarrow>
          (case send_unsubscribe lost sid
                  (c1\<lparr>cl_by_server := dict_pop sid (cl_by_server c1)\<rparr>) of
             (Inl e, c2) \<Rightarrow>
               if is_connection_error e then (Inr (), upd_handle a se_close c2) else (Inl e, c2)
           | (Inr _, c2) \<Rightarrow> (Inr (), upd_handle a se_close c2)))"

section \<open>The read loop\<close>

text \<open>\<open>isinstance(rid, int)\<close>: a boolean is an integer.\<close>

fun mp_rid :: "mpval \<Rightarrow> int option" where
  "mp_rid (MInt n) = Some n"
| "mp_rid (MBool b) = Some (if b then 1 else 0)"
| "mp_rid _ = None"

definition resolve_reply :: "frame \<Rightarrow> client \<Rightarrow> client" where
  "resolve_reply f c =
     (case mp_rid (get_or_none f ''rid'') of
        None \<Rightarrow> c
      | Some rid \<Rightarrow>
          (case dict_get (cl_pending c) rid of
             None \<Rightarrow> c
           | Some fut \<Rightarrow>
               if cl_futures c ! fut = None then c\<lparr>cl_futures := (cl_futures c)[fut := Some (Inr f)]\<rparr> else c))"

definition route_delivery :: "frame \<Rightarrow> client \<Rightarrow> unit result \<times> client" where
  "route_delivery f c =
     (case delivery_from_wire f of
        Inl e \<Rightarrow> (Inl e, c)
      | Inr d \<Rightarrow>
          (Inr (), case dict_get (cl_by_server c) (dl_sid d) of
                     None \<Rightarrow> c
                   | Some a \<Rightarrow> upd_handle a (se_push d) c))"

definition sub_closed :: "frame \<Rightarrow> client \<Rightarrow> client" where
  "sub_closed f c =
     (let sid = mp_str (get_or_none f ''subscription_id'') in
      case dict_get (cl_by_server c) sid of
        None \<Rightarrow> c
      | Some a \<Rightarrow>
          upd_handle a se_close
            (c\<lparr>cl_by_server := dict_pop sid (cl_by_server c),
               cl_subs := dict_pop (cs_local_id (cl_handles c ! a)) (cl_subs c)\<rparr>))"

definition on_frame :: "frame \<Rightarrow> client \<Rightarrow> unit result \<times> client" where
  "on_frame f c =
     (if has_op f REGISTER_OK \<or> has_op f PUBLISH_RESULT \<or> has_op f SUBSCRIBE_OK \<or> has_op f ERROR
      then (Inr (), resolve_reply f c)
      else if has_op f DELIVERY then route_delivery f c
      else if has_op f SUB_CLOSED then (Inr (), sub_closed f c)
      else (Inr (), c))"

definition close_handles :: "client \<Rightarrow> client" where
  "close_handles c =
     c\<lparr>cl_handles := fold (\<lambda>(k, a) hs. hs[a := se_close (hs ! a)]) (cl_subs c) (cl_handles c)\<rparr>"

definition close_writer :: "client \<Rightarrow> client" where
  "close_writer c =
     (case cl_writer c of
        None \<Rightarrow> c
      | Some k \<Rightarrow> c\<lparr>cl_conns := (cl_conns c)[k := (cl_conns c ! k)\<lparr>cc_open := False\<rparr>]\<rparr>)"

text \<open>\<open>self._hb_task.cancel()\<close>: the task was started together with the writer.\<close>

definition cancel_heartbeat :: "client \<Rightarrow> client" where
  "cancel_heartbeat c =
     (case cl_writer c of
        None \<Rightarrow> c
      | Some k \<Rightarrow> c\<lparr>cl_conns := (cl_conns c)[k := (cl_conns c ! k)\<lparr>cc_heartbeat := False\<rparr>]\<rparr>)"

definition on_disconnect :: "client \<Rightarrow> client" where
  "on_disconnect c =
     (let c1 = close_writer (cancel_heartbeat (c\<lparr>cl_connected := False, cl_by_server := []\<rparr>));
          c2 = fail_pending (ConnectionError ''connection lost'') c1
      in if cl_closed c2 \<or> \<not> cl_reconnect c2 then close_handles c2
         else if cl_rc c2 = RcNone then c2\<lparr>cl_rc := RcTest 0\<rparr>
         else c2)"

text \<open>One turn of the read loop of socket \<open>k\<close>; when a frame cannot be read or handled, its end.\<close>

definition read_loop :: "nat \<Rightarrow> frame result \<Rightarrow> client \<Rightarrow> client" where
  "read_loop k outcome c =
     (let ended = (\<lambda>c. on_disconnect (c\<lparr>cl_conns := (cl_conns c)[k := (cl_conns c ! k)\<lparr>cc_reading := False\<rparr>]\<rparr>)) in
      case outcome of
        Inl _ \<Rightarrow> ended c
      | Inr f \<Rightarrow> (case on_frame f c of (Inl _, c') \<Rightarrow> ended c' | (Inr _, c') \<Rightarrow> c'))"

section \<open>Opening and reopening the connection\<close>

definition handshake :: "frame \<Rightarrow> unit result" where
  "handshake welcome =
     (if \<not> has_op welcome WELCOME
      then Inl (ProtocolError (''expected welcome, got '' @ mp_repr (get_or_none welcome ''op'')))
      else if \<not> equals_int (get_or_none welcome ''version'') PROTOCOL_VERSION
      then Inl (ProtocolError (''server version '' @ mp_repr (get_or_none welcome ''version'') @ '' unsupported''))
      else Inr ())"

definition HELLO_FRAME :: frame where
  "HELLO_FRAME = [(MStr ''op'', MStr (op_str HELLO)), (MStr ''version'', MInt PROTOCOL_VERSION)]"

text \<open>\<open>_open\<close>: the argument is the outcome of connecting and reading the first frame.\<close>

definition open_connection :: "frame result \<Rightarrow> client \<Rightarrow> unit result \<times> client" where
  "open_connection outcome c =
     (case bind_result outcome handshake of
        Inl e \<Rightarrow> (Inl e, c)
      | Inr _ \<Rightarrow>
          (Inr (), c\<lparr>cl_writer := Some (length (cl_conns c)),
                     cl_conns := cl_conns c @ [\<lparr>cc_sent = [HELLO_FRAME], cc_open = True, cc_reading = True, cc_heartbeat = True\<rparr>],
                     cl_connected := True\<rparr>))"

definition reconnect_delay :: "client \<Rightarrow> nat \<Rightarrow> real result" where
  "reconnect_delay c attempt =
     bind_result (scale_by_pow2 (cl_base c) (int attempt)) (\<lambda>d. Inr (min d (cl_cap c)))"

definition give_up :: "client \<Rightarrow> client" where
  "give_up c = (close_handles c)\<lparr>cl_subs := [], cl_rc := RcNone\<rparr>"

text \<open>The loop's test up to the sleep; an exception ends the task.\<close>

definition rc_test :: "nat \<Rightarrow> client \<Rightarrow> client" where
  "rc_test attempt c =
     (if cl_closed c \<or> (case cl_max_reconnect c of None \<Rightarrow> False | Some n \<Rightarrow> int attempt \<ge> n) then give_up c
      else case reconnect_delay c attempt of
             Inl _ \<Rightarrow> c\<lparr>cl_rc := RcNone\<rparr>
           | Inr d \<Rightarrow> c\<lparr>cl_rc := RcSleep attempt d\<rparr>)"

fun open_caught :: "py_exn \<Rightarrow> bool" where
  "open_caught (ConnectionError _) = True"
| "open_caught (ProtocolError _) = True"
| "open_caught IncompleteReadError = True"
| "open_caught _ = False"

fun resume_caught :: "py_exn \<Rightarrow> bool" where
  "resume_caught (ConnectionError _) = True"
| "resume_caught (ProtocolError _) = True"
| "resume_caught _ = False"

definition rc_open :: "nat \<Rightarrow> frame result \<Rightarrow> client \<Rightarrow> client" where
  "rc_open attempt outcome c =
     (case open_connection outcome c of
        (Inl e, c') \<Rightarrow> c'\<lparr>cl_rc := (if open_caught e then RcTest (Suc attempt) else RcNone)\<rparr>
      | (Inr _, c') \<Rightarrow> c'\<lparr>cl_rc := RcResume (Suc attempt) (map snd (cl_subs c'))\<rparr>)"

definition resume_failed :: "nat \<Rightarrow> py_exn \<Rightarrow> client \<Rightarrow> client" where
  "resume_failed attempt e c = c\<lparr>cl_rc := (if resume_caught e then RcTest attempt else RcNone)\<rparr>"

fun rc_resume :: "bool \<Rightarrow> nat \<Rightarrow> nat list \<Rightarrow> client \<Rightarrow> client" where
  "rc_resume lost attempt [] c = c\<lparr>cl_rc := RcNone\<rparr>"
| "rc_resume lost attempt (a # as) c =
     (let h = cl_handles c ! a in
      case request_begin lost (subscribe_frame (cs_selector h) (resume_policy h)) c of
        (Inl e, c') \<Rightarrow> resume_failed attempt e c'
      | (Inr rq, c') \<Rightarrow> c'\<lparr>cl_rc := RcReply attempt a rq as\<rparr>)"

definition rc_reply :: "nat \<Rightarrow> nat \<Rightarrow> request \<Rightarrow> nat list \<Rightarrow> client \<Rightarrow> client" where
  "rc_reply attempt a rq as c =
     (case request_end rq c of
        None \<Rightarrow> c
      | Some (Inl e, c') \<Rightarrow> resume_failed attempt e c'
      | Some (Inr f, c') \<Rightarrow>
          (case activate_end a f c' of
             (Inl e, c'') \<Rightarrow> resume_failed attempt e c''
           | (Inr _, c'') \<Rightarrow> c''\<lparr>cl_rc := RcResume attempt as\<rparr>))"

text \<open>
  One turn of the heartbeat task of socket \<open>k\<close>, after its sleep: it writes to the writer of the
  moment, and any exception ends it.
\<close>

definition client_heartbeat :: "bool \<Rightarrow> nat \<Rightarrow> client \<Rightarrow> client" where
  "client_heartbeat lost k c =
     (case raw_send lost HEARTBEAT_FRAME c of
        (Inl _, c') \<Rightarrow> c'\<lparr>cl_conns := (cl_conns c')[k := (cl_conns c' ! k)\<lparr>cc_heartbeat := False\<rparr>]\<rparr>
      | (Inr _, c') \<Rightarrow> c')"

text \<open>\<open>close\<close>: cancelling the reconnect task takes its request out of the table.\<close>

definition client_close :: "client \<Rightarrow> client" where
  "client_close c =
     (if cl_closed c then c
      else close_writer (fail_pending (ConnectionError ''client closed'')
             ((close_handles (cancel_heartbeat (c\<lparr>cl_closed := True, cl_rc := RcNone\<rparr>)))\<lparr>cl_subs := [], cl_by_server := []\<rparr>)))"

section \<open>Callers\<close>

definition begin_call :: "(request \<Rightarrow> call) \<Rightarrow> (py_exn \<Rightarrow> call_result) \<Rightarrow> request result \<times> client \<Rightarrow> client" where
  "begin_call mk failed rc =
     (case rc of
        (Inl e, c) \<Rightarrow> c\<lparr>cl_results := cl_results c @ [failed e]\<rparr>
      | (Inr rq, c) \<Rightarrow> c\<lparr>cl_calls := cl_calls c @ [mk rq]\<rparr>)"

definition client_register :: "bool \<Rightarrow> string \<Rightarrow> bool \<Rightarrow> client \<Rightarrow> client" where
  "client_register lost topic replayable c =
     begin_call RegisterCall (\<lambda>e. RegisterDone (Inl e)) (request_begin lost (register_frame topic replayable) c)"

definition client_publish :: "bool \<Rightarrow> string \<Rightarrow> mpval \<Rightarrow> (string, mpval) dict option \<Rightarrow> client \<Rightarrow> client" where
  "client_publish lost topic payload extras c =
     begin_call PublishCall (\<lambda>e. PublishDone (Inl e)) (request_begin lost (publish_frame topic payload extras) c)"

definition subscribe_call :: "bool \<Rightarrow> string \<Rightarrow> replay_policy option \<Rightarrow> client \<Rightarrow> client" where
  "subscribe_call lost selector replay c =
     (case client_subscribe lost selector replay c of
        (Inl e, c') \<Rightarrow> c'\<lparr>cl_results := cl_results c' @ [SubscribeDone (Inl e)]\<rparr>
      | (Inr (a, rq), c') \<Rightarrow> c'\<lparr>cl_calls := cl_calls c' @ [SubscribeCall a rq]\<rparr>)"

fun call_request :: "call \<Rightarrow> request" where
  "call_request (RegisterCall rq) = rq"
| "call_request (PublishCall rq) = rq"
| "call_request (SubscribeCall a rq) = rq"

text \<open>What a caller gets when its future is done.\<close>

fun call_end :: "call \<Rightarrow> frame result \<Rightarrow> client \<Rightarrow> call_result \<times> client" where
  "call_end (RegisterCall rq) r c = (RegisterDone (bind_result r check_reply), c)"
| "call_end (PublishCall rq) r c = (PublishDone (bind_result r publish_reply), c)"
| "call_end (SubscribeCall a rq) (Inl e) c = (SubscribeDone (Inl e), c)"
| "call_end (SubscribeCall a rq) (Inr f) c =
     (case activate_end a f c of
        (Inl e, c') \<Rightarrow> (SubscribeDone (Inl e), c')
      | (Inr _, c') \<Rightarrow> (SubscribeDone (Inr a), c'))"

definition drop_call :: "nat \<Rightarrow> client \<Rightarrow> client" where
  "drop_call i c = c\<lparr>cl_calls := take i (cl_calls c) @ drop (Suc i) (cl_calls c)\<rparr>"

definition resume_call :: "nat \<Rightarrow> client \<Rightarrow> client" where
  "resume_call i c =
     (case request_end (call_request (cl_calls c ! i)) c of
        None \<Rightarrow> c
      | Some (r, c1) \<Rightarrow>
          (let (res, c2) = call_end (cl_calls c ! i) r c1
           in drop_call i (c2\<lparr>cl_results := cl_results c2 @ [res]\<rparr>)))"

definition cancel_call :: "nat \<Rightarrow> client \<Rightarrow> client" where
  "cancel_call i c = drop_call i (forget_request (call_request (cl_calls c ! i)) c)"

section \<open>Every interleaving\<close>

datatype client_action =
    Register bool string bool
  | Publish bool string mpval "(string, mpval) dict option"
  | Subscribe bool string "replay_policy option"
  | ResumeCall nat
  | CancelCall nat
  | ReadFrame nat "frame result"
  | RcTurn bool "frame result"
  | AckIt bool nat delivery
  | NackIt bool nat delivery
  | Unsubscribe bool nat
  | Consume nat "delivery se_action"
  | ClientHeartbeat bool nat
  | CloseClient

text \<open>The actions of \<open>__anext__\<close> itself; pushing and closing are the client's.\<close>

fun consumer_action :: "'a se_action \<Rightarrow> bool" where
  "consumer_action (Push d) = False"
| "consumer_action Close = False"
| "consumer_action x = True"

text \<open>
  One action; an action that is not possible leaves the state alone.  The reconnect task's
  turn takes what the network does as arguments and uses what its place in the loop needs.
\<close>

fun client_act :: "client_action \<Rightarrow> client \<Rightarrow> client" where
  "client_act (Register lost topic replayable) c = client_register lost topic replayable c"
| "client_act (Publish lost topic payload extras) c = client_publish lost topic payload extras c"
| "client_act (Subscribe lost selector replay) c = subscribe_call lost selector replay c"
| "client_act (ResumeCall i) c = (if i < length (cl_calls c) then resume_call i c else c)"
| "client_act (CancelCall i) c = (if i < length (cl_calls c) then cancel_call i c else c)"
| "client_act (ReadFrame k outcome) c =
     (if k < length (cl_conns c) \<and> cc_reading (cl_conns c ! k) then read_loop k outcome c else c)"
| "client_act (RcTurn lost outcome) c =
     (case cl_rc c of
        RcNone \<Rightarrow> c
      | RcTest n \<Rightarrow> rc_test n c
      | RcSleep n d \<Rightarrow> rc_open n outcome c
      | RcResume n as \<Rightarrow> rc_resume lost n as c
      | RcReply n a rq as \<Rightarrow> rc_reply n a rq as c)"
| "client_act (AckIt lost a d) c = (if a < length (cl_handles c) then snd (client_ack lost a d c) else c)"
| "client_act (NackIt lost a d) c = (if a < length (cl_handles c) then snd (client_nack lost a d c) else c)"
| "client_act (Unsubscribe lost a) c = (if a < length (cl_handles c) then snd (client_unsubscribe lost a c) else c)"
| "client_act (Consume a x) c =
     (if a < length (cl_handles c) \<and> consumer_action x
      then upd_handle a (\<lambda>h. snd (se_act x h)) c else c)"
| "client_act (ClientHeartbeat lost k) c =
     (if k < length (cl_conns c) \<and> cc_heartbeat (cl_conns c ! k) then client_heartbeat lost k c else c)"
| "client_act CloseClient c = client_close c"

definition client_run :: "client_action list \<Rightarrow> client \<Rightarrow> client" where
  "client_run xs c = fold client_act xs c"

text \<open>A client that has just connected.\<close>

definition client_start :: "bool \<Rightarrow> real \<Rightarrow> real \<Rightarrow> int option \<Rightarrow> (mpval \<Rightarrow> byte list result) \<Rightarrow> client" where
  "client_start reconnect base cap limit packb =
     snd (open_connection (Inr [(MStr ''op'', MStr (op_str WELCOME)), (MStr ''version'', MInt PROTOCOL_VERSION)])
       (client_init reconnect base cap limit packb))"

text \<open>What evaluates a concrete run by simplification.\<close>

lemmas client_eval =
  client_run_def client_start_def client_init_def open_connection_def handshake_def get_or_none_def has_op_def
  subscribe_call_def client_subscribe_def request_begin_def raw_send_def encode_frame_def MAX_FRAME_BYTES_def
  subscribe_frame_def publish_frame_def client_publish_def begin_call_def read_loop_def on_disconnect_def
  close_writer_def cancel_heartbeat_def fail_pending_def close_handles_def on_frame_def resolve_reply_def new_handle_def
  activate_end_def check_reply_def item_def upd_handle_def resume_call_def request_end_def forget_request_def
  drop_call_def se_push_def se_close_def Let_def

end
