(* ===== verification/Client_Inv.thy ===== *)
theory Client_Inv
  imports Client "HOL-Library.Multiset"
begin

text \<open>
  The invariant of the client: requests and their futures, and the references between its
  tables and heaps.  Each operation has one preservation lemma for each half.
\<close>

section \<open>Requests\<close>

definition rc_requests :: "rc_task \<Rightarrow> request list" where
  "rc_requests t = (case t of RcReply n a rq as \<Rightarrow> [rq] | _ \<Rightarrow> [])"

lemma rc_requests_simps [simp]:
  "rc_requests RcNone = []" "rc_requests (RcTest n) = []" "rc_requests (RcSleep n d) = []"
  "rc_requests (RcResume n as) = []" "rc_requests (RcReply n a rq as) = [rq]"
  by (simp_all add: rc_requests_def)

definition requests :: "client \<Rightarrow> request list" where
  "requests c = map call_request (cl_calls c) @ rc_requests (cl_rc c)"

text \<open>
  Request ids number the futures; a future that was resolved with a frame got the frame with
  its id; a future somebody waits on is done, or it is in the table under its id and the
  client is connected.
\<close>

definition waits :: "frame result option list \<Rightarrow> (int, nat) dict \<Rightarrow> bool \<Rightarrow> request \<Rightarrow> bool" where
  "waits futs pend conn rq \<longleftrightarrow>
     snd rq < length futs \<and> fst rq = int (snd rq) + 1 \<and>
     (futs ! snd rq = None \<longrightarrow> conn \<and> dict_get pend (fst rq) = Some (snd rq))"

definition futures_keyed :: "int \<Rightarrow> frame result option list \<Rightarrow> (int, nat) dict \<Rightarrow> bool" where
  "futures_keyed next futs pend \<longleftrightarrow>
     next = int (length futs) + 1 \<and>
     (\<forall>rid fut. dict_get pend rid = Some fut \<longrightarrow> fut < length futs \<and> rid = int fut + 1) \<and>
     (\<forall>fut < length futs. \<forall>f. futs ! fut = Some (Inr f) \<longrightarrow> mp_rid (get_or_none f ''rid'') = Some (int fut + 1))"

definition reqs_ok :: "int \<Rightarrow> frame result option list \<Rightarrow> (int, nat) dict \<Rightarrow> bool \<Rightarrow> request list \<Rightarrow> bool" where
  "reqs_ok next futs pend conn rqs \<longleftrightarrow>
     futures_keyed next futs pend \<and> (\<forall>rq\<in>set rqs. waits futs pend conn rq) \<and> distinct (map snd rqs)"

definition req_inv :: "client \<Rightarrow> bool" where
  "req_inv c \<longleftrightarrow> reqs_ok (cl_next_rid c) (cl_futures c) (cl_pending c) (cl_connected c) (requests c)"

lemma keyedD:
  assumes "futures_keyed n fs p"
  shows "n = int (length fs) + 1"
    "dict_get p rid = Some fut \<Longrightarrow> fut < length fs \<and> rid = int fut + 1"
    "i < length fs \<Longrightarrow> fs ! i = Some (Inr f) \<Longrightarrow> mp_rid (get_or_none f ''rid'') = Some (int i + 1)"
  using assms unfolding futures_keyed_def by blast+

lemma keyedI:
  assumes "n = int (length fs) + 1" "\<And>rid fut. dict_get p rid = Some fut \<Longrightarrow> fut < length fs \<and> rid = int fut + 1"
    and "\<And>i f. i < length fs \<Longrightarrow> fs ! i = Some (Inr f) \<Longrightarrow> mp_rid (get_or_none f ''rid'') = Some (int i + 1)"
  shows "futures_keyed n fs p"
  using assms unfolding futures_keyed_def by blast

lemma keyed_issue:
  assumes "futures_keyed n fs p"
  shows "futures_keyed (n + 1) (fs @ [None]) (dict_set n (length fs) p)"
    "futures_keyed (n + 1) (fs @ [None]) (dict_pop n (dict_set n (length fs) p))"
  using assms by (auto simp: futures_keyed_def dict_simps nth_append less_Suc_eq)

lemma waits_issue:
  assumes "waits fs p True rq" "n = int (length fs) + 1"
  shows "waits (fs @ [None]) (dict_set n (length fs) p) True rq"
    "waits (fs @ [None]) (dict_pop n (dict_set n (length fs) p)) True rq"
  using assms by (cases rq; simp add: waits_def dict_simps nth_append)+

lemma reqs_ok_issue:
  assumes "reqs_ok n fs p True rqs"
  shows "reqs_ok (n + 1) (fs @ [None]) (dict_set n (length fs) p) True rqs"
    "reqs_ok (n + 1) (fs @ [None]) (dict_pop n (dict_set n (length fs) p)) True rqs"
    "reqs_ok (n + 1) (fs @ [None]) (dict_set n (length fs) p) True (rqs @ [(n, length fs)])"
proof -
  have k: "futures_keyed n fs p" and w: "\<forall>rq\<in>set rqs. waits fs p True rq" and d: "distinct (map snd rqs)"
    using assms by (simp_all add: reqs_ok_def)
  have n: "n = int (length fs) + 1" using k by (simp add: futures_keyed_def)
  show one: "reqs_ok (n + 1) (fs @ [None]) (dict_set n (length fs) p) True rqs"
    using keyed_issue [OF k] waits_issue [OF _ n] w d by (simp add: reqs_ok_def)
  show "reqs_ok (n + 1) (fs @ [None]) (dict_pop n (dict_set n (length fs) p)) True rqs"
    using keyed_issue [OF k] waits_issue [OF _ n] w d by (simp add: reqs_ok_def)
  have "waits (fs @ [None]) (dict_set n (length fs) p) True (n, length fs)"
    using n by (simp add: waits_def dict_simps)
  moreover have "length fs \<notin> snd ` set rqs" using w by (auto simp: waits_def)
  ultimately show "reqs_ok (n + 1) (fs @ [None]) (dict_set n (length fs) p) True (rqs @ [(n, length fs)])"
    using one by (simp add: reqs_ok_def)
qed

lemma reqs_ok_cong:
  assumes "reqs_ok n fs p conn rqs" "mset rqs' = mset rqs"
  shows "reqs_ok n fs p conn rqs'"
proof -
  have "set rqs' = set rqs" using assms(2) by (metis set_mset_mset)
  moreover have "mset (map snd rqs') = mset (map snd rqs)" using assms(2) by simp
  then have "distinct (map snd rqs') = distinct (map snd rqs)" by (rule mset_eq_imp_distinct_iff)
  ultimately show ?thesis using assms(1) by (simp add: reqs_ok_def)
qed

lemma reqs_ok_forget:
  assumes "reqs_ok n fs p conn (rq # rqs)"
  shows "reqs_ok n fs (dict_pop (fst rq) p) conn rqs"
proof -
  have "waits fs (dict_pop (fst rq) p) conn q" if q: "q \<in> set rqs" for q
  proof -
    have "waits fs p conn q" "waits fs p conn rq" "snd q \<noteq> snd rq"
      using assms q by (auto simp: reqs_ok_def image_iff)
    then show ?thesis by (cases q; cases rq) (simp add: waits_def dict_simps)
  qed
  moreover have "futures_keyed n fs (dict_pop (fst rq) p)"
    using assms by (simp add: reqs_ok_def futures_keyed_def dict_simps)
  ultimately show ?thesis using assms by (simp add: reqs_ok_def)
qed

lemma reqs_ok_drop: "reqs_ok n fs p conn (rqs @ rqs') \<Longrightarrow> reqs_ok n fs p conn rqs"
  by (simp add: reqs_ok_def)

lemma reqs_ok_connect: "reqs_ok n fs p conn rqs \<Longrightarrow> reqs_ok n fs p True rqs"
  by (auto simp: reqs_ok_def waits_def)

lemma reqs_ok_resolve:
  assumes "reqs_ok n fs p conn rqs" "dict_get p rid = Some fut" "mp_rid (get_or_none f ''rid'') = Some rid"
  shows "reqs_ok n (fs[fut := Some (Inr f)]) p conn rqs"
proof -
  have k: "futures_keyed n fs p" using assms(1) by (simp add: reqs_ok_def)
  have "futures_keyed n (fs[fut := Some (Inr f)]) p"
  proof (rule keyedI)
    fix i g
    assume "i < length (fs[fut := Some (Inr f)])" "fs[fut := Some (Inr f)] ! i = Some (Inr g)"
    then show "mp_rid (get_or_none g ''rid'') = Some (int i + 1)"
      using keyedD(3) [OF k] keyedD(2) [OF k assms(2)] assms(3) by (cases "i = fut") auto
  qed (use keyedD(1,2) [OF k] in simp_all)
  moreover have "waits (fs[fut := Some (Inr f)]) p conn rq" if "waits fs p conn rq" for rq
    using that by (cases "snd rq = fut") (auto simp: waits_def)
  ultimately show ?thesis using assms(1) by (simp add: reqs_ok_def)
qed

lemma length_fail_each [simp]: "length (fail_each e ps fs) = length fs"
  by (induction e ps fs rule: fail_each.induct) simp_all

lemma fail_each_nth:
  "i < length fs \<Longrightarrow> fail_each e ps fs ! i = fs ! i \<or> fs ! i = None \<and> fail_each e ps fs ! i = Some (Inl e)"
proof (induction e ps fs rule: fail_each.induct)
  case (2 e rid fut ps fs)
  then show ?case by (cases "i = fut") (auto split: if_splits)
qed simp

lemma fail_each_done: "i < length fs \<Longrightarrow> fs ! i \<noteq> None \<Longrightarrow> fail_each e ps fs ! i \<noteq> None"
  using fail_each_nth [of i fs e ps] by auto

lemma fail_each_resolves: "(rid, i) \<in> set ps \<Longrightarrow> i < length fs \<Longrightarrow> fail_each e ps fs ! i \<noteq> None"
proof (induction e ps fs rule: fail_each.induct)
  case (2 e rid' fut ps fs)
  let ?fs = "if fs ! fut = None then fs[fut := Some (Inl e)] else fs"
  show ?case
  proof (cases "i = fut")
    case True
    with "2.prems" have "?fs ! i \<noteq> None" "i < length ?fs" by simp_all
    from fail_each_done [OF this(2,1)] show ?thesis by simp
  next
    case False
    with "2.prems" have "(rid, i) \<in> set ps" "i < length ?fs" by auto
    from "2.IH" [OF this] show ?thesis by simp
  qed
qed simp

lemma reqs_ok_fail:
  assumes "reqs_ok n fs p conn rqs"
  shows "reqs_ok n (fail_each e p fs) [] conn' rqs"
proof -
  have k: "futures_keyed n fs p" using assms by (simp add: reqs_ok_def)
  have "waits (fail_each e p fs) [] conn' rq" if w: "waits fs p conn rq" for rq
  proof -
    obtain rid fut where rq: "rq = (rid, fut)" by fastforce
    from w have fut: "fut < length fs" "rid = int fut + 1" by (simp_all add: waits_def rq)
    have "fail_each e p fs ! fut \<noteq> None"
    proof (cases "fs ! fut = None")
      case True
      with w have "(rid, fut) \<in> set p" by (auto simp: waits_def rq dest: map_of_SomeD)
      then show ?thesis using fut(1) by (rule fail_each_resolves)
    next
      case False
      with fut(1) show ?thesis by (rule fail_each_done)
    qed
    with fut show ?thesis by (simp add: waits_def rq)
  qed
  moreover have "futures_keyed n (fail_each e p fs) []"
  proof (rule keyedI)
    fix i f
    assume i: "i < length (fail_each e p fs)" "fail_each e p fs ! i = Some (Inr f)"
    with fail_each_nth [of i fs e p] have "fs ! i = Some (Inr f)" by auto
    then show "mp_rid (get_or_none f ''rid'') = Some (int i + 1)" using keyedD(3) [OF k] i(1) by simp
  qed (use keyedD(1) [OF k] in simp_all)
  ultimately show ?thesis using assms by (simp add: reqs_ok_def)
qed

section \<open>What leaves the requests alone\<close>

definition same_reqs :: "client \<Rightarrow> client \<Rightarrow> bool" where
  "same_reqs c c' \<longleftrightarrow>
     cl_next_rid c' = cl_next_rid c \<and> cl_futures c' = cl_futures c \<and> cl_pending c' = cl_pending c \<and>
     cl_connected c' = cl_connected c \<and> cl_calls c' = cl_calls c \<and> cl_rc c' = cl_rc c"

lemma req_inv_same: "same_reqs c c' \<Longrightarrow> req_inv c' = req_inv c"
  by (simp add: same_reqs_def req_inv_def requests_def)

lemma same_reqs_refl [simp]: "same_reqs c c"
  by (simp add: same_reqs_def)

lemma same_reqs_trans: "same_reqs a b \<Longrightarrow> same_reqs b c \<Longrightarrow> same_reqs a c"
  by (simp add: same_reqs_def)

lemma same_reqs_fields [simp]:
  "same_reqs c (upd_handle a g c)" "same_reqs c (close_handles c)" "same_reqs c (close_writer c)"
  "same_reqs c (c\<lparr>cl_results := rs\<rparr>)" "same_reqs c (c\<lparr>cl_subs := d\<rparr>)" "same_reqs c (c\<lparr>cl_by_server := d\<rparr>)"
  "same_reqs c (c\<lparr>cl_conns := cs\<rparr>)" "same_reqs c (cancel_heartbeat c)"
  by (simp_all add: same_reqs_def upd_handle_def close_handles_def close_writer_def cancel_heartbeat_def split: option.split)

lemma same_raw_send: "raw_send lost f c = (r, c') \<Longrightarrow> same_reqs c c'"
  by (auto simp: raw_send_def same_reqs_def Let_def split: option.splits sum.splits if_splits)

lemma same_activate: "activate_end a f c = (r, c') \<Longrightarrow> same_reqs c c'"
  by (auto simp: activate_end_def same_reqs_def upd_handle_def Let_def split: sum.splits)

lemma same_route: "route_delivery f c = (r, c') \<Longrightarrow> same_reqs c c'"
  by (auto simp: route_delivery_def split: sum.splits option.splits)

lemma same_sub_closed: "same_reqs c (sub_closed f c)"
  by (auto simp: sub_closed_def same_reqs_def upd_handle_def Let_def split: option.split)

lemma same_client_ack: "same_reqs c (snd (client_ack lost a d c))"
  unfolding client_ack_def send_ack_def using same_reqs_trans [OF same_reqs_fields(1) same_raw_send] by (metis prod.collapse)

lemma same_client_nack: "same_reqs c (snd (client_nack lost a d c))"
  unfolding client_nack_def send_nack_def using same_raw_send by (metis prod.collapse)

lemma same_client_heartbeat: "same_reqs c (client_heartbeat lost k c)"
  by (auto simp: client_heartbeat_def dest: same_raw_send intro: same_reqs_trans split: prod.split sum.split)

lemma same_client_unsubscribe: "same_reqs c (snd (client_unsubscribe lost a c))"
proof -
  have "same_reqs c c2"
    if "raw_send lost f (c\<lparr>cl_subs := x, cl_by_server := y\<rparr>) = (r, c2)" for f x y r c2
    using same_raw_send [OF that] by (simp add: same_reqs_def)
  then show ?thesis
    by (auto simp: client_unsubscribe_def Let_def upd_handle_def same_reqs_def split: option.splits sum.splits prod.splits)
qed

section \<open>Every action keeps the requests in order\<close>

lemma req_inv_resolve: "req_inv c \<Longrightarrow> req_inv (resolve_reply f c)"
  by (auto simp: resolve_reply_def req_inv_def requests_def intro: reqs_ok_resolve split: option.split)

lemma req_inv_on_frame: "req_inv c \<Longrightarrow> on_frame f c = (r, c') \<Longrightarrow> req_inv c'"
  using req_inv_same [OF same_route] req_inv_same [OF same_sub_closed] req_inv_resolve
  by (auto simp: on_frame_def split: if_splits)

lemma req_inv_fail:
  assumes "req_inv c"
  shows "req_inv ((fail_pending e c)\<lparr>cl_connected := b\<rparr>)"
  using reqs_ok_fail assms by (simp add: req_inv_def requests_def fail_pending_def)

lemma req_inv_on_disconnect:
  assumes "req_inv c"
  shows "req_inv (on_disconnect c)"
proof -
  let ?c1 = "close_writer (cancel_heartbeat (c\<lparr>cl_connected := False, cl_by_server := []\<rparr>))"
  let ?c2 = "fail_pending (ConnectionError ''connection lost'') ?c1"
  have "?c2 = (fail_pending (ConnectionError ''connection lost'') (close_writer (cancel_heartbeat (c\<lparr>cl_by_server := []\<rparr>))))\<lparr>cl_connected := False\<rparr>"
    by (simp add: fail_pending_def close_writer_def cancel_heartbeat_def split: option.split)
  moreover have "req_inv (close_writer (cancel_heartbeat (c\<lparr>cl_by_server := []\<rparr>)))"
    using assms by (simp add: req_inv_same [OF same_reqs_fields(3)] req_inv_same [OF same_reqs_fields(8)]
        req_inv_same [OF same_reqs_fields(6)])
  ultimately have c2: "req_inv ?c2" using req_inv_fail by metis
  then have "req_inv (close_handles ?c2)" using req_inv_same [OF same_reqs_fields(2)] by blast
  moreover have "req_inv (?c2\<lparr>cl_rc := RcTest 0\<rparr>)" if "cl_rc ?c2 = RcNone"
    using c2 that by (simp add: req_inv_def requests_def)
  ultimately show ?thesis using c2 by (simp add: on_disconnect_def Let_def)
qed

lemma req_inv_read_loop:
  assumes "req_inv c"
  shows "req_inv (read_loop k outcome c)"
proof -
  have "req_inv (on_disconnect (c'\<lparr>cl_conns := x\<rparr>))" if "req_inv c'" for c' x
    using that by (intro req_inv_on_disconnect) (simp add: req_inv_same [OF same_reqs_fields(7)])
  then show ?thesis
    using assms req_inv_on_frame [OF assms] by (auto simp: read_loop_def Let_def split: sum.split prod.split)
qed

lemma request_begin_reqs:
  assumes "req_inv c" "request_begin lost f c = (r, c')"
  shows "req_inv c' \<and> cl_calls c' = cl_calls c \<and> cl_rc c' = cl_rc c \<and>
    (\<forall>rq. r = Inr rq \<longrightarrow>
       reqs_ok (cl_next_rid c') (cl_futures c') (cl_pending c') (cl_connected c') (requests c' @ [rq]))"
proof (cases "cl_connected c")
  case False
  with assms show ?thesis by (auto simp: request_begin_def)
next
  case True
  let ?rid = "cl_next_rid c" and ?fut = "length (cl_futures c)"
  let ?c1 = "c\<lparr>cl_next_rid := ?rid + 1, cl_futures := cl_futures c @ [None], cl_pending := dict_set ?rid ?fut (cl_pending c)\<rparr>"
  obtain r1 c2 where send: "raw_send lost (dict_set (MStr ''rid'') (MInt ?rid) f) ?c1 = (r1, c2)" by fastforce
  have c2: "same_reqs ?c1 c2" using same_raw_send [OF send] .
  have ok: "reqs_ok ?rid (cl_futures c) (cl_pending c) True (requests c)" using assms(1) True by (simp add: req_inv_def)
  show ?thesis
  proof (cases r1)
    case (Inl e)
    with assms(2) True send have "c' = c2\<lparr>cl_pending := dict_pop ?rid (cl_pending c2)\<rparr>" "r = Inl e"
      by (auto simp: request_begin_def Let_def)
    with c2 True reqs_ok_issue(2) [OF ok] show ?thesis by (simp add: same_reqs_def req_inv_def requests_def)
  next
    case (Inr u)
    with assms(2) True send have "c' = c2" "r = Inr (?rid, ?fut)" by (auto simp: request_begin_def Let_def)
    with c2 True reqs_ok_issue(1,3) [OF ok] show ?thesis by (simp add: same_reqs_def req_inv_def requests_def)
  qed
qed

lemma req_inv_add_call:
  assumes "reqs_ok (cl_next_rid c) (cl_futures c) (cl_pending c) (cl_connected c) (requests c @ [call_request x])"
  shows "req_inv (c\<lparr>cl_calls := cl_calls c @ [x]\<rparr>)"
  unfolding req_inv_def requests_def using assms
  by (auto simp: requests_def intro!: reqs_ok_cong [OF assms [unfolded requests_def]])

lemma req_inv_begin_call:
  assumes "req_inv c" "\<And>rq. call_request (mk rq) = rq"
  shows "req_inv (begin_call mk failed (request_begin lost f c))"
proof -
  obtain r c' where rb: "request_begin lost f c = (r, c')" by fastforce
  note reqs = request_begin_reqs [OF assms(1) rb]
  show ?thesis
  proof (cases r)
    case (Inl e)
    with reqs req_inv_same [OF same_reqs_fields(4)] show ?thesis by (simp add: begin_call_def rb)
  next
    case (Inr rq)
    with reqs have "req_inv (c'\<lparr>cl_calls := cl_calls c' @ [mk rq]\<rparr>)"
      by (intro req_inv_add_call) (simp add: assms(2))
    then show ?thesis by (simp add: begin_call_def rb Inr)
  qed
qed

lemma req_inv_subscribe_call:
  assumes "req_inv c"
  shows "req_inv (subscribe_call lost selector replay c)"
proof -
  let ?p = "case replay of None \<Rightarrow> FutureOnly | Some p \<Rightarrow> p" and ?local = "dec (cl_next_local c)"
  let ?c1 = "c\<lparr>cl_next_local := Suc (cl_next_local c), cl_handles := cl_handles c @ [new_handle ?local selector ?p],
      cl_subs := dict_set ?local (length (cl_handles c)) (cl_subs c)\<rparr>"
  obtain r c2 where rb: "request_begin lost (subscribe_frame selector ?p) ?c1 = (r, c2)" by fastforce
  have "same_reqs c ?c1" by (simp add: same_reqs_def)
  then have "req_inv ?c1" using assms req_inv_same by blast
  note reqs = request_begin_reqs [OF this rb]
  show ?thesis
  proof (cases r)
    case (Inl e)
    with reqs req_inv_same [OF same_reqs_fields(4)] show ?thesis
      by (simp add: subscribe_call_def client_subscribe_def Let_def rb)
  next
    case (Inr rq)
    with reqs req_inv_add_call [of c2 "SubscribeCall (length (cl_handles c)) rq"]
    show ?thesis by (simp add: subscribe_call_def client_subscribe_def Let_def rb)
  qed
qed

text \<open>Taking one request out of the list of those in flight.\<close>

lemma requests_drop:
  assumes "i < length (cl_calls c)"
  shows "mset (requests c) = mset (call_request (cl_calls c ! i) # requests (drop_call i c))"
proof -
  have "cl_calls c = take i (cl_calls c) @ cl_calls c ! i # drop (Suc i) (cl_calls c)"
    using assms by (rule id_take_nth_drop)
  then have "mset (map call_request (cl_calls c)) =
      mset (call_request (cl_calls c ! i) # map call_request (take i (cl_calls c) @ drop (Suc i) (cl_calls c)))"
    by (metis (no_types, lifting) list.simps(9) map_append mset.simps(2) mset_append union_mset_add_mset_right)
  then show ?thesis by (simp add: requests_def drop_call_def)
qed

lemma req_inv_forget_drop:
  assumes "req_inv c" "i < length (cl_calls c)"
  shows "req_inv (drop_call i (forget_request (call_request (cl_calls c ! i)) c))"
proof -
  have "reqs_ok (cl_next_rid c) (cl_futures c) (cl_pending c) (cl_connected c)
      (call_request (cl_calls c ! i) # requests (drop_call i c))"
    using assms(1) requests_drop [OF assms(2)] unfolding req_inv_def by (metis reqs_ok_cong)
  from reqs_ok_forget [OF this] show ?thesis
    by (simp add: req_inv_def requests_def drop_call_def forget_request_def)
qed

lemma same_drop_call: "same_reqs c c' \<Longrightarrow> same_reqs (drop_call i c) (drop_call i c')"
  by (simp add: same_reqs_def drop_call_def)

lemma same_set_rc: "same_reqs c c' \<Longrightarrow> same_reqs (c\<lparr>cl_rc := t\<rparr>) (c'\<lparr>cl_rc := t\<rparr>)"
  by (simp add: same_reqs_def)

lemma same_call_end: "call_end x r c = (res, c') \<Longrightarrow> same_reqs c c'"
  by (cases "(x, r, c)" rule: call_end.cases) (auto dest: same_activate split: prod.splits sum.splits)

lemma same_forget: "same_reqs c c' \<Longrightarrow> same_reqs (forget_request rq c) (forget_request rq c')"
  by (simp add: same_reqs_def forget_request_def)

lemma req_inv_resume_call:
  assumes "req_inv c" "i < length (cl_calls c)"
  shows "req_inv (resume_call i c)"
proof (cases "request_end (call_request (cl_calls c ! i)) c")
  case None
  with assms(1) show ?thesis by (simp add: resume_call_def)
next
  case (Some p)
  then obtain r where p: "p = (r, forget_request (call_request (cl_calls c ! i)) c)"
    by (auto simp: request_end_def split: option.splits)
  obtain res c2 where e: "call_end (cl_calls c ! i) r (snd p) = (res, c2)" by fastforce
  have "same_reqs (snd p) (c2\<lparr>cl_results := cl_results c2 @ [res]\<rparr>)"
    using same_call_end [OF e] by (rule same_reqs_trans) simp
  from req_inv_same [OF same_drop_call [OF this, of i]] req_inv_forget_drop [OF assms]
  show ?thesis using Some e by (simp add: resume_call_def p)
qed

lemma req_inv_set_rc: "req_inv c \<Longrightarrow> rc_requests t = [] \<Longrightarrow> req_inv (c\<lparr>cl_rc := t\<rparr>)"
  unfolding req_inv_def requests_def by (auto intro: reqs_ok_drop)

lemma req_inv_open:
  assumes "req_inv c" "open_connection outcome c = (r, c')"
  shows "req_inv c'"
proof (cases "bind_result outcome handshake")
  case (Inl e)
  with assms show ?thesis by (simp add: open_connection_def)
next
  case (Inr u)
  with assms reqs_ok_connect show ?thesis by (auto simp: open_connection_def req_inv_def requests_def)
qed

lemma req_inv_rc_test: "req_inv c \<Longrightarrow> req_inv (rc_test n c)"
proof -
  assume c: "req_inv c"
  have "same_reqs ((close_handles c)\<lparr>cl_rc := RcNone\<rparr>) (give_up c)"
    by (simp add: same_reqs_def give_up_def)
  moreover have "req_inv ((close_handles c)\<lparr>cl_rc := RcNone\<rparr>)"
    using c by (intro req_inv_set_rc) (simp_all add: req_inv_same [OF same_reqs_fields(2)])
  ultimately have "req_inv (give_up c)" using req_inv_same by blast
  then show ?thesis using c by (auto simp: rc_test_def intro: req_inv_set_rc split: sum.split)
qed

lemma req_inv_rc_open: "req_inv c \<Longrightarrow> req_inv (rc_open n outcome c)"
  using req_inv_open [of c outcome] by (auto simp: rc_open_def intro!: req_inv_set_rc split: prod.split sum.split)

lemma req_inv_resume_failed: "req_inv c \<Longrightarrow> req_inv (resume_failed n e c)"
  by (auto simp: resume_failed_def intro!: req_inv_set_rc)

lemma req_inv_rc_resume:
  assumes "req_inv c" "rc_requests (cl_rc c) = []"
  shows "req_inv (rc_resume lost n as c)"
proof (cases as)
  case Nil
  with assms show ?thesis by (simp add: req_inv_set_rc)
next
  case (Cons a as')
  obtain r c' where rb: "request_begin lost (subscribe_frame (cs_selector (cl_handles c ! a)) (resume_policy (cl_handles c ! a))) c = (r, c')"
    by fastforce
  note reqs = request_begin_reqs [OF assms(1) rb]
  show ?thesis
  proof (cases r)
    case (Inl e)
    with reqs Cons rb show ?thesis by (simp add: Let_def req_inv_resume_failed)
  next
    case (Inr rq)
    with reqs assms(2) have "requests c' @ [rq] = requests (c'\<lparr>cl_rc := RcReply n a rq as'\<rparr>)"
      by (simp add: requests_def)
    with reqs Inr have "req_inv (c'\<lparr>cl_rc := RcReply n a rq as'\<rparr>)" by (simp add: req_inv_def)
    with Cons rb Inr show ?thesis by (simp add: Let_def)
  qed
qed

lemma req_inv_rc_reply:
  assumes "req_inv c" "cl_rc c = RcReply n a rq as"
  shows "req_inv (rc_reply n a rq as c)"
proof (cases "request_end rq c")
  case None
  with assms(1) show ?thesis by (simp add: rc_reply_def)
next
  case (Some p)
  then obtain r where p: "p = (r, forget_request rq c)" by (auto simp: request_end_def split: option.splits)
  have "reqs_ok (cl_next_rid c) (cl_futures c) (cl_pending c) (cl_connected c) (rq # map call_request (cl_calls c))"
    using assms reqs_ok_cong unfolding req_inv_def requests_def by force
  from reqs_ok_forget [OF this]
  have fin: "req_inv (c'\<lparr>cl_rc := t\<rparr>)" if "same_reqs (forget_request rq c) c'" "rc_requests t = []" for c' t
    using that by (simp add: same_reqs_def req_inv_def requests_def forget_request_def)
  show ?thesis
    using Some fin same_reqs_refl same_activate
    by (auto simp: rc_reply_def p resume_failed_def split: sum.split prod.split)
qed

lemma req_inv_close: "req_inv c \<Longrightarrow> req_inv (client_close c)"
proof -
  assume c: "req_inv c"
  let ?c1 = "(close_handles (cancel_heartbeat (c\<lparr>cl_closed := True, cl_rc := RcNone\<rparr>)))\<lparr>cl_subs := [], cl_by_server := []\<rparr>"
  have "same_reqs (c\<lparr>cl_rc := RcNone\<rparr>) ?c1"
    by (simp add: same_reqs_def close_handles_def cancel_heartbeat_def split: option.split)
  then have "req_inv ?c1" using c req_inv_set_rc [of c RcNone] req_inv_same by simp
  from req_inv_fail [OF this, where e = "ConnectionError ''client closed''" and b = "cl_connected ?c1"]
  have "req_inv (fail_pending (ConnectionError ''client closed'') ?c1)" by (simp add: fail_pending_def)
  then show ?thesis using c by (simp add: client_close_def req_inv_same [OF same_reqs_fields(3)])
qed

lemma req_inv_act: "req_inv c \<Longrightarrow> req_inv (client_act x c)"
proof (induction x c rule: client_act.induct)
  case (7 lost outcome c)
  then show ?case
    by (auto intro: req_inv_rc_test req_inv_rc_open req_inv_rc_resume req_inv_rc_reply split: rc_task.split)
qed (auto simp: client_register_def client_publish_def cancel_call_def req_inv_same [OF same_client_ack]
      req_inv_same [OF same_client_nack] req_inv_same [OF same_client_heartbeat] req_inv_same [OF same_client_unsubscribe] req_inv_same [OF same_reqs_fields(1)]
    intro: req_inv_begin_call req_inv_subscribe_call req_inv_resume_call req_inv_forget_drop req_inv_read_loop req_inv_close)

end
