(* ===== verification/Client_Refs.thy ===== *)
theory Client_Refs
  imports Client_Inv
begin

text \<open>
  The second half of the client's invariant: every address its tables and tasks hold points into
  the heaps, and a handle is entered under its own id.
\<close>

definition call_handles :: "call \<Rightarrow> nat list" where
  "call_handles x = (case x of SubscribeCall a rq \<Rightarrow> [a] | _ \<Rightarrow> [])"

definition rc_handles :: "rc_task \<Rightarrow> nat list" where
  "rc_handles t = (case t of RcResume n as \<Rightarrow> as | RcReply n a rq as \<Rightarrow> a # as | _ \<Rightarrow> [])"

lemma handles_simps [simp]:
  "call_handles (SubscribeCall a rq) = [a]" "call_handles (RegisterCall rq) = []" "call_handles (PublishCall rq) = []"
  "rc_handles RcNone = []" "rc_handles (RcTest n) = []" "rc_handles (RcSleep n d) = []"
  "rc_handles (RcResume n as) = as" "rc_handles (RcReply n a rq as) = a # as"
  by (simp_all add: call_handles_def rc_handles_def)

text \<open>The handles somebody refers to.\<close>

definition held :: "client \<Rightarrow> nat set" where
  "held c = snd ` set (cl_subs c) \<union> snd ` set (cl_by_server c) \<union> (\<Union>x\<in>set (cl_calls c). set (call_handles x)) \<union>
            set (rc_handles (cl_rc c))"

definition entered :: "csub list \<Rightarrow> (string, nat) dict \<Rightarrow> bool" where
  "entered hs d \<longleftrightarrow> (\<forall>(k, a)\<in>set d. cs_local_id (hs ! a) = k)"

lemma held_subs: "(k, a) \<in> set (cl_subs c) \<Longrightarrow> a \<in> held c"
  unfolding held_def by (metis (no_types) UnI1 image_eqI snd_conv)

lemma enteredD: "entered hs d \<Longrightarrow> (k, a) \<in> set d \<Longrightarrow> cs_local_id (hs ! a) = k"
  unfolding entered_def by blast

definition writer_ok :: "nat option \<Rightarrow> bool \<Rightarrow> nat \<Rightarrow> bool" where
  "writer_ok w conn n \<longleftrightarrow> (case w of None \<Rightarrow> \<not> conn | Some k \<Rightarrow> k < n)"

definition refs_inv :: "client \<Rightarrow> bool" where
  "refs_inv c \<longleftrightarrow>
     held c \<subseteq> {..< length (cl_handles c)} \<and> entered (cl_handles c) (cl_subs c) \<and>
     writer_ok (cl_writer c) (cl_connected c) (length (cl_conns c))"

text \<open>What an operation that allocates nothing may do.\<close>

definition refs_frame :: "client \<Rightarrow> client \<Rightarrow> bool" where
  "refs_frame c c' \<longleftrightarrow>
     held c' \<subseteq> held c \<and> map cs_local_id (cl_handles c') = map cs_local_id (cl_handles c) \<and>
     set (cl_subs c') \<subseteq> set (cl_subs c) \<and> cl_writer c' = cl_writer c \<and>
     length (cl_conns c') = length (cl_conns c) \<and> (cl_connected c' \<longrightarrow> cl_connected c)"

lemma refs_frame_inv:
  assumes "refs_frame c c'" "refs_inv c"
  shows "refs_inv c'"
proof -
  have len: "length (cl_handles c') = length (cl_handles c)"
    using assms(1) unfolding refs_frame_def by (metis length_map)
  have "cs_local_id (cl_handles c' ! a) = k" if ka: "(k, a) \<in> set (cl_subs c')" for k a
  proof -
    have "(k, a) \<in> set (cl_subs c)" using ka assms(1) by (auto simp: refs_frame_def)
    then have "a < length (cl_handles c)" "cs_local_id (cl_handles c ! a) = k"
      using assms(2) held_subs enteredD unfolding refs_inv_def by blast+
    moreover have "map cs_local_id (cl_handles c') ! a = map cs_local_id (cl_handles c) ! a"
      using assms(1) by (simp add: refs_frame_def)
    ultimately show ?thesis using len by simp
  qed
  then have "entered (cl_handles c') (cl_subs c')" by (auto simp: entered_def)
  then show ?thesis
    using assms len by (auto simp: refs_inv_def refs_frame_def writer_ok_def split: option.splits)
qed

lemma refs_frame_refl [simp]: "refs_frame c c"
  by (simp add: refs_frame_def)

lemma refs_frame_trans: "refs_frame a b \<Longrightarrow> refs_frame b c \<Longrightarrow> refs_frame a c"
  by (auto simp: refs_frame_def)

lemma frame_upd_handle:
  "(\<And>h. cs_local_id (g h) = cs_local_id h) \<Longrightarrow> refs_frame c (upd_handle a g c)"
  by (simp add: refs_frame_def upd_handle_def held_def map_update_same)

lemma frame_fields [simp]:
  "refs_frame c (c\<lparr>cl_results := rs\<rparr>)" "refs_frame c (c\<lparr>cl_futures := fs\<rparr>)" "refs_frame c (c\<lparr>cl_pending := p\<rparr>)"
  "refs_frame c (forget_request rq c)" "refs_frame c (fail_pending e c)" "refs_frame c (close_writer c)"
  "refs_frame c (cancel_heartbeat c)"
  by (auto simp: refs_frame_def held_def forget_request_def fail_pending_def close_writer_def cancel_heartbeat_def split: option.split)

lemma frame_close_handles [simp]: "refs_frame c (close_handles c)"
proof -
  have "map cs_local_id (fold (\<lambda>(k, a) hs. hs[a := se_close (hs ! a)]) ps hs) = map cs_local_id hs" for ps :: "(string, nat) dict" and hs
  proof (induction ps arbitrary: hs)
    case (Cons q ps)
    then show ?case by (cases q) (simp add: map_update_same se_close_def)
  qed simp
  then show ?thesis by (simp add: refs_frame_def held_def close_handles_def)
qed

lemma frame_raw_send: "raw_send lost f c = (r, c') \<Longrightarrow> refs_frame c c'"
  by (auto simp: raw_send_def refs_frame_def held_def Let_def split: option.splits sum.splits if_splits)

lemma frame_request_begin:
  assumes "request_begin lost f c = (r, c')"
  shows "refs_frame c c'"
proof (cases "cl_connected c")
  case False
  with assms show ?thesis by (auto simp: request_begin_def)
next
  case True
  let ?c1 = "c\<lparr>cl_next_rid := cl_next_rid c + 1, cl_futures := cl_futures c @ [None],
      cl_pending := dict_set (cl_next_rid c) (length (cl_futures c)) (cl_pending c)\<rparr>"
  obtain r1 c2 where send: "raw_send lost (dict_set (MStr ''rid'') (MInt (cl_next_rid c)) f) ?c1 = (r1, c2)" by fastforce
  have "refs_frame c ?c1" by (simp add: refs_frame_def held_def)
  then have c2: "refs_frame c c2" using frame_raw_send [OF send] by (rule refs_frame_trans)
  then have "refs_frame c (c2\<lparr>cl_pending := p\<rparr>)" for p by (rule refs_frame_trans) simp
  with c2 show ?thesis using assms True send by (auto simp: request_begin_def Let_def split: sum.splits)
qed

lemma frame_begin_call:
  assumes "\<And>rq. call_handles (mk rq) = []"
  shows "refs_frame c (begin_call mk failed (request_begin lost f c))"
proof -
  obtain r c' where rb: "request_begin lost f c = (r, c')" by fastforce
  have "refs_frame c' (begin_call mk failed (r, c'))"
    using assms by (auto simp: begin_call_def refs_frame_def held_def split: sum.split)
  then show ?thesis using frame_request_begin [OF rb] rb by (auto intro: refs_frame_trans)
qed

lemma refs_subscribe_call:
  assumes "refs_inv c"
  shows "refs_inv (subscribe_call lost selector replay c)"
proof -
  let ?p = "case replay of None \<Rightarrow> FutureOnly | Some p \<Rightarrow> p" and ?local = "dec (cl_next_local c)"
  let ?c1 = "c\<lparr>cl_next_local := Suc (cl_next_local c), cl_handles := cl_handles c @ [new_handle ?local selector ?p],
      cl_subs := dict_set ?local (length (cl_handles c)) (cl_subs c)\<rparr>"
  obtain r c2 where rb: "request_begin lost (subscribe_frame selector ?p) ?c1 = (r, c2)" by fastforce
  have old: "a < length (cl_handles c)" "cs_local_id (cl_handles c ! a) = k" if "(k, a) \<in> set (cl_subs c)" for k a
    using assms that held_subs enteredD unfolding refs_inv_def by blast+
  have "entered (cl_handles ?c1) (cl_subs ?c1)"
    by (auto simp: entered_def nth_append new_handle_def old dest!: set_dict_setD)
  moreover have "held ?c1 \<subseteq> insert (length (cl_handles c)) (held c)"
    by (auto simp: held_def dest!: set_dict_setD)
  moreover have "held c \<subseteq> {..< length (cl_handles c)}" using assms by (simp add: refs_inv_def)
  then have "insert (length (cl_handles c)) (held c) \<subseteq> {..< length (cl_handles ?c1)}" by auto
  ultimately have c1: "refs_inv ?c1"
    using assms unfolding refs_inv_def by auto
  have c2: "refs_inv c2" using refs_frame_inv [OF frame_request_begin [OF rb] c1] .
  have "map cs_local_id (cl_handles c2) = map cs_local_id (cl_handles ?c1)"
    using frame_request_begin [OF rb] by (simp add: refs_frame_def)
  from arg_cong [OF this, of length] have len: "length (cl_handles c2) = Suc (length (cl_handles c))" by simp
  show ?thesis
  proof (cases r)
    case (Inl e)
    with refs_frame_inv [OF frame_fields(1) c2] show ?thesis
      by (simp add: subscribe_call_def client_subscribe_def Let_def rb)
  next
    case (Inr rq)
    have "refs_inv (c2\<lparr>cl_calls := cl_calls c2 @ [SubscribeCall (length (cl_handles c)) rq]\<rparr>)"
      using c2 len by (auto simp: refs_inv_def held_def)
    with Inr show ?thesis by (simp add: subscribe_call_def client_subscribe_def Let_def rb)
  qed
qed

lemma refs_activate:
  assumes "refs_inv c" "a < length (cl_handles c)" "activate_end a f c = (r, c')"
  shows "refs_inv c' \<and> length (cl_handles c') = length (cl_handles c) \<and> cl_rc c' = cl_rc c"
proof (cases "bind_result (check_reply f) (\<lambda>_. item f ''subscription_id'')")
  case (Inl e)
  with assms show ?thesis by (auto simp: activate_end_def)
next
  case (Inr v)
  let ?c1 = "upd_handle a (\<lambda>h. h\<lparr>cs_server_sid := Some (mp_str v)\<rparr>) c"
  have "refs_inv ?c1" using refs_frame_inv [OF frame_upd_handle assms(1)] by simp
  moreover have "held (?c1\<lparr>cl_by_server := dict_set (mp_str v) a (cl_by_server ?c1)\<rparr>) \<subseteq> insert a (held ?c1)"
    by (auto simp: held_def dest!: set_dict_setD)
  moreover have "length (cl_handles ?c1) = length (cl_handles c)" by (simp add: upd_handle_def)
  ultimately have "refs_inv (?c1\<lparr>cl_by_server := dict_set (mp_str v) a (cl_by_server ?c1)\<rparr>)"
    using assms(2) by (auto simp: refs_inv_def)
  with assms Inr show ?thesis by (auto simp: activate_end_def Let_def upd_handle_def)
qed

lemma frame_pop: "refs_frame c (c\<lparr>cl_subs := dict_pop k (cl_subs c)\<rparr>)" "refs_frame c (c\<lparr>cl_by_server := dict_pop k (cl_by_server c)\<rparr>)"
  using set_dict_pop [of k "cl_subs c"] set_dict_pop [of k "cl_by_server c"]
  by (auto simp: refs_frame_def held_def)

lemma frame_note_ack: "refs_frame c (upd_handle a (note_ack ts) c)"
  by (rule frame_upd_handle) (simp add: note_ack_def)

lemma frame_push [simp]: "refs_frame c (upd_handle a (se_push d) c)"
  by (rule frame_upd_handle) (simp add: se_push_def)

lemma frame_close_one [simp]: "refs_frame c (upd_handle a se_close c)"
  by (rule frame_upd_handle) (simp add: se_close_def)

lemma se_act_local: "cs_local_id (snd (se_act x h)) = cs_local_id h"
  by (cases x)
    (auto simp: se_push_def se_close_def anext_begin_def get_runs_def anext_wakes_def anext_cancel_def
      split: get_task.split list.split)

lemma frame_consume: "refs_frame c (upd_handle a (\<lambda>h. snd (se_act x h)) c)"
  by (rule frame_upd_handle) (rule se_act_local)

lemma frame_client_ack: "refs_frame c (snd (client_ack lost a d c))"
  unfolding client_ack_def send_ack_def using refs_frame_trans [OF frame_note_ack frame_raw_send] by (metis prod.collapse)

lemma frame_client_nack: "refs_frame c (snd (client_nack lost a d c))"
  unfolding client_nack_def send_nack_def using frame_raw_send by (metis prod.collapse)

lemma frame_client_unsubscribe: "refs_frame c (snd (client_unsubscribe lost a c))"
proof -
  let ?c1 = "c\<lparr>cl_subs := dict_pop (cs_local_id (cl_handles c ! a)) (cl_subs c)\<rparr>"
  have c1: "refs_frame c ?c1" by (rule frame_pop)
  show ?thesis
  proof (cases "cs_server_sid (cl_handles c ! a)")
    case None
    with refs_frame_trans [OF c1 frame_close_one] show ?thesis by (simp add: client_unsubscribe_def Let_def)
  next
    case (Some sid)
    let ?c2 = "?c1\<lparr>cl_by_server := dict_pop sid (cl_by_server ?c1)\<rparr>"
    obtain r c3 where send: "raw_send lost [(MStr ''op'', MStr (op_str UNSUBSCRIBE)), (MStr ''subscription_id'', MStr sid)] ?c2 = (r, c3)"
      by fastforce
    have c3: "refs_frame c c3"
      using refs_frame_trans [OF refs_frame_trans [OF c1 frame_pop(2)] frame_raw_send [OF send]] .
    with refs_frame_trans [OF c3 frame_close_one [where a = a]] Some send show ?thesis
      by (auto simp: client_unsubscribe_def Let_def split: sum.split)
  qed
qed

lemma frame_resolve: "refs_frame c (resolve_reply f c)"
  by (auto simp: resolve_reply_def split: option.split)

lemma frame_sub_closed: "refs_frame c (sub_closed f c)"
proof (cases "dict_get (cl_by_server c) (mp_str (get_or_none f ''subscription_id''))")
  case None
  then show ?thesis by (simp add: sub_closed_def)
next
  case (Some a)
  let ?c1 = "c\<lparr>cl_by_server := dict_pop (mp_str (get_or_none f ''subscription_id'')) (cl_by_server c)\<rparr>"
  have "refs_frame c (?c1\<lparr>cl_subs := dict_pop (cs_local_id (cl_handles c ! a)) (cl_subs ?c1)\<rparr>)"
    by (rule refs_frame_trans [OF frame_pop(2) frame_pop(1)])
  from refs_frame_trans [OF this frame_close_one] Some show ?thesis by (simp add: sub_closed_def Let_def)
qed

lemma frame_on_frame: "on_frame f c = (r, c') \<Longrightarrow> refs_frame c c'"
  by (auto simp: on_frame_def route_delivery_def frame_resolve frame_sub_closed
      split: if_splits sum.splits option.splits)

lemma frame_on_disconnect: "refs_frame c (on_disconnect c)"
proof -
  let ?c1 = "close_writer (cancel_heartbeat (c\<lparr>cl_connected := False, cl_by_server := []\<rparr>))"
  let ?c2 = "fail_pending (ConnectionError ''connection lost'') ?c1"
  have "refs_frame c (c\<lparr>cl_connected := False, cl_by_server := []\<rparr>)" by (auto simp: refs_frame_def held_def)
  then have c2: "refs_frame c ?c2" using refs_frame_trans frame_fields(5-7) by blast
  moreover have "refs_frame ?c2 (?c2\<lparr>cl_rc := RcTest 0\<rparr>)" by (auto simp: refs_frame_def held_def)
  ultimately show ?thesis
    using refs_frame_trans [OF c2 frame_close_handles] refs_frame_trans [OF c2]
    by (simp add: on_disconnect_def Let_def)
qed

lemma frame_read_loop: "refs_frame c (read_loop k outcome c)"
proof -
  have "refs_frame c' (c'\<lparr>cl_conns := (cl_conns c')[k := x]\<rparr>)" for c' x by (simp add: refs_frame_def held_def)
  then have e: "refs_frame c' (on_disconnect (c'\<lparr>cl_conns := (cl_conns c')[k := x]\<rparr>))" for c' x
    using refs_frame_trans frame_on_disconnect by blast
  show ?thesis
  proof (cases outcome)
    case (Inl e')
    then show ?thesis by (simp add: read_loop_def Let_def e)
  next
    case (Inr f)
    obtain r c' where "on_frame f c = (r, c')" by fastforce
    with frame_on_frame [OF this] refs_frame_trans [OF _ e] Inr show ?thesis
      by (simp add: read_loop_def Let_def split: sum.split)
  qed
qed

lemma frame_drop_call: "refs_frame c (drop_call i c)"
  using set_take_subset [of i "cl_calls c"] set_drop_subset [of "Suc i" "cl_calls c"]
  by (auto simp: refs_frame_def held_def drop_call_def)

lemma refs_resume_call:
  assumes "refs_inv c" "i < length (cl_calls c)"
  shows "refs_inv (resume_call i c)"
proof (cases "request_end (call_request (cl_calls c ! i)) c")
  case None
  with assms(1) show ?thesis by (simp add: resume_call_def)
next
  case (Some p)
  let ?c1 = "forget_request (call_request (cl_calls c ! i)) c"
  obtain r where p: "p = (r, ?c1)" using Some by (auto simp: request_end_def split: option.splits)
  have c1: "refs_inv ?c1" using refs_frame_inv [OF frame_fields(4) assms(1)] .
  have held: "set (call_handles (cl_calls c ! i)) \<subseteq> {..< length (cl_handles ?c1)}"
  proof -
    have "set (call_handles (cl_calls c ! i)) \<subseteq> held c" unfolding held_def using nth_mem [OF assms(2)] by blast
    then show ?thesis using assms(1) unfolding refs_inv_def forget_request_def by auto
  qed
  obtain res c2 where e: "call_end (cl_calls c ! i) r ?c1 = (res, c2)" by fastforce
  have "refs_inv c2"
  proof (cases "\<exists>a rq f. cl_calls c ! i = SubscribeCall a rq \<and> r = Inr f")
    case True
    then obtain a rq f where x: "cl_calls c ! i = SubscribeCall a rq" "r = Inr f" by blast
    with held have "a < length (cl_handles ?c1)" by simp
    with refs_activate [OF c1 this, of f] e x show ?thesis by (auto split: prod.splits sum.splits)
  next
    case False
    with e c1 show ?thesis by (cases "(cl_calls c ! i, r, ?c1)" rule: call_end.cases) auto
  qed
  from refs_frame_inv [OF refs_frame_trans [OF frame_fields(1) frame_drop_call] this] Some p e
  show ?thesis by (simp add: resume_call_def)
qed

lemma refs_set_rc: "refs_inv c \<Longrightarrow> set (rc_handles t) \<subseteq> {..< length (cl_handles c)} \<Longrightarrow> refs_inv (c\<lparr>cl_rc := t\<rparr>)"
  by (auto simp: refs_inv_def held_def)

lemma refs_rc_test: "refs_inv c \<Longrightarrow> refs_inv (rc_test n c)"
proof -
  assume c: "refs_inv c"
  have "refs_frame (close_handles c) (give_up c)" by (auto simp: refs_frame_def held_def give_up_def)
  from refs_frame_inv [OF refs_frame_trans [OF frame_close_handles this] c]
  show ?thesis using c by (auto simp: rc_test_def intro: refs_set_rc split: sum.split)
qed

lemma refs_open:
  assumes "refs_inv c" "open_connection outcome c = (r, c')"
  shows "refs_inv c'"
proof -
  have "held c' = held c" "cl_handles c' = cl_handles c" "cl_subs c' = cl_subs c"
    using assms(2) by (auto simp: open_connection_def held_def split: sum.splits)
  moreover have "writer_ok (cl_writer c') (cl_connected c') (length (cl_conns c'))"
    using assms by (auto simp: open_connection_def refs_inv_def writer_ok_def split: sum.splits)
  ultimately show ?thesis using assms(1) by (simp add: refs_inv_def)
qed

lemma refs_rc_open: "refs_inv c \<Longrightarrow> refs_inv (rc_open n outcome c)"
proof -
  assume c: "refs_inv c"
  obtain r c' where o: "open_connection outcome c = (r, c')" by fastforce
  with c have c': "refs_inv c'" by (rule refs_open)
  then have "snd ` set (cl_subs c') \<subseteq> {..< length (cl_handles c')}" by (auto simp: refs_inv_def held_def)
  with o c' show ?thesis by (simp add: rc_open_def refs_set_rc split: sum.split)
qed

lemma refs_resume_failed: "refs_inv c \<Longrightarrow> refs_inv (resume_failed n e c)"
  by (auto simp: resume_failed_def intro: refs_set_rc)

lemma refs_rc_resume:
  assumes "refs_inv c" "cl_rc c = RcResume n as"
  shows "refs_inv (rc_resume lost n as c)"
proof (cases as)
  case Nil
  with assms show ?thesis by (simp add: refs_set_rc)
next
  case (Cons a as')
  obtain r c' where rb: "request_begin lost (subscribe_frame (cs_selector (cl_handles c ! a)) (resume_policy (cl_handles c ! a))) c = (r, c')"
    by fastforce
  have c': "refs_inv c'" using refs_frame_inv [OF frame_request_begin [OF rb] assms(1)] .
  have "length (cl_handles c') = length (cl_handles c)"
    using frame_request_begin [OF rb] unfolding refs_frame_def by (metis length_map)
  moreover have "set as \<subseteq> {..< length (cl_handles c)}" using assms by (auto simp: refs_inv_def held_def)
  ultimately have "refs_inv (c'\<lparr>cl_rc := RcReply n a rq as'\<rparr>)" for rq
    using c' Cons by (intro refs_set_rc) auto
  with Cons rb refs_resume_failed [OF c'] show ?thesis by (simp add: Let_def split: sum.split)
qed

lemma refs_rc_reply:
  assumes "refs_inv c" "cl_rc c = RcReply n a rq as"
  shows "refs_inv (rc_reply n a rq as c)"
proof (cases "request_end rq c")
  case None
  with assms(1) show ?thesis by (simp add: rc_reply_def)
next
  case (Some p)
  let ?c1 = "forget_request rq c"
  obtain r where p: "p = (r, ?c1)" using Some by (auto simp: request_end_def split: option.splits)
  have c1: "refs_inv ?c1" using refs_frame_inv [OF frame_fields(4) assms(1)] .
  have held: "a < length (cl_handles ?c1)" "set as \<subseteq> {..< length (cl_handles ?c1)}"
    using assms by (auto simp: refs_inv_def held_def forget_request_def)
  show ?thesis
  proof (cases r)
    case (Inl e)
    with Some p refs_resume_failed [OF c1] show ?thesis by (simp add: rc_reply_def)
  next
    case (Inr f)
    obtain r2 c2 where act: "activate_end a f ?c1 = (r2, c2)" by fastforce
    have "refs_inv c2" "length (cl_handles c2) = length (cl_handles ?c1)"
      using refs_activate [OF c1 held(1) act] by simp_all
    with held(2) have "refs_inv (c2\<lparr>cl_rc := RcResume n as\<rparr>)" by (intro refs_set_rc) simp_all
    with Some p Inr act refs_resume_failed [OF \<open>refs_inv c2\<close>] show ?thesis
      by (simp add: rc_reply_def split: sum.split)
  qed
qed

lemma frame_heartbeat: "refs_frame c (client_heartbeat lost k c)"
proof -
  obtain r c' where send: "raw_send lost HEARTBEAT_FRAME c = (r, c')" by fastforce
  have "refs_frame c' (c'\<lparr>cl_conns := (cl_conns c')[k := x]\<rparr>)" for x by (simp add: refs_frame_def held_def)
  from frame_raw_send [OF send] refs_frame_trans [OF frame_raw_send [OF send] this] show ?thesis
    by (simp add: client_heartbeat_def send split: sum.split)
qed

lemma frame_close: "refs_frame c (client_close c)"
proof -
  let ?c0 = "c\<lparr>cl_closed := True, cl_rc := RcNone\<rparr>"
  let ?c1 = "(close_handles (cancel_heartbeat ?c0))\<lparr>cl_subs := [], cl_by_server := []\<rparr>"
  have "refs_frame c ?c0" by (auto simp: refs_frame_def held_def)
  moreover have "refs_frame (close_handles (cancel_heartbeat ?c0)) ?c1" by (auto simp: refs_frame_def held_def)
  ultimately have "refs_frame c ?c1" using refs_frame_trans frame_close_handles frame_fields(7) by blast
  then have "refs_frame c (close_writer (fail_pending (ConnectionError ''client closed'') ?c1))"
    using refs_frame_trans frame_fields(5,6) by blast
  then show ?thesis by (simp add: client_close_def)
qed

lemma refs_inv_act: "refs_inv c \<Longrightarrow> refs_inv (client_act x c)"
proof (induction x c rule: client_act.induct)
  case (7 lost outcome c)
  then show ?case
    by (auto intro: refs_rc_test refs_rc_open refs_rc_resume refs_rc_reply split: rc_task.split)
next
  case (5 i c)
  then show ?case
    using refs_frame_inv [OF refs_frame_trans [OF frame_fields(4) frame_drop_call]] by (simp add: cancel_call_def)
qed (auto simp: client_register_def client_publish_def
    intro: refs_frame_inv refs_frame_inv [OF frame_begin_call] refs_subscribe_call refs_resume_call
      refs_frame_inv [OF frame_read_loop] refs_frame_inv [OF frame_client_ack] refs_frame_inv [OF frame_client_nack]
      refs_frame_inv [OF frame_client_unsubscribe] refs_frame_inv [OF frame_consume] refs_frame_inv [OF frame_close]
      refs_frame_inv [OF frame_heartbeat])

section \<open>Reachable states\<close>

inductive client_step :: "client \<Rightarrow> client \<Rightarrow> bool" where
  client_step: "client_step c (client_act x c)"

inductive_cases client_stepE: "client_step c c'"

definition client_begins :: "client \<Rightarrow> bool" where
  "client_begins c \<longleftrightarrow> (\<exists>reconnect base cap limit packb. c = client_start reconnect base cap limit packb)"

definition client_inv :: "client \<Rightarrow> bool" where
  "client_inv c \<longleftrightarrow> req_inv c \<and> refs_inv c"

lemma client_inv_start: "client_begins c \<Longrightarrow> client_inv c"
  by (auto simp: client_begins_def client_start_def client_init_def open_connection_def handshake_def has_op_def
      get_or_none_def client_inv_def req_inv_def refs_inv_def requests_def reqs_ok_def futures_keyed_def held_def entered_def writer_ok_def)

lemma client_inv_step: "client_inv c \<Longrightarrow> client_step c c' \<Longrightarrow> client_inv c'"
  by (auto simp: client_inv_def req_inv_act refs_inv_act elim!: client_stepE)

interpretation cli: invariant_system client_begins client_step client_inv
  by unfold_locales (blast intro: client_inv_start client_inv_step)+

abbreviation reachable_client :: "client \<Rightarrow> bool" where
  "reachable_client \<equiv> reach client_begins client_step"

lemma reachable_client_run: "reachable_client c \<Longrightarrow> reachable_client (client_run xs c)"
  unfolding client_run_def by (induction xs arbitrary: c) (auto intro: reach_step client_step)

lemma reachable_client_start: "reachable_client (client_start r b cp l p)"
  by (rule reach_init) (unfold client_begins_def, blast)

end
