(* ===== verification/Client_Props.thy ===== *)
theory Client_Props
  imports Client_Refs Durability
begin

text \<open>
  What the client guarantees, and where it falls short of what its module promises: replies and
  callers, references, the reconnect loop, resuming, and the window of a subscription's
  activation.
\<close>

text \<open>
  C10. Replies reach their callers: in every state any interleaving can reach, each request in
  flight has its own future; a future resolved with a frame got the frame that carries the
  request's own id; and a request that is still waiting is in the table of a connected client,
  so once the connection is lost every caller has its answer or an error.
\<close>

theorem replies_reach_their_callers:
  assumes "reachable_client c"
  shows "distinct (map snd (requests c)) \<and>
         (\<forall>rq\<in>set (requests c). fst rq = int (snd rq) + 1 \<and>
            (case cl_futures c ! snd rq of
               None \<Rightarrow> cl_connected c \<and> dict_get (cl_pending c) (fst rq) = Some (snd rq)
             | Some (Inr f) \<Rightarrow> mp_rid (get_or_none f ''rid'') = Some (fst rq)
             | Some (Inl e) \<Rightarrow> True))"
proof -
  have r: "reqs_ok (cl_next_rid c) (cl_futures c) (cl_pending c) (cl_connected c) (requests c)"
    using cli.reachable_inv [OF assms] by (simp add: client_inv_def req_inv_def)
  then have k: "futures_keyed (cl_next_rid c) (cl_futures c) (cl_pending c)" by (simp add: reqs_ok_def)
  have "fst rq = int (snd rq) + 1 \<and>
      (case cl_futures c ! snd rq of
         None \<Rightarrow> cl_connected c \<and> dict_get (cl_pending c) (fst rq) = Some (snd rq)
       | Some (Inr f) \<Rightarrow> mp_rid (get_or_none f ''rid'') = Some (fst rq)
       | Some (Inl e) \<Rightarrow> True)" if "rq \<in> set (requests c)" for rq
  proof -
    have w: "waits (cl_futures c) (cl_pending c) (cl_connected c) rq" using r that by (simp add: reqs_ok_def)
    with keyedD(3) [OF k, of "snd rq"] show ?thesis
      unfolding waits_def by (auto split: option.split sum.split)
  qed
  then show ?thesis using r by (simp add: reqs_ok_def)
qed

text \<open>A client with one publish on its way, and its reply.\<close>

definition any_pack :: "mpval \<Rightarrow> byte list result" where
  "any_pack v = Inr [0]"

definition demo_client :: client where
  "demo_client = client_run [Publish False ''a'' MNone None] (client_start True (1 / 2) 30 None any_pack)"

theorem replies_reach_their_callers_witness:
  "requests (client_run [ReadFrame 0 (Inl IncompleteReadError)] demo_client) = [(1, 0)] \<and>
   cl_futures (client_run [ReadFrame 0 (Inl IncompleteReadError)] demo_client) ! 0 \<noteq> None"
proof -
  let ?c = "client_run [ReadFrame 0 (Inl IncompleteReadError)] demo_client"
  have "reachable_client ?c"
    unfolding demo_client_def by (intro reachable_client_run reachable_client_start)
  note main = replies_reach_their_callers [OF this]
  have reqs: "requests ?c = [(1, 0)]" and off: "\<not> cl_connected ?c"
    by (simp_all add: demo_client_def client_eval any_pack_def requests_def)
  then have "(1, 0) \<in> set (requests ?c)" by simp
  from bspec [OF conjunct2 [OF main] this] off have "cl_futures ?c ! 0 \<noteq> None"
    by (auto split: option.splits)
  with reqs show ?thesis by blast
qed

text \<open>
  C35. The client's tables are well formed: in every reachable state each handle that the
  subscription tables, a waiting caller or the reconnect task refers to exists, each
  subscription is entered under its handle's own id, and the current connection exists whenever
  the client counts as connected.
\<close>

theorem client_references_valid:
  assumes "reachable_client c"
  shows "held c \<subseteq> {..< length (cl_handles c)} \<and> entered (cl_handles c) (cl_subs c) \<and>
         writer_ok (cl_writer c) (cl_connected c) (length (cl_conns c))"
  using cli.reachable_inv [OF assms] by (simp add: client_inv_def refs_inv_def)

theorem client_references_valid_witness:
  "held (client_run [Subscribe False ''a'' None] demo_client) \<subseteq> {..< 1}"
proof -
  have "reachable_client (client_run [Subscribe False ''a'' None] demo_client)"
    unfolding demo_client_def by (intro reachable_client_run reachable_client_start)
  note main = client_references_valid [OF this]
  have "length (cl_handles (client_run [Subscribe False ''a'' None] demo_client)) = 1"
    by (simp add: demo_client_def client_eval any_pack_def)
  with main show ?thesis by simp
qed

section \<open>The reconnect loop\<close>

lemma delay_ok: "n < 1024 \<Longrightarrow> reconnect_delay c n = Inr (min (cl_base c * 2 ^ n) (cl_cap c))"
  by (simp add: reconnect_delay_def scale_by_pow2_def)

lemma client_run_append: "client_run (xs @ ys) c = client_run ys (client_run xs c)"
  by (simp add: client_run_def)

lemma client_run_replicate_Suc:
  "client_run (replicate (Suc k) x) c = client_run (replicate k x) (client_act x c)"
  "client_run (replicate (Suc k) x) c = client_act x (client_run (replicate k x) c)"
  by (simp_all add: client_run_def funpow_swap1)

text \<open>One round with a failing attempt, and any number of them.\<close>

lemma round_test:
  assumes "cl_rc c = RcTest n" "\<not> cl_closed c" "n < 1024"
    and "case cl_max_reconnect c of None \<Rightarrow> True | Some m \<Rightarrow> int n < m"
  shows "client_act (RcTurn lost r) c = c\<lparr>cl_rc := RcSleep n (min (cl_base c * 2 ^ n) (cl_cap c))\<rparr>"
  using assms by (auto simp: rc_test_def delay_ok split: option.splits)

lemma round_open:
  assumes "cl_rc c = RcSleep n d" "open_caught e"
  shows "client_act (RcTurn lost (Inl e)) c = c\<lparr>cl_rc := RcTest (Suc n)\<rparr>"
  using assms by (simp add: rc_open_def open_connection_def)

lemma failing_rounds:
  assumes "cl_rc c = RcTest 0" "\<not> cl_closed c" "n \<le> 1024" "open_caught e"
    and "case cl_max_reconnect c of None \<Rightarrow> True | Some m \<Rightarrow> int n \<le> m"
  shows "client_run (replicate (2 * n) (RcTurn lost (Inl e))) c = c\<lparr>cl_rc := RcTest n\<rparr>"
  using assms(3,5)
proof (induction n)
  case 0
  with assms(1) show ?case by (simp add: client_run_def)
next
  case (Suc n)
  then have ih: "client_run (replicate (2 * n) (RcTurn lost (Inl e))) c = c\<lparr>cl_rc := RcTest n\<rparr>"
    by (auto split: option.splits)
  from Suc.prems assms(2) have
    "client_act (RcTurn lost (Inl e)) (c\<lparr>cl_rc := RcTest n\<rparr>) = c\<lparr>cl_rc := RcSleep n (min (cl_base c * 2 ^ n) (cl_cap c))\<rparr>"
    by (subst round_test) (auto split: option.splits)
  with ih show ?case
    using round_open [OF _ assms(4), of "c\<lparr>cl_rc := RcSleep n (min (cl_base c * 2 ^ n) (cl_cap c))\<rparr>"]
    by (simp add: client_run_replicate_Suc(2) del: client_act.simps replicate.simps)
qed

lemma failing_sleep:
  assumes "cl_rc c = RcTest 0" "\<not> cl_closed c" "n < 1024" "open_caught e"
    and "case cl_max_reconnect c of None \<Rightarrow> True | Some m \<Rightarrow> int n < m"
  shows "client_run (replicate (Suc (2 * n)) (RcTurn lost (Inl e))) c =
         c\<lparr>cl_rc := RcSleep n (min (cl_base c * 2 ^ n) (cl_cap c))\<rparr>"
proof -
  have "client_run (replicate (2 * n) (RcTurn lost (Inl e))) c = c\<lparr>cl_rc := RcTest n\<rparr>"
    using assms by (intro failing_rounds) (auto split: option.splits)
  with assms show ?thesis
    using round_test [of "c\<lparr>cl_rc := RcTest n\<rparr>" n]
    by (simp add: client_run_replicate_Suc(2) del: client_act.simps replicate.simps)
qed

lemma close_each:
  "\<forall>(k, a)\<in>set ps. a < length hs \<Longrightarrow>
   length (fold (\<lambda>(k, a) hs. hs[a := se_close (hs ! a)]) ps hs) = length hs \<and>
   (\<forall>i < length hs. (se_closed (hs ! i) \<or> i \<in> snd ` set ps) \<longrightarrow>
      se_closed (fold (\<lambda>(k, a) hs. hs[a := se_close (hs ! a)]) ps hs ! i))"
proof (induction ps arbitrary: hs)
  case (Cons q ps)
  obtain k a where q: "q = (k, a)" by fastforce
  note ih = Cons.IH [of "hs[a := se_close (hs ! a)]"]
  have "se_closed (hs[a := se_close (hs ! a)] ! i)" if "i < length hs" "se_closed (hs ! i) \<or> i = a" for i
    using that by (cases "i = a") (auto simp: se_close_def)
  with ih Cons.prems show ?case by (auto simp: q)
qed simp

text \<open>
  C36. The reconnect loop ends: with a limit of m attempts (up to 1024) and a server that cannot
  be reached, the loop makes exactly m attempts and gives up.  For every n below m, after n failed
  attempts the loop is at its test with everything else as it was, the test puts it to sleep for
  base * 2 ^ n seconds capped at the maximum, and an attempt follows; after the m-th failure the
  test ends the task, and only then is every subscription the client still had closed and the
  table emptied.
\<close>

theorem reconnect_gives_up:
  assumes "reachable_client c" "cl_rc c = RcTest 0" "\<not> cl_closed c" "cl_max_reconnect c = Some (int m)" "m \<le> 1024"
    and "open_caught e"
    and "c' = client_run (replicate (Suc (2 * m)) (RcTurn lost (Inl e))) c"
  shows "(\<forall>n \<le> m. client_run (replicate (2 * n) (RcTurn lost (Inl e))) c = c\<lparr>cl_rc := RcTest n\<rparr>) \<and>
         (\<forall>n < m. client_run (replicate (Suc (2 * n)) (RcTurn lost (Inl e))) c =
                  c\<lparr>cl_rc := RcSleep n (min (cl_base c * 2 ^ n) (cl_cap c))\<rparr>) \<and>
         cl_rc c' = RcNone \<and> cl_subs c' = [] \<and> cl_conns c' = cl_conns c \<and>
         (\<forall>a \<in> snd ` set (cl_subs c). se_closed (cl_handles c' ! a))"
proof -
  have tests: "client_run (replicate (2 * n) (RcTurn lost (Inl e))) c = c\<lparr>cl_rc := RcTest n\<rparr>" if "n \<le> m" for n
    using assms that by (intro failing_rounds) simp_all
  have sleeps: "client_run (replicate (Suc (2 * n)) (RcTurn lost (Inl e))) c =
      c\<lparr>cl_rc := RcSleep n (min (cl_base c * 2 ^ n) (cl_cap c))\<rparr>" if "n < m" for n
    using assms that by (intro failing_sleep) simp_all
  have c': "c' = give_up (c\<lparr>cl_rc := RcTest m\<rparr>)"
    using assms(4,7) tests [of m] by (simp add: client_run_replicate_Suc(2) rc_test_def del: replicate.simps)
  have "held c \<subseteq> {..< length (cl_handles c)}"
    using cli.reachable_inv [OF assms(1)] by (simp add: client_inv_def refs_inv_def)
  then have bound: "\<forall>(k, a)\<in>set (cl_subs c). a < length (cl_handles c)" using held_subs by blast
  have "se_closed (cl_handles c' ! a)" if "a \<in> snd ` set (cl_subs c)" for a
  proof -
    have "a < length (cl_handles c)" using bound that by auto
    with close_each [OF bound] that show ?thesis by (simp add: c' give_up_def close_handles_def)
  qed
  with tests sleeps show ?thesis by (simp add: c' give_up_def close_handles_def)
qed

definition lost_client :: client where
  "lost_client =
     client_run [Subscribe False ''a'' None, ReadFrame 0 (Inl IncompleteReadError)]
       (client_start True (1 / 2) 30 (Some 2) any_pack)"

theorem reconnect_gives_up_witness:
  "client_run (replicate (2 * 1) (RcTurn False (Inl IncompleteReadError))) lost_client = lost_client\<lparr>cl_rc := RcTest 1\<rparr> \<and>
   se_closed (cl_handles (client_run (replicate (Suc (2 * 2)) (RcTurn False (Inl IncompleteReadError))) lost_client) ! 0)"
proof -
  have "reachable_client lost_client"
    unfolding lost_client_def by (intro reachable_client_run reachable_client_start)
  moreover have "cl_rc lost_client = RcTest 0" "\<not> cl_closed lost_client" "cl_max_reconnect lost_client = Some (int 2)"
    "map snd (cl_subs lost_client) = [0]" by (simp_all add: lost_client_def client_eval any_pack_def)
  moreover have "(2 :: nat) \<le> 1024" "open_caught IncompleteReadError" "(1 :: nat) \<le> 2" by simp_all
  moreover have "0 \<in> snd ` set (cl_subs lost_client)"
    using \<open>map snd (cl_subs lost_client) = [0]\<close> by (metis list.set_intros(1) set_map)
  ultimately show ?thesis
    using reconnect_gives_up [of lost_client 2 IncompleteReadError _ False, OF _ _ _ _ _ _ refl] by blast
qed

text \<open>
  C37. Without a limit the loop dies instead of going on: it stays alive through 1024 failed
  attempts (after each n of them it is at its test again, and below 1024 the test puts it to
  sleep), and then the power of two no longer fits a float, the exception ends the task, and every
  subscription is left as it was, neither resumed nor closed, so its consumer waits for ever.
\<close>

theorem reconnect_overflow_strands_subscriptions:
  assumes "cl_rc c = RcTest 0" "\<not> cl_closed c" "cl_max_reconnect c = None" "open_caught e"
  shows "(\<forall>n \<le> 1024. client_run (replicate (2 * n) (RcTurn lost (Inl e))) c = c\<lparr>cl_rc := RcTest n\<rparr>) \<and>
         (\<forall>n < 1024. client_run (replicate (Suc (2 * n)) (RcTurn lost (Inl e))) c =
                     c\<lparr>cl_rc := RcSleep n (min (cl_base c * 2 ^ n) (cl_cap c))\<rparr>) \<and>
         client_run (replicate (Suc (2 * 1024)) (RcTurn lost (Inl e))) c = c\<lparr>cl_rc := RcNone\<rparr>"
proof (intro conjI allI impI)
  show tests: "client_run (replicate (2 * n) (RcTurn lost (Inl e))) c = c\<lparr>cl_rc := RcTest n\<rparr>" if "n \<le> 1024" for n
    using assms that by (intro failing_rounds) simp_all
  show "client_run (replicate (Suc (2 * n)) (RcTurn lost (Inl e))) c =
      c\<lparr>cl_rc := RcSleep n (min (cl_base c * 2 ^ n) (cl_cap c))\<rparr>" if "n < 1024" for n
    using assms that by (intro failing_sleep) simp_all
  have "client_run (replicate (2 * 1024) (RcTurn lost (Inl e))) c = c\<lparr>cl_rc := RcTest 1024\<rparr>" by (rule tests) simp
  moreover have "client_act (RcTurn lost (Inl e)) (c\<lparr>cl_rc := RcTest 1024\<rparr>) = c\<lparr>cl_rc := RcNone\<rparr>"
    using assms(2,3) by (simp add: rc_test_def reconnect_delay_def scale_by_pow2_def)
  ultimately show "client_run (replicate (Suc (2 * 1024)) (RcTurn lost (Inl e))) c = c\<lparr>cl_rc := RcNone\<rparr>"
    by (simp only: client_run_replicate_Suc(2))
qed

definition stranded_client :: client where
  "stranded_client =
     client_run [Subscribe False ''a'' None, ReadFrame 0 (Inl IncompleteReadError)]
       (client_start True (1 / 2) 30 None any_pack)"

theorem reconnect_overflow_strands_subscriptions_witness:
  "\<not> se_closed (cl_handles (client_run (replicate (Suc (2 * 1024)) (RcTurn False (Inl IncompleteReadError))) stranded_client) ! 0)"
proof -
  have "cl_rc stranded_client = RcTest 0" "\<not> cl_closed stranded_client" "cl_max_reconnect stranded_client = None"
    and h: "\<not> se_closed (cl_handles stranded_client ! 0)"
    by (simp_all add: stranded_client_def client_eval any_pack_def)
  moreover have "open_caught IncompleteReadError" by simp
  ultimately have "client_run (replicate (Suc (2 * 1024)) (RcTurn False (Inl IncompleteReadError))) stranded_client =
      stranded_client\<lparr>cl_rc := RcNone\<rparr>"
    using reconnect_overflow_strands_subscriptions [of stranded_client IncompleteReadError False] by blast
  moreover have "cl_handles (stranded_client\<lparr>cl_rc := RcNone\<rparr>) = cl_handles stranded_client" by simp
  ultimately show ?thesis using h by (simp only: simp_thms)
qed

section \<open>Subscriptions across failures\<close>

text \<open>
  A failed subscribe stays registered: when the reply is an error or the connection is lost,
  \<open>subscribe\<close> raises, but its handle is still in the client's table and open, and the next
  successful reconnect goes on to subscribe it again.  The module promises that only
  established subscriptions are resumed.
\<close>

theorem failed_subscribe_stays_registered:
  assumes "i < length (cl_calls c)" "cl_calls c ! i = SubscribeCall a rq" "(k, a) \<in> set (cl_subs c)"
    and "cl_futures c ! snd rq = Some r" "case r of Inl e \<Rightarrow> True | Inr f \<Rightarrow> has_op f ERROR"
    and "handshake w = Inr ()"
  shows "(\<exists>e. cl_results (resume_call i c) = cl_results c @ [SubscribeDone (Inl e)]) \<and>
         (k, a) \<in> set (cl_subs (resume_call i c)) \<and> cl_handles (resume_call i c) = cl_handles c \<and>
         (\<exists>as. cl_rc (rc_open n (Inr w) (resume_call i c)) = RcResume (Suc n) as \<and> a \<in> set as)"
proof -
  obtain e where res: "resume_call i c =
      drop_call i ((forget_request rq c)\<lparr>cl_results := cl_results c @ [SubscribeDone (Inl e)]\<rparr>)"
    using assms(2,4,5)
    by (auto simp: resume_call_def request_end_def activate_end_def check_reply_def forget_request_def split: sum.splits)
  have "a \<in> snd ` set (cl_subs c)" using assms(3) by (metis image_eqI snd_conv)
  then show ?thesis
    using assms(3,6) by (simp add: res drop_call_def forget_request_def rc_open_def open_connection_def)
qed

definition welcome_frame :: frame where
  "welcome_frame = [(MStr ''op'', MStr (op_str WELCOME)), (MStr ''version'', MInt PROTOCOL_VERSION)]"

definition rejection_frame :: "int \<Rightarrow> frame" where
  "rejection_frame rid = [(MStr ''op'', MStr (op_str ERROR)), (MStr ''detail'', MStr ''subscribe failed''), (MStr ''rid'', MInt rid)]"

lemma welcome_ok: "handshake welcome_frame = Inr ()"
  by (simp add: handshake_def welcome_frame_def has_op_def get_or_none_def)

definition rejected_client :: client where
  "rejected_client =
     client_run [Subscribe False ''a'' None, ReadFrame 0 (Inr (rejection_frame 1))]
       (client_start True (1 / 2) 30 None any_pack)"

theorem failed_subscribe_stays_registered_witness:
  "\<exists>k. (k, 0) \<in> set (cl_subs (resume_call 0 rejected_client)) \<and>
     (\<exists>as. cl_rc (rc_open 0 (Inr welcome_frame) (resume_call 0 rejected_client)) = RcResume 1 as \<and> 0 \<in> set as)"
proof -
  have "cl_calls rejected_client = [SubscribeCall 0 (1, 0)]" "cl_subs rejected_client = [(dec 1, 0)]"
    "cl_futures rejected_client = [Some (Inr (rejection_frame 1))]"
    by (simp_all add: rejected_client_def client_eval any_pack_def rejection_frame_def)
  moreover have "has_op (rejection_frame 1) ERROR" by (simp add: has_op_def get_or_none_def rejection_frame_def)
  ultimately show ?thesis
    using failed_subscribe_stays_registered [of 0 rejected_client 0 "(1, 0)" "dec 1" "Inr (rejection_frame 1)" welcome_frame 0]
      welcome_ok by auto
qed

text \<open>
  A rejected resume leaks the connection: when the server answers the resubscription of one
  handle with an error, the reconnect task goes back to its loop and opens another connection,
  while the one it has stays open and is still read, with the subscriptions resumed on it still
  routed; the handles after the rejected one are not resumed on it.
\<close>

theorem rejected_resume_leaks_connection:
  assumes "cl_rc c = RcReply n a rq as" "cl_futures c ! snd rq = Some (Inr f)" "has_op f ERROR"
    and "\<not> cl_closed c" "cl_max_reconnect c = None" "n < 1024" "handshake w = Inr ()"
    and "c' = client_run [RcTurn lost r1, RcTurn lost r2, RcTurn lost (Inr w)] c"
  shows "cl_conns c' = cl_conns c @ [\<lparr>cc_sent = [HELLO_FRAME], cc_open = True, cc_reading = True, cc_heartbeat = True\<rparr>] \<and>
         cl_writer c' = Some (length (cl_conns c)) \<and> cl_by_server c' = cl_by_server c \<and>
         cl_rc c' = RcResume (Suc n) (map snd (cl_subs c))"
proof -
  let ?c1 = "(forget_request rq c)\<lparr>cl_rc := RcTest n\<rparr>"
  have "client_act (RcTurn lost r1) c = ?c1"
    using assms(1-3) by (simp add: rc_reply_def request_end_def activate_end_def check_reply_def resume_failed_def)
  moreover have "client_act (RcTurn lost r2) ?c1 = ?c1\<lparr>cl_rc := RcSleep n (min (cl_base c * 2 ^ n) (cl_cap c))\<rparr>"
    using assms(4-6) by (simp add: rc_test_def delay_ok forget_request_def)
  ultimately have "c' = rc_open n (Inr w) (?c1\<lparr>cl_rc := RcSleep n (min (cl_base c * 2 ^ n) (cl_cap c))\<rparr>)"
    by (simp add: assms(8) client_run_def)
  then show ?thesis
    using assms(7) by (simp add: rc_open_def open_connection_def forget_request_def)
qed

definition resuming_client :: client where
  "resuming_client =
     client_run [Subscribe False ''a'' None, ReadFrame 0 (Inl IncompleteReadError), ResumeCall 0,
                 RcTurn False (Inr welcome_frame), RcTurn False (Inr welcome_frame), RcTurn False (Inr welcome_frame),
                 ReadFrame 1 (Inr (rejection_frame 2))]
       (client_start True (1 / 2) 30 None any_pack)"

lemma first_delay: "cl_base c = 1 / 2 \<Longrightarrow> cl_cap c = 30 \<Longrightarrow> reconnect_delay c 0 = Inr (1 / 2)"
  by (simp add: reconnect_delay_def scale_by_pow2_def)

theorem rejected_resume_leaks_connection_witness:
  "map cc_open (cl_conns (client_run (replicate 3 (RcTurn False (Inr welcome_frame))) resuming_client)) = [False, True, True]"
proof -
  let ?t = "RcTurn False (Inr welcome_frame)"
  have "cl_rc resuming_client = RcReply 1 0 (2, 1) []" "cl_futures resuming_client ! 1 = Some (Inr (rejection_frame 2))"
    "\<not> cl_closed resuming_client" "cl_max_reconnect resuming_client = None"
    "map cc_open (cl_conns resuming_client) = [False, True]"
    by (simp_all add: resuming_client_def client_eval any_pack_def welcome_frame_def rejection_frame_def rc_test_def
        first_delay rc_open_def resume_policy_def)
  moreover have "has_op (rejection_frame 2) ERROR" by (simp add: has_op_def get_or_none_def rejection_frame_def)
  ultimately have "map cc_open (cl_conns (client_run [?t, ?t, ?t] resuming_client)) = [False, True, True]"
    using rejected_resume_leaks_connection [of resuming_client 1 0 "(2, 1)" "[]" "rejection_frame 2" welcome_frame _ False, OF _ _ _ _ _ _ _ refl]
      welcome_ok by simp
  then show ?thesis by (simp add: numeral_3_eq_3)
qed

text \<open>
  Deliveries can be lost while a subscription is activated: when the read loop finds a
  delivery right behind the reply to a subscribe, before the caller has run again, the
  subscription's id is not in the routing table yet and the delivery is dropped; the caller
  then gets its subscription with no trace of it.  The module says that reading in one place
  avoids this race.
\<close>

theorem deliveries_before_activation_are_lost:
  assumes "k < length (cl_conns c)" "cc_reading (cl_conns c ! k)"
    and "i < length (cl_calls c)" "cl_calls c ! i = SubscribeCall a (rid, fut)" "fut < length (cl_futures c)"
    and "dict_get (cl_pending c) rid = Some fut" "cl_futures c ! fut = None"
    and "has_op f SUBSCRIBE_OK" "get_or_none f ''rid'' = MInt rid" "item f ''subscription_id'' = Inr (MStr (dl_sid d))"
    and "dict_get (cl_by_server c) (dl_sid d) = None"
    and "c' = client_run [ReadFrame k (Inr f), ReadFrame k (Inr (delivery_to_wire d)), ResumeCall i] c"
  shows "cl_results c' = cl_results c @ [SubscribeDone (Inr a)] \<and> dict_get (cl_by_server c') (dl_sid d) = Some a \<and>
         map se_queue (cl_handles c') = map se_queue (cl_handles c)"
proof -
  let ?c1 = "c\<lparr>cl_futures := (cl_futures c)[fut := Some (Inr f)]\<rparr>"
  have "client_act (ReadFrame k (Inr f)) c = ?c1"
    using assms(1,2,6-9) by (simp add: read_loop_def on_frame_def resolve_reply_def Let_def)
  moreover have "client_act (ReadFrame k (Inr (delivery_to_wire d))) ?c1 = ?c1"
  proof -
    have "has_op (delivery_to_wire d) p \<longleftrightarrow> p = DELIVERY" for p
      by (cases p) (simp_all add: has_op_def get_or_none_def delivery_to_wire_def)
    then show ?thesis
      using assms(1,2,11) by (simp add: read_loop_def on_frame_def route_delivery_def delivery_wire_roundtrip Let_def)
  qed
  moreover have "check_reply f = Inr ()" using assms(8) by (simp add: check_reply_def has_op_def)
  ultimately show ?thesis
    using assms(3-5,10,12)
    by (simp add: client_run_def resume_call_def request_end_def activate_end_def drop_call_def forget_request_def
        upd_handle_def dict_simps map_update_same Let_def)
qed

definition subscribing_client :: client where
  "subscribing_client =
     client_run [Subscribe False ''a'' None] (client_start True (1 / 2) 30 None any_pack)"

definition subscribe_ok_frame :: frame where
  "subscribe_ok_frame =
     [(MStr ''op'', MStr (op_str SUBSCRIBE_OK)), (MStr ''rid'', MInt 1), (MStr ''subscription_id'', MStr ''s'')]"

definition first_delivery :: delivery where
  "first_delivery =
     \<lparr>dl_id = ''d'', dl_sid = ''s'', dl_message = \<lparr>msg_id = ''m'', msg_topic = ''a'', msg_payload = MNone,
      msg_extras = [], msg_created_at = 1\<rparr>, dl_attempt = 1\<rparr>"

theorem deliveries_before_activation_are_lost_witness:
  "map se_queue (cl_handles (client_run [ReadFrame 0 (Inr subscribe_ok_frame),
       ReadFrame 0 (Inr (delivery_to_wire first_delivery)), ResumeCall 0] subscribing_client)) = [[]]"
proof -
  have c: "length (cl_conns subscribing_client) = 1" "cc_reading (cl_conns subscribing_client ! 0)"
    "cl_calls subscribing_client = [SubscribeCall 0 (1, 0)]" "cl_futures subscribing_client = [None]"
    "cl_pending subscribing_client = [(1, 0)]" "cl_by_server subscribing_client = []"
    "map se_queue (cl_handles subscribing_client) = [[]]"
    by (simp_all add: subscribing_client_def client_eval any_pack_def)
  have f: "has_op subscribe_ok_frame SUBSCRIBE_OK" "get_or_none subscribe_ok_frame ''rid'' = MInt 1"
    "item subscribe_ok_frame ''subscription_id'' = Inr (MStr (dl_sid first_delivery))"
    by (simp_all add: subscribe_ok_frame_def has_op_def get_or_none_def item_def first_delivery_def)
  show ?thesis
    using deliveries_before_activation_are_lost [of 0 subscribing_client 0 0 1 0 subscribe_ok_frame first_delivery, OF _ _ _ _ _ _ _ _ _ _ _ refl]
      c f by simp
qed

section \<open>Resuming\<close>

lemma newest_ack:
  "tss \<noteq> [] \<Longrightarrow> cs_last_acked (fold note_ack tss h) =
     Some (case cs_last_acked h of None \<Rightarrow> Max (set tss) | Some t \<Rightarrow> Max (insert t (set tss)))"
proof (induction tss arbitrary: h)
  case (Cons ts tss)
  have one: "cs_last_acked (note_ack ts h) = Some (case cs_last_acked h of None \<Rightarrow> ts | Some t \<Rightarrow> max t ts)"
    by (auto simp: note_ack_def max_def split: option.split)
  show ?case
  proof (cases "tss = []")
    case True
    with one show ?thesis by (auto split: option.split simp: max.commute)
  next
    case False
    with Cons.IH [OF False, of "note_ack ts h"] one show ?thesis
      by (auto split: option.split simp: max.commute max.left_commute max.assoc)
  qed
qed simp

lemma note_ack_policy [simp]: "cs_policy (fold note_ack tss h) = cs_policy h"
  by (induction tss arbitrary: h) (simp_all add: note_ack_def)

text \<open>
  A replaying subscription resumes at its newest acked message: after any acks, in any
  order, it asks for the history from the newest time it acked, and without an ack from its
  original time.  What the store then replays is every retained message from that time on,
  the newest acked one included; a message that is older and was never acked is not replayed.
\<close>

theorem resume_replays_from_newest_ack:
  assumes "cs_policy h = FromUnixTimestamp ts" "cs_last_acked h = None"
    and "mem_read_from t s = (Inr ms, s')" "resume_policy (fold note_ack tss h) = FromUnixTimestamp t"
  shows "t = (if tss = [] then ts else Max (set tss)) \<and>
         set ms = {m \<in> set (ms_history s). t \<le> msg_created_at m}"
proof -
  have "t = (if tss = [] then ts else Max (set tss))"
  proof (cases "tss = []")
    case True
    with assms(1,2,4) show ?thesis by (simp add: resume_policy_def)
  next
    case False
    with assms(1,2,4) newest_ack [OF False, of h] show ?thesis by (simp add: resume_policy_def)
  qed
  moreover have "set ms = {m \<in> set (ms_history s). t \<le> msg_created_at m}"
    using assms(3) by (auto simp: mem_read_from_def)
  ultimately show ?thesis by blast
qed

definition two_messages :: mem_store where
  "two_messages = mem_init\<lparr>ms_history :=
     [(dl_message first_delivery)\<lparr>msg_created_at := 1\<rparr>, (dl_message first_delivery)\<lparr>msg_created_at := 2\<rparr>]\<rparr>"

theorem resume_replays_from_newest_ack_witness:
  "\<exists>ms. mem_read_from 2 two_messages = (Inr ms, two_messages) \<and>
     resume_policy (fold note_ack [2] (new_handle ''1'' ''a'' (FromUnixTimestamp 0))) = FromUnixTimestamp 2 \<and>
     set ms = {m \<in> set (ms_history two_messages). 2 \<le> msg_created_at m}"
proof -
  have r: "resume_policy (fold note_ack [2] (new_handle ''1'' ''a'' (FromUnixTimestamp 0))) = FromUnixTimestamp 2"
    by (simp add: resume_policy_def note_ack_def new_handle_def)
  obtain ms where ms: "mem_read_from 2 two_messages = (Inr ms, two_messages)" by (simp add: mem_read_from_def)
  have "cs_policy (new_handle ''1'' ''a'' (FromUnixTimestamp 0)) = FromUnixTimestamp 0"
    "cs_last_acked (new_handle ''1'' ''a'' (FromUnixTimestamp 0)) = None" by (simp_all add: new_handle_def)
  from resume_replays_from_newest_ack [OF this ms r] ms r show ?thesis by blast
qed

text \<open>
  The id of a handle is the server's: whenever a resubscription is granted, the handle answers
  with the new id from then on, and a handle that was never granted one raises.
\<close>

theorem reconnect_renews_subscription_id:
  assumes "a < length (cl_handles c)" "activate_end a f c = (Inr u, c')" "item f ''subscription_id'' = Inr (MStr sid)"
  shows "subscription_id (cl_handles c' ! a) = Inr sid \<and> dict_get (cl_by_server c') sid = Some a"
  using assms
  by (cases "check_reply f")
    (auto simp: activate_end_def upd_handle_def subscription_id_def dict_simps Let_def split: sum.splits)

theorem reconnect_renews_subscription_id_witness:
  "\<exists>c' :: client. subscription_id (cl_handles c' ! 0) = Inr ''new'' \<and>
     subscription_id ((new_handle ''1'' ''a'' FutureOnly)\<lparr>cs_server_sid := Some ''old''\<rparr>) = Inr ''old''"
proof -
  let ?c = "(client_init True 1 30 None (\<lambda>_. Inr []))\<lparr>cl_handles := [(new_handle ''1'' ''a'' FutureOnly)\<lparr>cs_server_sid := Some ''old''\<rparr>]\<rparr>"
  let ?f = "[(MStr ''op'', MStr (op_str SUBSCRIBE_OK)), (MStr ''subscription_id'', MStr ''new'')]"
  have it: "item ?f ''subscription_id'' = Inr (MStr ''new'')" by (simp add: item_def)
  obtain c' where "activate_end 0 ?f ?c = (Inr (), c')"
    using it by (simp add: activate_end_def check_reply_def has_op_def get_or_none_def Let_def)
  from reconnect_renews_subscription_id [OF _ this it]
  have "subscription_id (cl_handles c' ! 0) = Inr ''new''" by simp
  moreover have "subscription_id ((new_handle ''1'' ''a'' FutureOnly)\<lparr>cs_server_sid := Some ''old''\<rparr>) = Inr ''old''"
    by (simp add: subscription_id_def)
  ultimately show ?thesis by blast
qed

end
