(* ===== verification/Server_Props.thy ===== *)
theory Server_Props
  imports Server_Inv Client_Props Broker_Exec
begin

text \<open>
  The properties of the server: every run of it is a run of the broker, a publish over the wire
  has the broker's own result, acknowledgements are routed by delivery id, a connection that
  goes away takes its subscriptions along - and the cases in which it does not.
\<close>

section \<open>The server drives the broker\<close>

lemma reachable_reaches: "reachable_sys s \<Longrightarrow> reaches s s' \<Longrightarrow> reachable_sys s'"
proof -
  assume "reaches s s'"
  then have "collision_free_step\<^sup>*\<^sup>* s s'" by (simp add: reaches_def)
  then show "reachable_sys s \<Longrightarrow> reachable_sys s'"
    by (induction rule: rtranclp_induct) (auto intro: reach_step)
qed

lemma server_rel_started:
  assumes "sr_broker sr = broker_init be d policy mx draws" "sr_conns sr = []" "case mx of None \<Rightarrow> True | Some n \<Rightarrow> 0 \<le> n"
  shows "server_rel (sys_init be d policy mx draws) sr"
proof -
  have "sys_start (sys_init be d policy mx draws)" unfolding sys_start_def using assms(3) by blast
  from sys_inv_init [OF this] assms(1,2) show ?thesis by (simp add: server_rel_def sys_init_def all_waiting_def)
qed

text \<open>
  C5. The server drives the broker only through its interface: whatever clients connect, in
  whatever order their frames, the turns of the reader, pump and heartbeat tasks, the backoff
  tasks and aborted connections interleave, and whatever writes fail, the broker a fresh server
  ends with is the broker of a reachable state of the broker's own transition system - so every
  invariant of the broker holds over the network - and in that state the broker knows each
  subscription, delivery and waiting publish that a connection still refers to.
\<close>

theorem server_refines_broker:
  assumes "sr_broker sr = broker_init be d policy mx draws" "case mx of None \<Rightarrow> True | Some n \<Rightarrow> 0 \<le> n"
    and "sr_conns sr = []" "no_collision (sr_broker (sr_run xs sr))"
  shows "\<exists>s. reachable_sys s \<and> server_rel s (sr_run xs sr)"
proof -
  let ?s = "sys_init be d policy mx draws"
  have start: "sys_start ?s" unfolding sys_start_def using assms(2) by blast
  from server_rel_run [OF server_rel_started [OF assms(1,3,2)] assms(4)] obtain s where "reaches ?s s" "server_rel s (sr_run xs sr)" by blast
  moreover have "reachable_sys ?s" using start by (rule reach_init)
  ultimately show ?thesis using reachable_reaches by blast
qed

definition hello_frame :: frame where
  "hello_frame = [(MStr ''op'', MStr (op_str HELLO)), (MStr ''version'', MInt 1)]"

definition with_rid :: "int \<Rightarrow> frame \<Rightarrow> frame" where
  "with_rid rid f = dict_set (MStr ''rid'') (MInt rid) f"

definition demo_actions :: "sr_action list" where
  "demo_actions =
     [Accept any_pack 0, Frame 0 False 1 (Inr hello_frame),
      Frame 0 False 2 (Inr (with_rid 1 (subscribe_frame ''a'' FutureOnly))),
      Frame 0 False 3 (Inr (with_rid 2 (publish_frame ''a'' MNone None)))]"

definition fresh_server :: "mem_store server" where
  "fresh_server = \<lparr>sr_broker = broker_init memory_backend mem_init default_retry_policy (Some 1) (\<lambda>n. of_nat n),
     sr_timeout = DEFAULT_HEARTBEAT_TIMEOUT, sr_conns = []\<rparr>"

definition demo_server :: "mem_store server" where
  "demo_server = sr_run demo_actions fresh_server"

text \<open>What the concrete runs below start from.\<close>

lemma fresh_server_rel:
  assumes "draws_distinct (sr_broker (sr_run xs fresh_server))"
  obtains s where "server_rel s (sr_run xs fresh_server)"
proof -
  let ?s = "sys_init memory_backend mem_init default_retry_policy (Some 1) (\<lambda>n. of_nat n)"
  have "sys_start ?s" unfolding sys_start_def by (intro exI conjI) (rule refl, simp)
  then have "server_rel ?s fresh_server"
    using sys_inv_init by (simp add: server_rel_def sys_init_def all_waiting_def fresh_server_def)
  with server_rel_run assms that show ?thesis by (auto simp: draws_distinct)
qed

theorem server_refines_broker_witness:
  "\<exists>s. reachable_sys s \<and> sy_broker s = sr_broker demo_server \<and> length (bk_inflight (sy_broker s)) = 1"
proof -
  have "draws_distinct (sr_broker demo_server)" by code_simp
  then have free: "no_collision (sr_broker (sr_run demo_actions fresh_server))"
    by (simp add: draws_distinct demo_server_def)
  have "\<exists>s. reachable_sys s \<and> server_rel s (sr_run demo_actions fresh_server)"
    by (rule server_refines_broker [OF _ _ _ free]) (simp add: fresh_server_def, simp_all add: fresh_server_def)
  moreover have "length (bk_inflight (sr_broker demo_server)) = 1" by code_simp
  ultimately show ?thesis by (auto simp: server_rel_def demo_server_def)
qed

section \<open>Publish over the wire\<close>

lemma published_shape:
  "publish topic payload extras now b = (Inr (Published r), b') \<Longrightarrow>
   (\<exists>i. r = publish_ok i) \<or> (\<exists>e. r = publish_rejected e)"
  by (auto simp: publish_def publish_begin_def publish_resume_def publish_fanout_def mint_def
      split: sum.splits prod.splits py_exn.splits bool.splits)

lemma published_wire:
  assumes "publish topic payload extras now b = (Inr (Published r), b')"
  shows "publish_reply (publish_result_to_wire (MInt rid) r) = Inr r"
    "get_or_none (publish_result_to_wire (MInt rid) r) ''rid'' = MInt rid"
  using published_shape [OF assms]
  by (auto simp: publish_reply_def check_reply_def has_op_def publish_result_wire_ok publish_result_wire_rejected)
    (auto simp: publish_result_to_wire_def get_or_none_def publish_ok_def publish_rejected_def)

lemma publish_no_extras: "publish topic payload (Some []) now b = publish topic payload None now b"
proof -
  have "publish_begin topic payload (Some []) now b = publish_begin topic payload None now b"
    by (simp add: publish_begin_def split: sum.split py_exn.split)
  then show ?thesis by (simp add: publish_def)
qed

lemma on_publish_frame:
  "on_publish lost now (with_rid rid (publish_frame topic payload extras)) c b =
     reply_published lost (MInt rid) (publish topic payload extras now b) c"
proof (cases "extras = None \<or> extras = Some []")
  case True
  then show ?thesis
    by (auto simp: on_publish_def publish_frame_def with_rid_def get_or_none_def item_def str_keys_def Let_def
        publish_no_extras)
next
  case False
  then obtain p d where "extras = Some (p # d)" by (cases extras) (auto simp: neq_Nil_conv)
  then show ?thesis
    using extras_of_str_keys [of "p # d"]
    by (auto simp: on_publish_def publish_frame_def with_rid_def get_or_none_def item_def Let_def str_keys_def split: prod.splits)
qed

lemma dispatch_publish: "dispatch lost now (with_rid rid (publish_frame t p e)) c b =
    on_publish lost now (with_rid rid (publish_frame t p e)) c b"
  by (simp add: dispatch_def has_op_def with_rid_def publish_frame_def get_or_none_def)

lemma publish_over_wire:
  assumes "cn_open c" "publish topic payload extras now b = (Inr (Published res), b1)"
    and "encode_frame (cn_packb c) (publish_result_to_wire (MInt rid) res) = Inr bs"
    and "dispatch False now (with_rid rid (publish_frame topic payload extras)) c b = (r, c', b')"
  shows "r = Inr () \<and> b' = b1 \<and>
         (\<exists>F. cn_sent c' = cn_sent c @ [F] \<and> get_or_none F ''rid'' = MInt rid \<and> publish_reply F = Inr res \<and>
              has_op F PUBLISH_RESULT \<and> F = publish_result_to_wire (MInt rid) res)"
proof -
  have "reply_published False (MInt rid) (Inr (Published res), b1) c = (r, c', b')"
    using assms(2,4) by (simp add: dispatch_publish on_publish_frame)
  with assms(1,3) have "r = Inr ()" "b' = b1" "cn_sent c' = cn_sent c @ [publish_result_to_wire (MInt rid) res]"
    by (auto simp: reply_published_def conn_send_def)
  moreover have "has_op (publish_result_to_wire (MInt rid) res) PUBLISH_RESULT"
    using published_shape [OF assms(2)] by (auto simp: publish_result_to_wire_def has_op_def get_or_none_def publish_ok_def publish_rejected_def)
  ultimately show ?thesis using published_wire [OF assms(2), of rid] by blast
qed

text \<open>
  A publish over the wire is a publish: for the frame a client sends for a publish with a
  request number, when the broker accepts or rejects the message at once, the connection sends
  exactly one reply, it carries that request number, the client reads the broker's own result
  from it, and the broker is left as the direct call leaves it.
\<close>

theorem publish_over_the_wire:
  assumes "cn_open c" "publish topic payload extras now b = (Inr (Published res), b1)"
    and "encode_frame (cn_packb c) (publish_result_to_wire (MInt rid) res) = Inr bs"
    and "dispatch False now (with_rid rid (publish_frame topic payload extras)) c b = (r, c', b')"
  shows "r = Inr () \<and> b' = b1 \<and>
         (\<exists>F. cn_sent c' = cn_sent c @ [F] \<and> get_or_none F ''rid'' = MInt rid \<and> publish_reply F = Inr res)"
  using publish_over_wire [OF assms] by blast

theorem publish_over_the_wire_witness:
  "\<exists>F. cn_sent (fst (snd (dispatch False 9 (with_rid 3 (publish_frame ''a.>'' MNone None)) (sr_conns demo_server ! 0)
         (sr_broker demo_server)))) = cn_sent (sr_conns demo_server ! 0) @ [F] \<and>
       get_or_none F ''rid'' = MInt 3 \<and> (\<exists>e. publish_reply F = Inr (publish_rejected e))"
proof -
  let ?c = "sr_conns demo_server ! 0" and ?b = "sr_broker demo_server"
  obtain r c' b' where d: "dispatch False 9 (with_rid 3 (publish_frame ''a.>'' MNone None)) ?c ?b = (r, c', b')"
    by (metis surj_pair)
  let ?e = "\<lparr>pe_code = ''invalid_topic'', pe_detail = ''published subject may not contain wildcards: '' @ py_repr ''a.>''\<rparr>"
  obtain b1 where p: "publish ''a.>'' MNone None 9 ?b = (Inr (Published (publish_rejected ?e)), b1)"
    by (simp add: publish_def publish_begin_def validate_subject_def split_subject_def has_wildcard_def
        TOKEN_WILDCARD_def TAIL_WILDCARD_def)
  have "cn_open ?c" by code_simp
  have "is_ok (encode_frame (cn_packb ?c) (publish_result_to_wire (MInt 3) (publish_rejected ?e)))" by code_simp
  then obtain bs where "encode_frame (cn_packb ?c) (publish_result_to_wire (MInt 3) (publish_rejected ?e)) = Inr bs"
    by (metis is_ok.elims(2))
  from publish_over_the_wire [OF \<open>cn_open ?c\<close> p this d] d show ?thesis by auto
qed

section \<open>Acknowledgements\<close>

text \<open>What a server's state gives for one of its connections.\<close>

lemma server_rel_conn:
  assumes "server_rel s sr" "i < length (sr_conns sr)"
  shows "core_inv (sr_broker sr)" "subs_known (sr_broker sr) (cn_subs (sr_conns sr ! i))"
  using assms nth_mem [OF assms(2)] sys_inv_core [of s] by (auto simp: server_rel_def conn_ok_def)

text \<open>
  An acknowledgement is routed by its delivery id, once: in a state of the server, when a
  pump hands over a delivery, the client can read exactly that delivery from the frame it sends;
  an ack frame with its id then acknowledges it at the broker - nothing else happens - and a
  second ack or nack with the same id does nothing at all.
\<close>

theorem acks_are_routed_once:
  assumes "server_rel s sr" "i < length (sr_conns sr)" "c = sr_conns sr ! i" "cn_open c"
    and "j < length (cn_subs c)" "cn_subs c ! j = (sid, a, Running)"
    and "stream_next a (sr_broker sr) = (Next d, b1)" "encode_frame (cn_packb c) (delivery_to_wire d) = Inr bs"
    and "pump_turn False j c (sr_broker sr) = (c1, b2)"
    and "get_or_none f ''delivery_id'' = MStr (dl_id d)" "on_ack f c1 b3 = (r, c2, b4)"
  shows "(\<exists>F. cn_sent c1 = cn_sent c @ [F] \<and> delivery_from_wire F = Inr d) \<and>
         (r, b4) = ack d b3 \<and> on_ack f c2 b4 = (Inr (), c2, b4) \<and> on_nack f c2 b4 = (Inr (), c2, b4)"
proof -
  note rel = server_rel_conn [OF assms(1,2), folded assms(3)]
  have entry: "a < length (bk_regs (sr_broker sr))" "fst (statics (sr_broker sr) ! a) = sid"
    "dict_get (cn_subs c) sid = Some (a, Running)"
    using subs_known_nth [OF rel(2) assms(5,6)] by simp_all
  have sid: "dl_sid d = sid"
    using stream_next_safe [OF rel(1) entry(1) assms(7)] entry(2) by (simp add: good_delivery_def)
  have c1: "cn_subs c1 = cn_subs c" "cn_inflight c1 = dict_set (dl_id d) d (cn_inflight c)"
    "cn_sent c1 = cn_sent c @ [delivery_to_wire d]"
    using assms(4,6-9) by (auto simp: pump_turn_def conn_send_def)
  have look: "lookup_key f ''delivery_id'' (cn_inflight c1) = Inr (Some (dl_id d, d))"
    using assms(10) by (simp add: lookup_key_def c1(2) dict_simps)
  have c2: "(r, b4) = ack d b3" "cn_inflight c2 = dict_pop (dl_id d) (cn_inflight c1)"
    using assms(11) look sid entry(3) c1(1)
    by (auto simp: on_ack_def settle_def Let_def split: prod.splits)
  have "lookup_key f ''delivery_id'' (cn_inflight c2) = Inr None"
    using assms(10) by (simp add: lookup_key_def c2(2) dict_simps)
  then have "settle act f c2 b4 = (Inr (), c2, b4)" for act by (simp add: settle_def)
  with c2(1) c1(3) delivery_wire_roundtrip show ?thesis by (auto simp: on_ack_def on_nack_def)
qed

definition ack_frame :: "string \<Rightarrow> frame" where
  "ack_frame did = [(MStr ''op'', MStr (op_str ACK)), (MStr ''delivery_id'', MStr did)]"

lemma pumpable:
  assumes "case fst (stream_next a b) of Next d \<Rightarrow> P d | _ \<Rightarrow> False"
  obtains d b1 where "stream_next a b = (Next d, b1)" "P d"
  using assms by (cases "stream_next a b") (auto split: next_result.splits)

theorem acks_are_routed_once_witness:
  "\<exists>d c1 b1. pump_turn False 0 (sr_conns demo_server ! 0) (sr_broker demo_server) = (c1, b1) \<and>
     fst (stream_next 0 (sr_broker demo_server)) = Next d \<and>
     (\<exists>r c2 b2. on_ack (ack_frame (dl_id d)) c1 b1 = (r, c2, b2) \<and> ack d b1 = (r, b2))"
proof -
  let ?c = "sr_conns demo_server ! 0" and ?b = "sr_broker demo_server"
  have "draws_distinct (sr_broker demo_server)" by code_simp
  then obtain s where s: "server_rel s demo_server" unfolding demo_server_def by (rule fresh_server_rel)
  have "case fst (stream_next 0 ?b) of Next d \<Rightarrow> is_ok (encode_frame (cn_packb ?c) (delivery_to_wire d)) | _ \<Rightarrow> False"
    by code_simp
  then obtain d b1 where d: "stream_next 0 ?b = (Next d, b1)" "is_ok (encode_frame (cn_packb ?c) (delivery_to_wire d))"
    by (rule pumpable)
  then obtain bs where bs: "encode_frame (cn_packb ?c) (delivery_to_wire d) = Inr bs" by (metis is_ok.elims(2))
  have len: "length (sr_conns demo_server) = 1" "length (cn_subs ?c) = 1" "cn_open ?c"
    "fst (snd (cn_subs ?c ! 0)) = 0" "snd (snd (cn_subs ?c ! 0)) = Running" by code_simp+
  then obtain sid where sub: "cn_subs ?c ! 0 = (sid, 0, Running)" by (metis prod.collapse)
  obtain c1 b2 where pt: "pump_turn False 0 ?c ?b = (c1, b2)" by fastforce
  obtain r c2 b4 where oa: "on_ack (ack_frame (dl_id d)) c1 b2 = (r, c2, b4)" by (metis surj_pair)
  have "get_or_none (ack_frame (dl_id d)) ''delivery_id'' = MStr (dl_id d)" by (simp add: ack_frame_def get_or_none_def)
  from acks_are_routed_once [OF s _ refl len(3) _ sub d(1) bs pt this oa] len
  have "(r, b4) = ack d b2" by simp
  with pt d(1) oa show ?thesis by auto
qed

section \<open>Teardown\<close>

definition alive :: "string \<times> nat \<times> task \<Rightarrow> bool" where
  "alive x \<longleftrightarrow> (case snd (snd x) of Failed e \<Rightarrow> False | _ \<Rightarrow> True)"

text \<open>
  What \<open>drain_subs\<close> does to the broker: the subscriptions up to the first failed pump are gone
  with everything the broker kept for them, all others are untouched.
\<close>

lemma drained:
  assumes "core_inv b" "subs_known b ss" "drain_subs ss b = (r, ss', b')"
  defines "gone \<equiv> dict_keys (takeWhile alive ss)"
  shows "core_inv b' \<and> evolves b b' \<and> (is_ok r \<longleftrightarrow> (\<forall>x\<in>set ss. alive x)) \<and>
         (\<forall>s. registered b' s \<longleftrightarrow> registered b s \<and> s \<notin> gone) \<and>
         (\<forall>s. pending_of b' s = (if s \<in> gone then 0 else pending_of b s)) \<and>
         bk_inflight b' = filter (\<lambda>(k, d). dl_sid d \<notin> gone) (bk_inflight b)"
  using assms(1-3) unfolding gone_def
proof (induction ss arbitrary: b r ss' b')
  case Nil
  then show ?case by (auto intro: filter_True [symmetric])
next
  case (Cons x ss)
  obtain sid a t where x: "x = (sid, a, t)" by (metis prod.collapse)
  show ?case
  proof (cases "alive x")
    case False
    with Cons.prems x show ?thesis by (auto simp: drain_subs_Cons alive_def split: task.splits intro: filter_True [symmetric])
  next
    case True
    let ?b1 = "stream_unsubscribe a b"
    obtain r1 ss1 b1 where d: "drain_subs ss ?b1 = (r1, ss1, b1)" by (metis surj_pair)
    have res: "is_ok r = is_ok r1" "b' = b1"
      using Cons.prems(3) True d x by (auto simp: drain_subs_Cons alive_def split: task.splits)
    have a: "a < length (bk_regs b)" "subs_known b ss" "fst (statics b ! a) = sid" using Cons.prems(2) by (simp_all add: x)
    have safe: "core_inv ?b1" "evolves b ?b1" using stream_unsubscribe_safe [OF Cons.prems(1) a(1)] by simp_all
    have "sub_id (st_sub (bk_stream_heap b ! a)) = sid"
      using core_heapD(3) [OF Cons.prems(1) a(1)] a(1,3) by (simp add: statics_nth reg_static_def)
    then have down: "torn_down sid b ?b1"
      using torn_down_mark_closed [OF torn_down_unsubscribe [OF Cons.prems(1)]] by (simp add: stream_unsubscribe_def)
    have facts: "registered ?b1 s \<longleftrightarrow> registered b s \<and> s \<noteq> sid"
      "pending_of ?b1 s = (if s = sid then 0 else pending_of b s)" for s
      using torn_down_facts(1,2) [OF down] torn_down_facts(4) [OF down, of s] by (cases "s = sid"; simp)+
    have "bk_inflight ?b1 = filter (\<lambda>(k, d). dl_sid d \<noteq> sid) (bk_inflight b)" using down by (simp add: torn_down_def)
    moreover have "evolves b b1"
      using Cons.IH [OF safe(1) subs_known_mono [OF a(2) safe(2)] d] evolves_trans [OF safe(2)] by blast
    ultimately show ?thesis
      using Cons.IH [OF safe(1) subs_known_mono [OF a(2) safe(2)] d] res True x facts
      by (auto simp: case_prod_unfold filter_filter conj_commute intro!: filter_cong)
  qed
qed

text \<open>The registrations \<open>teardown\<close> leaves alone, whatever ends it.\<close>

lemma teardown_spares:
  assumes "core_inv b" "subs_known b (cn_subs c)" "s \<notin> dict_keys (takeWhile alive (cn_subs c))"
  shows "registered (snd (teardown c b)) s = registered b s"
proof -
  obtain r ss b1 where d: "drain_subs (cn_subs c) b = (r, ss, b1)" by (metis surj_pair)
  have "registered b1 s = registered b s" using drained [OF assms(1,2) d] assms(3) by simp
  then show ?thesis by (auto simp: teardown_def d split: option.split task.split sum.split)
qed

lemma sr_act_conn:
  assumes "target x = Some i" "i < length (sr_conns sr)" "conn_act x (sr_timeout sr) (sr_conns sr ! i) (sr_broker sr) = (c', b')"
  shows "sr_conns (sr_act x sr) = (sr_conns sr)[i := c']" "sr_broker (sr_act x sr) = b'" "sr_timeout (sr_act x sr) = sr_timeout sr"
  using sr_act_target [OF assms(1), of sr] assms(2,3) by (simp_all add: put_conn_def)

text \<open>Dropping a connection none of whose tasks failed.\<close>

lemma teardown_alive:
  assumes "core_inv b" "subs_known b (cn_subs c)" "list_all alive (cn_subs c)" "\<forall>e. cn_heartbeat c \<noteq> Some (Failed e)"
  shows "\<exists>b'. teardown c b = (stop_conn (c\<lparr>cn_heartbeat := Some Returned, cn_subs := [], cn_inflight := []\<rparr>), b') \<and>
           core_inv b' \<and> evolves b b' \<and>
           (\<forall>sid. registered b' sid \<longleftrightarrow> registered b sid \<and> sid \<notin> dict_keys (cn_subs c)) \<and>
           (\<forall>sid. pending_of b' sid = (if sid \<in> dict_keys (cn_subs c) then 0 else pending_of b sid)) \<and>
           bk_inflight b' = filter (\<lambda>(k, d). dl_sid d \<notin> dict_keys (cn_subs c)) (bk_inflight b)"
proof -
  obtain r ss b1 where d: "drain_subs (cn_subs c) b = (r, ss, b1)" by (metis surj_pair)
  have all: "takeWhile alive (cn_subs c) = cn_subs c" using assms(3) by (simp add: list_all_iff)
  note effect = drained [OF assms(1,2) d, unfolded all]
  have "is_ok r" using effect assms(3) by (simp add: list_all_iff)
  then obtain u where "r = Inr u" by (cases r) auto
  then have "teardown c b = (stop_conn (c\<lparr>cn_heartbeat := Some Returned, cn_subs := [], cn_inflight := []\<rparr>), b1)"
    using assms(4) d by (auto simp: teardown_def split: option.split task.split)
  with effect show ?thesis by blast
qed

lemma snd_conn_send_clock [simp]:
  "cn_last_recv (snd (conn_send lost f c)) = cn_last_recv c" "cn_heartbeat (snd (conn_send lost f c)) = cn_heartbeat c"
  by (simp_all add: conn_send_def split: sum.split)

lemma snd_send_error_heartbeat [simp]: "cn_heartbeat (snd (send_error lost t rid c)) = cn_heartbeat c"
  by (simp add: send_error_def conn_send_def split: sum.split)

text \<open>
  The actions at which a connection goes away, with the connection and the broker as they are when
  its teardown starts: the server drops it; its heartbeat task finds the client silent for too long;
  its reader finds no frame; or the handler of a frame, or the publish that waited at the gate, raises.
\<close>

definition going_down :: "sr_action \<Rightarrow> nat \<Rightarrow> 'd server \<Rightarrow> conn \<Rightarrow> 'd broker \<Rightarrow> bool" where
  "going_down x i sr c1 b1 \<longleftrightarrow>
     (let c = sr_conns sr ! i; b = sr_broker sr in
      case x of
        AbortConn k \<Rightarrow> k = i \<and> cn_reader c \<noteq> Handshaking \<and> cn_reader c \<noteq> Stopped \<and> c1 = c \<and> b1 = b
      | HeartbeatTurn k lost now \<Rightarrow>
          k = i \<and> cn_heartbeat c = Some Running \<and> now - cn_last_recv c > sr_timeout sr \<and> c1 = c \<and> b1 = b
      | Frame k lost now (Inl e) \<Rightarrow> k = i \<and> cn_reader c = Reading \<and> c1 = c \<and> b1 = b
      | Frame k lost now (Inr f) \<Rightarrow>
          k = i \<and> cn_reader c = Reading \<and> (\<exists>e. dispatch lost now f (c\<lparr>cn_last_recv := now\<rparr>) b = (Inl e, c1, b1))
      | GateTurn k lost \<Rightarrow>
          k = i \<and> (\<exists>rid m e. cn_reader c = AtGate rid m \<and> gate_turn lost rid m c b = (Inl e, c1, b1))
      | _ \<Rightarrow> False)"

lemma going_down_acts:
  assumes "going_down x i sr c1 b1"
  shows "target x = Some i \<and>
         (\<exists>c2. conn_act x (sr_timeout sr) (sr_conns sr ! i) (sr_broker sr) = teardown c2 b1 \<and>
            cn_subs c2 = cn_subs c1 \<and> (cn_heartbeat c2 = cn_heartbeat c1 \<or> cn_heartbeat c2 = Some Returned))"
proof (cases x)
  case (Frame k lost now outcome)
  with assms show ?thesis
    by (auto simp: going_down_def Let_def reader_turn_def after_reader_def split: sum.splits py_exn.split)
next
  case (GateTurn k lost)
  with assms show ?thesis by (auto simp: going_down_def Let_def after_reader_def)
next
  case (HeartbeatTurn k lost now)
  with assms show ?thesis by (auto simp: going_down_def Let_def heartbeat_turn_def)
next
  case (AbortConn k)
  with assms show ?thesis by (auto simp: going_down_def Let_def abort_def split: reader.splits)
qed (use assms in \<open>simp_all add: going_down_def\<close>)

lemma handled_known:
  assumes "sys_inv s" "handled_run s c (r, c1, b1)"
  shows "core_inv b1 \<and> subs_known b1 (cn_subs c1)"
proof -
  from assms(2) obtain s' where "reaches s s'" "sy_broker s' = b1" "conn_ok s' c1"
    by (auto simp: handled_run_def turn_run_def)
  with sys_inv_core [OF reaches_inv] show ?thesis by (auto simp: conn_ok_def)
qed

lemma going_down_known:
  assumes "server_rel s sr" "i < length (sr_conns sr)" "going_down x i sr c1 b1" "no_collision b1"
  shows "core_inv b1 \<and> subs_known b1 (cn_subs c1)"
proof -
  let ?c = "sr_conns sr ! i"
  note rel = server_rel_conn [OF assms(1,2)]
  have inv: "sys_inv s" "sy_broker s = sr_broker sr" "conn_ok s ?c" "all_waiting (sr_conns sr) \<subseteq># mset (sy_parked s)"
    using assms(1,2) by (simp_all add: server_rel_def)
  consider (same) "c1 = ?c" "b1 = sr_broker sr"
    | (frame) lost now f e where "cn_reader ?c = Reading"
        "dispatch lost now f (?c\<lparr>cn_last_recv := now\<rparr>) (sy_broker s) = (Inl e, c1, b1)"
    | (gate) lost rid m e where "cn_reader ?c = AtGate rid m" "gate_turn lost rid m ?c (sy_broker s) = (Inl e, c1, b1)"
    using assms(3) inv(2) by (cases x) (auto simp: going_down_def Let_def split: sum.splits)
  then show ?thesis
  proof cases
    case same
    with rel show ?thesis by simp
  next
    case frame
    have "conn_ok s (?c\<lparr>cn_last_recv := t\<rparr>)" for t using inv(3) by (simp add: conn_ok_def)
    from handled_known [OF inv(1) run_dispatch [OF inv(1) this _ frame(2) assms(4)]] frame(1) show ?thesis by simp
  next
    case gate
    obtain W where "all_waiting (sr_conns sr) = mset (waiting ?c) + W" using all_waiting_split [OF assms(2)] by blast
    with inv(4) gate(1) have "m \<in># mset (sy_parked s)" by (auto dest: mset_subset_eq_insertD)
    from handled_known [OF inv(1) run_gate_turn [OF inv(1,3) gate(1) _ gate(2) assms(4)]] this show ?thesis by simp
  qed
qed

text \<open>
  C13. A connection that goes away takes its subscriptions along: when no task of it ended with an
  exception and no id was drawn twice, then whatever ends it - the server drops it, the heartbeat task
  finds it silent for longer than the timeout, its reader finds no frame, or a handler raises - it is
  closed and left with no subscription and no delivery in flight; at the broker, as the handler left it,
  each of its subscriptions is unregistered, with none of its deliveries inflight and nothing of it in the
  retry accounting, and the subscriptions of the other connections keep all of theirs.
\<close>

theorem teardown_releases_everything:
  assumes "server_rel s sr" "i < length (sr_conns sr)" "going_down x i sr c b"
    and "list_all alive (cn_subs c)" "\<forall>e. cn_heartbeat c \<noteq> Some (Failed e)" "no_collision (sr_broker (sr_act x sr))"
  defines "b' \<equiv> sr_broker (sr_act x sr)" and "c' \<equiv> sr_conns (sr_act x sr) ! i"
  shows "cn_reader c' = Stopped \<and> \<not> cn_open c' \<and> cn_subs c' = [] \<and> cn_inflight c' = [] \<and>
         (\<forall>sid. registered b' sid \<longleftrightarrow> registered b sid \<and> sid \<notin> dict_keys (cn_subs c)) \<and>
         (\<forall>sid. pending_of b' sid = (if sid \<in> dict_keys (cn_subs c) then 0 else pending_of b sid)) \<and>
         bk_inflight b' = filter (\<lambda>(k, d). dl_sid d \<notin> dict_keys (cn_subs c)) (bk_inflight b)"
proof -
  obtain c2 where x: "target x = Some i"
    and act: "conn_act x (sr_timeout sr) (sr_conns sr ! i) (sr_broker sr) = teardown c2 b"
    and c2: "cn_subs c2 = cn_subs c" "\<forall>e. cn_heartbeat c2 \<noteq> Some (Failed e)"
    using going_down_acts [OF assms(3)] assms(5) by (metis option.inject task.distinct(5))
  obtain c3 b3 where td: "teardown c2 b = (c3, b3)" by fastforce
  note acted = sr_act_conn [OF x assms(2) act [unfolded td]]
  have "no_collision b"
    using assms(6) acted(2) later_no_collision later_teardown [of b c2] td by (metis snd_conv)
  note known = going_down_known [OF assms(1-3) this]
  from teardown_alive [of b c2] known assms(4) c2 td
  show ?thesis using acted assms(2) by (auto simp: b'_def c'_def stop_conn_def)
qed

theorem teardown_releases_everything_witness:
  "map cn_subs (sr_conns (sr_act (HeartbeatTurn 0 False 100) demo_server)) = [[]] \<and>
   \<not> registered (sr_broker (sr_act (HeartbeatTurn 0 False 100) demo_server)) (fst (cn_subs (sr_conns demo_server ! 0) ! 0))"
proof -
  let ?c = "sr_conns demo_server ! 0" and ?x = "HeartbeatTurn 0 False 100"
  have "draws_distinct (sr_broker demo_server)" by code_simp
  then obtain s where s: "server_rel s demo_server" unfolding demo_server_def by (rule fresh_server_rel)
  have hyps: "length (sr_conns demo_server) = 1" "list_all alive (cn_subs ?c)" "cn_heartbeat ?c = Some Running"
    "length (cn_subs ?c) = 1" "length (sr_conns (sr_act ?x demo_server)) = 1"
    "cn_last_recv ?c = 3" "sr_timeout demo_server = 45" "draws_distinct (sr_broker (sr_act ?x demo_server))" by code_simp+
  then have "going_down ?x 0 demo_server ?c (sr_broker demo_server)" by (simp add: going_down_def)
  note main = teardown_releases_everything [OF s _ this hyps(2)]
  have "fst (cn_subs ?c ! 0) \<in> dict_keys (cn_subs ?c)" using hyps(4) by simp
  with main hyps show ?thesis by (auto simp: length_Suc_conv draws_distinct)
qed

text \<open>
  C38. A pump that fails keeps its connection from being torn down: \<open>_drain\<close> awaits the cancelled
  pumps and swallows their cancellation only.  When a delivery cannot be encoded - its frame is
  over the cap, or its payload holds an integer MessagePack has no form for - the pump ends with
  the error and no word to the client; and when the client then hangs up, teardown stops at that pump: its subscription and all that the connection made after
  it stay registered at the broker although nobody can ever read them.
\<close>

theorem failed_pump_aborts_teardown:
  assumes "server_rel s sr" "i < length (sr_conns sr)" "c = sr_conns sr ! i" "cn_reader c = Reading"
    and "j < length (cn_subs c)" "cn_subs c ! j = (sid, a, Running)"
    and "stream_next a (sr_broker sr) = (Next d, b1)"
    and "encode_frame (cn_packb c) (delivery_to_wire d) = Inl e" "\<not> swallowed e"
    and "x \<in> dict_keys (drop j (cn_subs c))"
    and "sr' = sr_run [PumpTurn i j False, Frame i False now (Inl IncompleteReadError)] sr"
  shows "cn_sent (sr_conns sr' ! i) = cn_sent c \<and> cn_reader (sr_conns sr' ! i) = Stopped \<and>
         registered (sr_broker sr') x = registered (sr_broker sr) x"
proof -
  note rel = server_rel_conn [OF assms(1,2), folded assms(3)]
  have entry: "a < length (bk_regs (sr_broker sr))" using subs_known_nth [OF rel(2) assms(5,6)] by simp
  let ?c1 = "c\<lparr>cn_inflight := dict_set (dl_id d) d (cn_inflight c), cn_subs := (cn_subs c)[j := (sid, a, Failed e)]\<rparr>"
  have "conn_act (PumpTurn i j False) (sr_timeout sr) c (sr_broker sr) = (?c1, b1)"
    using assms(5-9) by (simp add: pump_turn_def conn_send_def ended_by_def)
  note 1 = sr_act_conn [OF _ assms(2) this [unfolded assms(3)], folded assms(3), simplified]
  have safe: "core_inv b1" "evolves (sr_broker sr) b1" using stream_next_safe [OF rel(1) entry assms(7)] by simp_all
  have known: "subs_known b1 (cn_subs ?c1)"
    using subs_known_update [OF subs_known_mono [OF rel(2) safe(2)] assms(5,6)] by simp
  have "\<not> alive (sid, a, Failed e)" by (simp add: alive_def)
  then have "takeWhile alive (cn_subs ?c1) = takeWhile alive (take j (cn_subs c))"
    using assms(5) by (simp add: upd_conv_take_nth_drop takeWhile_tail)
  then have "dict_keys (takeWhile alive (cn_subs ?c1)) \<subseteq> dict_keys (take j (cn_subs c))"
    by (metis image_mono set_takeWhileD subsetI)
  moreover have "dict_keys (take j (cn_subs c)) \<inter> dict_keys (drop j (cn_subs c)) = {}"
    using rel(2) set_take_disj_set_drop_if_distinct [of "map fst (cn_subs c)" j j]
    by (auto simp: subs_known_def take_map drop_map)
  ultimately have x: "x \<notin> dict_keys (takeWhile alive (cn_subs ?c1))" using assms(10) by blast
  obtain c2 b2 where td: "teardown ?c1 b1 = (c2, b2)" by fastforce
  have "conn_act (Frame i False now (Inl IncompleteReadError)) (sr_timeout sr) ?c1 b1 = (c2, b2)"
    using assms(4) td by (simp add: reader_turn_def)
  then have sr': "sr_conns sr' ! i = c2" "sr_broker sr' = b2"
    using assms(2) 1 sr_act_conn [of "Frame i False now (Inl IncompleteReadError)" i "sr_act (PumpTurn i j False) sr" c2 b2]
    by (simp_all add: assms(11) sr_run_def)
  have "registered b2 x = registered b1 x" using teardown_spares [OF safe(1) known x] td by simp
  moreover have "registered b1 x = registered (sr_broker sr) x"
    using assms(7) by (auto simp: stream_next_def Let_def set_queue_def registered_def split: if_splits option.splits)
  moreover have "cn_sent c2 = cn_sent c" "cn_reader c2 = Stopped"
    using td by (auto simp: teardown_def stop_conn_def split: option.splits task.splits prod.splits sum.splits)
  ultimately show ?thesis using sr' by simp
qed

text \<open>MessagePack refuses integers beyond 64 bits; here every delivery holds one.\<close>

definition picky_pack :: "mpval \<Rightarrow> byte list result" where
  "picky_pack v = (case v of MDict f \<Rightarrow> if has_op f DELIVERY then Inl OverflowError else Inr [0] | _ \<Rightarrow> Inr [0])"

definition picky_server :: "mem_store server" where
  "picky_server = sr_run (Accept picky_pack 0 # tl demo_actions) fresh_server"

theorem failed_pump_aborts_teardown_witness:
  "map cn_reader (sr_conns (sr_run [PumpTurn 0 0 False, Frame 0 False 9 (Inl IncompleteReadError)] picky_server)) = [Stopped] \<and>
   registered (sr_broker (sr_run [PumpTurn 0 0 False, Frame 0 False 9 (Inl IncompleteReadError)] picky_server))
     (fst (cn_subs (sr_conns picky_server ! 0) ! 0))"
proof -
  let ?c = "sr_conns picky_server ! 0" and ?b = "sr_broker picky_server"
  let ?t = "sr_run [PumpTurn 0 0 False, Frame 0 False 9 (Inl IncompleteReadError)] picky_server"
  have "draws_distinct ?b" by code_simp
  then obtain s where s: "server_rel s picky_server" unfolding picky_server_def by (rule fresh_server_rel)
  have "case fst (stream_next 0 ?b) of Next d \<Rightarrow>
      (case encode_frame (cn_packb ?c) (delivery_to_wire d) of Inl e \<Rightarrow> \<not> swallowed e | Inr _ \<Rightarrow> False) | _ \<Rightarrow> False"
    by code_simp
  then obtain d b1 where d: "stream_next 0 ?b = (Next d, b1)"
    "case encode_frame (cn_packb ?c) (delivery_to_wire d) of Inl e \<Rightarrow> \<not> swallowed e | Inr _ \<Rightarrow> False" by (rule pumpable)
  then obtain e where e: "encode_frame (cn_packb ?c) (delivery_to_wire d) = Inl e" "\<not> swallowed e"
    by (auto split: sum.splits)
  have len: "length (sr_conns picky_server) = 1" "length (cn_subs ?c) = 1"
    "fst (snd (cn_subs ?c ! 0)) = 0" "snd (snd (cn_subs ?c ! 0)) = Running" "length (sr_conns ?t) = 1"
    "registered ?b (fst (cn_subs ?c ! 0))" by code_simp+
  then obtain sid where sub: "cn_subs ?c ! 0 = (sid, 0, Running)" by (metis prod.collapse)
  have "case cn_reader ?c of Reading \<Rightarrow> True | _ \<Rightarrow> False" by code_simp
  then have rd: "cn_reader ?c = Reading" by (simp split: reader.splits)
  have "fst (cn_subs ?c ! 0) \<in> dict_keys (drop 0 (cn_subs ?c))" using len(2) by simp
  from failed_pump_aborts_teardown [where now = 9, OF s _ refl rd _ sub d(1) e this refl] len
  show ?thesis by (auto simp: length_Suc_conv)
qed

section \<open>A publish that waits\<close>

fun own_turn :: "nat \<Rightarrow> sr_action \<Rightarrow> bool" where
  "own_turn i (Frame i' lost now outcome) \<longleftrightarrow> i' = i"
| "own_turn i (GateTurn i' lost) \<longleftrightarrow> i' = i"
| "own_turn i (PumpTurn i' j lost) \<longleftrightarrow> i' = i"
| "own_turn i _ \<longleftrightarrow> False"

text \<open>The state of a connection whose reader waits at a gate that is shut.\<close>

definition stuck :: "mpval \<Rightarrow> message \<Rightarrow> (string, delivery) dict \<Rightarrow> real \<Rightarrow> task option \<Rightarrow> conn \<times> 'd broker \<Rightarrow> bool" where
  "stuck rid m fl t hb cb \<longleftrightarrow>
     cn_reader (fst cb) = AtGate rid m \<and> \<not> below_watermark (snd cb) \<and> bk_inflight (snd cb) = fl \<and>
     cn_last_recv (fst cb) = t \<and> cn_heartbeat (fst cb) = hb"

lemma below_watermark_frame:
  "below_watermark (b\<lparr>bk_queues := q\<rparr>) = below_watermark b" "below_watermark (b\<lparr>bk_admit := v\<rparr>) = below_watermark b"
  by (cases "bk_max_inflight b"; simp add: below_watermark_def backlog_def watermark_def)+

lemma stream_next_stuck:
  "stream_next a b = (n, b1) \<Longrightarrow> below_watermark b1 = below_watermark b \<and> bk_inflight b1 = bk_inflight b"
  by (auto simp: stream_next_def Let_def set_queue_def below_watermark_frame split: if_splits option.splits)

lemma pump_turn_stuck:
  assumes "stuck rid m fl t hb (c, b)"
  shows "stuck rid m fl t hb (pump_turn lost j c b)"
proof -
  obtain sid a k where e: "cn_subs c ! j = (sid, a, k)" by (metis prod.collapse)
  obtain n b1 where n: "stream_next a b = (n, b1)" by fastforce
  note same = stream_next_stuck [OF n]
  show ?thesis
  proof (cases n)
    case (Next d)
    obtain r c2 where sd: "conn_send lost (delivery_to_wire d) (c\<lparr>cn_inflight := dict_set (dl_id d) d (cn_inflight c)\<rparr>) = (r, c2)"
      by fastforce
    then have "cn_reader c2 = cn_reader c" "cn_last_recv c2 = cn_last_recv c" "cn_heartbeat c2 = cn_heartbeat c"
      using snd_conn_send(3) [of lost "delivery_to_wire d"] snd_conn_send_clock [of lost "delivery_to_wire d"]
      by (metis conn.select_convs conn.surjective conn.update_convs(3) snd_conv)+
    with assms e n sd Next same show ?thesis by (auto simp: pump_turn_def stuck_def split: sum.split)
  qed (use assms e n same in \<open>simp_all add: pump_turn_def stuck_def\<close>)
qed

lemma conn_act_stuck:
  assumes "own_turn i x" "stuck rid m fl t hb (c, b)"
  shows "stuck rid m fl t hb (conn_act x timeout c b)"
proof (cases x)
  case (GateTurn i lost)
  with assms(2) show ?thesis
    by (simp add: stuck_def gate_turn_def publish_resume_def gate_pass_def reply_published_def after_reader_def
        below_watermark_frame)
next
  case (PumpTurn i j lost)
  with assms(2) pump_turn_stuck [OF assms(2)] show ?thesis by simp
qed (use assms in \<open>auto simp: stuck_def\<close>)

lemma sr_run_stuck:
  assumes "list_all (own_turn i) xs" "i < length (sr_conns sr)" "stuck rid m fl t hb (sr_conns sr ! i, sr_broker sr)"
  shows "i < length (sr_conns (sr_run xs sr)) \<and> sr_timeout (sr_run xs sr) = sr_timeout sr \<and>
    stuck rid m fl t hb (sr_conns (sr_run xs sr) ! i, sr_broker (sr_run xs sr))"
  using assms
proof (induction xs arbitrary: sr)
  case Nil
  then show ?case by (simp add: sr_run_def)
next
  case (Cons x xs)
  obtain c' b' where a: "conn_act x (sr_timeout sr) (sr_conns sr ! i) (sr_broker sr) = (c', b')" by fastforce
  have "target x = Some i" using Cons.prems(1) by (cases x) auto
  note act = sr_act_conn [OF this Cons.prems(2) a]
  have "stuck rid m fl t hb (c', b')" using conn_act_stuck [where x = x, OF _ Cons.prems(3)] Cons.prems(1) a by (metis list.pred_inject(2))
  with Cons.IH [of "sr_act x sr"] Cons.prems(1,2) act show ?case by (simp add: sr_run_def)
qed

text \<open>
  A publish at the gate stops its connection from being read: while the backlog is at the
  watermark, no frame the same client sends - its own acks and nacks, which would lower the
  backlog, included - and no turn of its reader or pumps changes the broker's inflight table or
  moves the waiting publish; and because its heartbeats are not read either, the server takes a
  live client for a silent one and drops the connection once the heartbeat timeout is over.
\<close>

theorem parked_publish_blocks_acks:
  assumes "i < length (sr_conns sr)" "c = sr_conns sr ! i" "cn_reader c = AtGate rid m"
    and "\<not> below_watermark (sr_broker sr)" "list_all (own_turn i) xs" "cn_heartbeat c = Some Running"
    and "now - cn_last_recv c > sr_timeout sr"
  shows "bk_inflight (sr_broker (sr_run xs sr)) = bk_inflight (sr_broker sr) \<and>
         cn_reader (sr_conns (sr_run xs sr) ! i) = AtGate rid m \<and>
         cn_reader (sr_conns (sr_run (xs @ [HeartbeatTurn i lost now]) sr) ! i) = Stopped"
proof -
  let ?t = "sr_run xs sr"
  have "stuck rid m (bk_inflight (sr_broker sr)) (cn_last_recv c) (cn_heartbeat c) (sr_conns sr ! i, sr_broker sr)"
    using assms(2-4) by (simp add: stuck_def)
  from sr_run_stuck [OF assms(5,1) this] have t: "i < length (sr_conns ?t)" "sr_timeout ?t = sr_timeout sr"
    "stuck rid m (bk_inflight (sr_broker sr)) (cn_last_recv c) (cn_heartbeat c) (sr_conns ?t ! i, sr_broker ?t)" by simp_all
  let ?c = "(sr_conns ?t ! i)\<lparr>cn_heartbeat := Some Returned\<rparr>"
  have "conn_act (HeartbeatTurn i lost now) (sr_timeout ?t) (sr_conns ?t ! i) (sr_broker ?t) = teardown ?c (sr_broker ?t)"
    using t(2,3) assms(6,7) by (simp add: stuck_def heartbeat_turn_def)
  then have "cn_reader (sr_conns (sr_act (HeartbeatTurn i lost now) ?t) ! i) = Stopped"
    using sr_act_conn [of "HeartbeatTurn i lost now" i ?t] t(1) teardown_reader(1) [of ?c "sr_broker ?t"]
    by (metis fst_conv nth_list_update_eq prod.collapse target.simps(4))
  with t(3) show ?thesis by (simp add: stuck_def sr_run_def)
qed

definition parked_server :: "mem_store server" where
  "parked_server = sr_act (Frame 0 False 4 (Inr (with_rid 3 (publish_frame ''a'' MNone None)))) demo_server"

theorem parked_publish_blocks_acks_witness:
  "\<exists>did. map fst (bk_inflight (sr_broker parked_server)) = [did] \<and>
     map fst (bk_inflight (sr_broker (sr_run [PumpTurn 0 0 False, Frame 0 False 5 (Inr (ack_frame did))] parked_server))) = [did]"
proof -
  let ?c = "sr_conns parked_server ! 0"
  have hyps: "length (sr_conns parked_server) = 1" "\<not> below_watermark (sr_broker parked_server)"
    "cn_heartbeat ?c = Some Running" "cn_last_recv ?c = 4" "sr_timeout parked_server = 45"
    "length (bk_inflight (sr_broker parked_server)) = 1" by code_simp+
  have "case cn_reader ?c of AtGate rid m \<Rightarrow> True | _ \<Rightarrow> False" by code_simp
  then obtain rid m where rd: "cn_reader ?c = AtGate rid m" by (auto split: reader.splits)
  obtain did where "map fst (bk_inflight (sr_broker parked_server)) = [did]" using hyps(6) by (auto simp: length_Suc_conv)
  moreover have "list_all (own_turn 0) [PumpTurn 0 0 False, Frame 0 False 5 (Inr (ack_frame did))]" by simp
  from parked_publish_blocks_acks [OF _ refl rd hyps(2) this hyps(3), of 100 False] hyps
  have "bk_inflight (sr_broker (sr_run [PumpTurn 0 0 False, Frame 0 False 5 (Inr (ack_frame did))] parked_server)) =
    bk_inflight (sr_broker parked_server)" by simp
  ultimately show ?thesis by auto
qed

end
