(* ===== verification/LogHandlers.thy ===== *)
theory LogHandlers
  imports Row_Order "HOL-Library.Multiset"
begin

text \<open>
  The durable log handlers (\<open>pubsub/server/log.py\<close>).  A log record carries the outcome of its
  \<open>getMessage\<close> in \<open>lr_text\<close>: formatting belongs to the logging library and may raise.  The SQLite
  handler uses the default transaction control of \<open>sqlite3\<close>: the first INSERT opens a
  transaction, which stays open when a statement or the COMMIT raises.  Which \<open>executemany\<close>
  fails, after how many rows, and which COMMIT fails are parameters.
\<close>

record log_record =
  lr_created :: real
  lr_levelno :: int
  lr_name :: string
  lr_pathname :: string
  lr_lineno :: int
  lr_text :: "string result"

type_synonym log_entry = "real \<times> int \<times> string \<times> string"

definition log_matches :: "log_record \<Rightarrow> int option \<Rightarrow> real option \<Rightarrow> bool" where
  "log_matches r level since \<longleftrightarrow>
     (case level of None \<Rightarrow> True | Some l \<Rightarrow> lr_levelno r \<ge> l) \<and>
     (case since of None \<Rightarrow> True | Some t \<Rightarrow> lr_created r \<ge> t)"

section \<open>The in-memory handler\<close>

record mem_log =
  ml_buffer :: "log_record list"
  ml_store :: "log_record list"

definition mlog_init :: mem_log where
  "mlog_init = \<lparr>ml_buffer = [], ml_store = []\<rparr>"

definition mlog_emit :: "log_record \<Rightarrow> mem_log \<Rightarrow> unit result \<times> mem_log" where
  "mlog_emit r s = (Inr (), s\<lparr>ml_buffer := ml_buffer s @ [r]\<rparr>)"

definition mlog_flush :: "mem_log \<Rightarrow> unit result \<times> mem_log" where
  "mlog_flush s = (Inr (), s\<lparr>ml_store := ml_store s @ ml_buffer s, ml_buffer := []\<rparr>)"

definition mlog_retrieve :: "int option \<Rightarrow> real option \<Rightarrow> mem_log \<Rightarrow> log_record list result \<times> mem_log" where
  "mlog_retrieve level since s = (Inr (filter (\<lambda>r. log_matches r level since) (ml_store s)), s)"

section \<open>The SQLite handler\<close>

record log_row =
  gr_seq :: nat
  gr_entry :: log_entry

text \<open>\<open>lg_rows\<close> is what the connection sees, \<open>lg_committed\<close> what is on disk.\<close>

record sql_log =
  lg_buffer :: "(log_record \<times> string) list"
  lg_rows :: "log_row list"
  lg_committed :: "log_row list"
  lg_seq :: nat
  lg_insert_faults :: "nat \<Rightarrow> (nat \<times> py_exn) option"
  lg_commit_faults :: "nat \<Rightarrow> py_exn option"
  lg_clock :: nat
  lg_closed :: bool

definition log_closed_error :: py_exn where
  "log_closed_error = BackendError ''Cannot operate on a closed database.''"

definition slog_emit :: "log_record \<Rightarrow> sql_log \<Rightarrow> unit result \<times> sql_log" where
  "slog_emit r s =
     (case lr_text r of
        Inl e \<Rightarrow> (Inl e, s)
      | Inr message \<Rightarrow> (Inr (), s\<lparr>lg_buffer := lg_buffer s @ [(r, message)]\<rparr>))"

definition log_entry_of :: "log_record \<times> string \<Rightarrow> log_entry" where
  "log_entry_of rm = (lr_created (fst rm), lr_levelno (fst rm), lr_name (fst rm), snd rm)"

text \<open>The rows of one \<open>executemany\<close>, each in the transaction that is open by then.\<close>

fun insert_logs :: "log_entry list \<Rightarrow> sql_log \<Rightarrow> sql_log" where
  "insert_logs [] s = s"
| "insert_logs (e # es) s =
     insert_logs es (s\<lparr>lg_rows := lg_rows s @ [\<lparr>gr_seq = Suc (lg_seq s), gr_entry = e\<rparr>], lg_seq := Suc (lg_seq s)\<rparr>)"

definition slog_flush :: "sql_log \<Rightarrow> unit result \<times> sql_log" where
  "slog_flush s =
     (let rows = map log_entry_of (lg_buffer s);
          s0 = s\<lparr>lg_buffer := []\<rparr>
      in if rows = [] then (Inr (), s0)
         else if lg_closed s then (Inl log_closed_error, s0)
         else let s1 = s0\<lparr>lg_clock := Suc (lg_clock s)\<rparr> in
           case lg_insert_faults s (lg_clock s) of
             Some (k, e) \<Rightarrow> (Inl e, insert_logs (take k rows) s1)
           | None \<Rightarrow>
               (let s2 = insert_logs rows s1 in
                case lg_commit_faults s (lg_clock s) of
                  Some e \<Rightarrow> (Inl e, s2)
                | None \<Rightarrow> (Inr (), s2\<lparr>lg_committed := lg_rows s2\<rparr>)))"

definition row_selected :: "int option \<Rightarrow> real option \<Rightarrow> log_row \<Rightarrow> bool" where
  "row_selected level since r \<longleftrightarrow>
     (case level of None \<Rightarrow> True | Some l \<Rightarrow> fst (snd (gr_entry r)) \<ge> l) \<and>
     (case since of None \<Rightarrow> True | Some t \<Rightarrow> fst (gr_entry r) \<ge> t)"

definition select_logs :: "int option \<Rightarrow> real option \<Rightarrow> log_row list \<Rightarrow> log_row list" where
  "select_logs level since rows =
     sort_key (\<lambda>r. (fst (gr_entry r), gr_seq r)) (filter (row_selected level since) rows)"

fun record_of_row :: "log_entry \<Rightarrow> log_record" where
  "record_of_row (created, levelno, name, message) =
     \<lparr>lr_created = created, lr_levelno = levelno, lr_name = name, lr_pathname = ''(sqlite)'', lr_lineno = 0,
      lr_text = Inr message\<rparr>"

definition slog_retrieve :: "int option \<Rightarrow> real option \<Rightarrow> sql_log \<Rightarrow> log_record list result \<times> sql_log" where
  "slog_retrieve level since s =
     (if lg_closed s then (Inl log_closed_error, s)
      else (Inr (map (record_of_row \<circ> gr_entry) (select_logs level since (lg_rows s))), s))"

text \<open>The connection stays open when the last flush raises; what was not committed is rolled back.\<close>

definition slog_close :: "sql_log \<Rightarrow> unit result \<times> sql_log" where
  "slog_close s =
     (case slog_flush s of
        (Inl e, s') \<Rightarrow> (Inl e, s')
      | (Inr _, s') \<Rightarrow> (Inr (), s'\<lparr>lg_closed := True, lg_rows := lg_committed s'\<rparr>))"

section \<open>The contract\<close>

text \<open>
  A durable handler, over the entries it has stored and those it still buffers.  \<open>arrange\<close> is
  the order in which the backend answers a query; it never drops or adds an entry.
\<close>

definition view_entry :: "log_record \<Rightarrow> log_entry" where
  "view_entry r = log_entry_of (r, case lr_text r of Inr t \<Rightarrow> t | Inl _ \<Rightarrow> '''')"

definition entry_matches :: "int option \<Rightarrow> real option \<Rightarrow> log_entry \<Rightarrow> bool" where
  "entry_matches level since e \<longleftrightarrow>
     (case level of None \<Rightarrow> True | Some l \<Rightarrow> fst (snd e) \<ge> l) \<and>
     (case since of None \<Rightarrow> True | Some t \<Rightarrow> fst e \<ge> t)"

datatype log_op = Emit log_record | Flush

text \<open>A run of operations, up to the first that raises.\<close>

fun run_log :: "(log_record \<Rightarrow> 's \<Rightarrow> unit result \<times> 's) \<Rightarrow> ('s \<Rightarrow> unit result \<times> 's) \<Rightarrow> log_op list \<Rightarrow> 's \<Rightarrow> unit result \<times> 's" where
  "run_log emit flush [] s = (Inr (), s)"
| "run_log emit flush (x # xs) s =
     (case (case x of Emit r \<Rightarrow> emit r s | Flush \<Rightarrow> flush s) of
        (Inl e, s') \<Rightarrow> (Inl e, s')
      | (Inr _, s') \<Rightarrow> run_log emit flush xs s')"

text \<open>What a run leaves, from what was stored and buffered before.\<close>

fun after_log :: "log_op list \<Rightarrow> log_entry list \<times> log_entry list \<Rightarrow> log_entry list \<times> log_entry list" where
  "after_log [] p = p"
| "after_log (Emit r # xs) (st, bf) = after_log xs (st, bf @ [view_entry r])"
| "after_log (Flush # xs) (st, bf) = after_log xs (st @ bf, [])"

locale durable_handler =
  fixes emit :: "log_record \<Rightarrow> 's \<Rightarrow> unit result \<times> 's"
    and flush :: "'s \<Rightarrow> unit result \<times> 's"
    and retrieve :: "int option \<Rightarrow> real option \<Rightarrow> 's \<Rightarrow> log_record list result \<times> 's"
    and inv :: "'s \<Rightarrow> bool"
    and stored :: "'s \<Rightarrow> log_entry list"
    and buffered :: "'s \<Rightarrow> log_entry list"
    and arrange :: "log_entry list \<Rightarrow> log_entry list"
  assumes emit_buffers:
      "inv s \<Longrightarrow> emit r s = (Inr u, s') \<Longrightarrow>
       inv s' \<and> stored s' = stored s \<and> buffered s' = buffered s @ [view_entry r]"
    and flush_stores:
      "inv s \<Longrightarrow> flush s = (Inr u, s') \<Longrightarrow> inv s' \<and> stored s' = stored s @ buffered s \<and> buffered s' = []"
    and retrieve_answers:
      "inv s \<Longrightarrow> retrieve level since s = (Inr rs, s') \<Longrightarrow>
       map view_entry rs = arrange (filter (entry_matches level since) (stored s)) \<and> s' = s"
    and arrange_mset: "mset (arrange es) = mset es"
begin

lemma run_log_result:
  "inv s \<Longrightarrow> run_log emit flush xs s = (Inr u, s') \<Longrightarrow>
   inv s' \<and> (stored s', buffered s') = after_log xs (stored s, buffered s)"
proof (induction xs arbitrary: s)
  case Nil
  then show ?case by simp
next
  case (Cons x xs)
  obtain r1 s1 where step: "(case x of Emit r \<Rightarrow> emit r s | Flush \<Rightarrow> flush s) = (r1, s1)" by fastforce
  with Cons.prems(2) have run: "run_log emit flush xs s1 = (Inr u, s')" and ok: "\<exists>v. r1 = Inr v"
    by (auto split: sum.splits)
  then obtain v where v: "r1 = Inr v" by blast
  show ?case
  proof (cases x)
    case (Emit r)
    with emit_buffers [OF Cons.prems(1), of r v s1] step v Cons.IH [OF _ run] show ?thesis by simp
  next
    case Flush
    with flush_stores [OF Cons.prems(1), of v s1] step v Cons.IH [OF _ run] show ?thesis by simp
  qed
qed

lemma retrieve_mset:
  "inv s \<Longrightarrow> retrieve level since s = (Inr rs, s') \<Longrightarrow>
   mset (map view_entry rs) = mset (filter (entry_matches level since) (stored s))"
  using retrieve_answers [of s level since rs s'] by (simp add: arrange_mset)

end

section \<open>The two handlers\<close>

definition mlog_inv :: "mem_log \<Rightarrow> bool" where
  "mlog_inv s \<longleftrightarrow> True"

interpretation mlog: durable_handler mlog_emit mlog_flush mlog_retrieve mlog_inv
  "\<lambda>s. map view_entry (ml_store s)" "\<lambda>s. map view_entry (ml_buffer s)" "\<lambda>es. es"
proof unfold_locales
  fix level since s rs s'
  assume "mlog_retrieve level since s = (Inr rs, s')"
  moreover have "log_matches r level since = entry_matches level since (view_entry r)" for r
    by (simp add: log_matches_def entry_matches_def view_entry_def log_entry_of_def split: option.split)
  ultimately show "map view_entry rs = filter (entry_matches level since) (map view_entry (ml_store s)) \<and> s' = s"
    by (auto simp: mlog_retrieve_def filter_map comp_def)
qed (auto simp: mlog_inv_def mlog_emit_def mlog_flush_def)

text \<open>
  Between operations that all succeeded: the rows are numbered in ascending order, and all of
  them are committed.
\<close>

definition slog_inv :: "sql_log \<Rightarrow> bool" where
  "slog_inv s \<longleftrightarrow>
     sorted_wrt (<) (map gr_seq (lg_rows s)) \<and> (\<forall>r\<in>set (lg_rows s). gr_seq r \<le> lg_seq s) \<and>
     lg_committed s = lg_rows s \<and> (\<forall>rm\<in>set (lg_buffer s). lr_text (fst rm) = Inr (snd rm))"

lemma insert_logs_frame [simp]:
  "lg_buffer (insert_logs es s) = lg_buffer s" "lg_committed (insert_logs es s) = lg_committed s"
  "lg_closed (insert_logs es s) = lg_closed s" "lg_clock (insert_logs es s) = lg_clock s"
  by (induction es arbitrary: s) simp_all

lemma insert_logs_entries: "map gr_entry (lg_rows (insert_logs es s)) = map gr_entry (lg_rows s) @ es"
  by (induction es arbitrary: s) simp_all

lemma insert_logs_seqs:
  assumes "sorted_wrt (<) (map gr_seq (lg_rows s))" "\<forall>r\<in>set (lg_rows s). gr_seq r \<le> lg_seq s"
  shows "sorted_wrt (<) (map gr_seq (lg_rows (insert_logs es s))) \<and>
         (\<forall>r\<in>set (lg_rows (insert_logs es s)). gr_seq r \<le> lg_seq (insert_logs es s))"
  using assms
proof (induction es arbitrary: s)
  case (Cons e es)
  let ?s = "s\<lparr>lg_rows := lg_rows s @ [\<lparr>gr_seq = Suc (lg_seq s), gr_entry = e\<rparr>], lg_seq := Suc (lg_seq s)\<rparr>"
  have "sorted_wrt (<) (map gr_seq (lg_rows ?s)) \<and> (\<forall>r\<in>set (lg_rows ?s). gr_seq r \<le> lg_seq ?s)"
    using Cons.prems by (fastforce simp: sorted_wrt_append)
  with Cons.IH [of ?s] show ?case by simp
qed simp

lemma view_buffered:
  "\<forall>rm\<in>set buf. lr_text (fst rm) = Inr (snd rm) \<Longrightarrow> map view_entry (map fst buf) = map log_entry_of buf"
  by (simp add: view_entry_def log_entry_of_def)

lemma view_record_of_row [simp]: "view_entry (record_of_row e) = e"
  by (cases e) (simp add: view_entry_def log_entry_of_def)

lemma select_logs_entries:
  assumes "sorted_wrt (<) (map gr_seq rows)"
  shows "map gr_entry (select_logs level since rows) =
         sort_key fst (filter (entry_matches level since) (map gr_entry rows))"
proof -
  have "sorted_wrt (<) (map gr_seq (filter (row_selected level since) rows))"
    using assms by (simp add: sorted_wrt_map sorted_wrt_filter)
  moreover have "row_selected level since = entry_matches level since \<circ> gr_entry"
    by (simp add: fun_eq_iff row_selected_def entry_matches_def)
  ultimately show ?thesis
    unfolding select_logs_def
    by (subst sort_key_lex) (simp_all add: map_sort_key filter_map)
qed

lemma slog_flush_stores:
  assumes "slog_inv s" "slog_flush s = (Inr u, s')"
  shows "slog_inv s' \<and> map gr_entry (lg_rows s') = map gr_entry (lg_rows s) @ map log_entry_of (lg_buffer s) \<and>
         lg_buffer s' = []"
proof (cases "lg_buffer s = []")
  case True
  with assms show ?thesis by (auto simp: slog_flush_def slog_inv_def)
next
  case False
  let ?s1 = "s\<lparr>lg_buffer := [], lg_clock := Suc (lg_clock s)\<rparr>"
  let ?s2 = "insert_logs (map log_entry_of (lg_buffer s)) ?s1"
  have "s' = ?s2\<lparr>lg_committed := lg_rows ?s2\<rparr>"
    using assms(2) False by (auto simp: slog_flush_def Let_def split: if_splits option.splits)
  then show ?thesis
    using insert_logs_seqs [of ?s1 "map log_entry_of (lg_buffer s)"] assms(1)
    by (simp add: slog_inv_def insert_logs_entries)
qed

interpretation slog: durable_handler slog_emit slog_flush slog_retrieve slog_inv
  "\<lambda>s. map gr_entry (lg_rows s)" "\<lambda>s. map log_entry_of (lg_buffer s)" "sort_key fst"
proof unfold_locales
  fix s s' r u
  assume "slog_inv s" "slog_emit r s = (Inr u, s')"
  then show "slog_inv s' \<and> map gr_entry (lg_rows s') = map gr_entry (lg_rows s) \<and>
      map log_entry_of (lg_buffer s') = map log_entry_of (lg_buffer s) @ [view_entry r]"
    by (auto simp: slog_emit_def slog_inv_def view_entry_def split: sum.splits)
next
  fix s s' u
  assume "slog_inv s" "slog_flush s = (Inr u, s')"
  from slog_flush_stores [OF this]
  show "slog_inv s' \<and> map gr_entry (lg_rows s') = map gr_entry (lg_rows s) @ map log_entry_of (lg_buffer s) \<and>
      map log_entry_of (lg_buffer s') = []" by simp
next
  fix level since s rs s'
  assume "slog_inv s" and r: "slog_retrieve level since s = (Inr rs, s')"
  then have "sorted_wrt (<) (map gr_seq (lg_rows s))" by (simp add: slog_inv_def)
  from select_logs_entries [OF this, of level since] r
  show "map view_entry rs = sort_key fst (filter (entry_matches level since) (map gr_entry (lg_rows s))) \<and> s' = s"
    by (auto simp: slog_retrieve_def comp_def split: if_splits)
qed simp

section \<open>Properties\<close>

definition slog_start :: "(nat \<Rightarrow> (nat \<times> py_exn) option) \<Rightarrow> (nat \<Rightarrow> py_exn option) \<Rightarrow> sql_log" where
  "slog_start insert_faults commit_faults =
     \<lparr>lg_buffer = [], lg_rows = [], lg_committed = [], lg_seq = 0, lg_insert_faults = insert_faults,
      lg_commit_faults = commit_faults, lg_clock = 0, lg_closed = False\<rparr>"

lemma slog_inv_start: "slog_inv (slog_start f g)"
  by (simp add: slog_inv_def slog_start_def)

text \<open>
  C33. The two log handlers agree: after any sequence of emits and flushes in which none raises,
  a query by level and time gives from the SQLite handler exactly the entries the in-memory
  handler gives, the same number of times, ordered by time; only flushed records are visible,
  and everything SQLite shows is committed.
\<close>

theorem log_handlers_agree:
  assumes "run_log slog_emit slog_flush xs (slog_start f g) = (Inr u, s)"
    and "run_log mlog_emit mlog_flush xs mlog_init = (Inr v, m)"
    and "slog_retrieve level since s = (Inr rs, s')" "mlog_retrieve level since m = (Inr ms, m')"
  shows "map view_entry rs = sort_key fst (map view_entry ms) \<and>
         mset (map view_entry ms) = mset (filter (entry_matches level since) (fst (after_log xs ([], [])))) \<and>
         lg_committed s = lg_rows s"
proof -
  note s = slog.run_log_result [OF slog_inv_start assms(1)]
  have "mlog_inv mlog_init" by (simp add: mlog_inv_def)
  note m = mlog.run_log_result [OF this assms(2)]
  have same: "map gr_entry (lg_rows s) = map view_entry (ml_store m)"
    using s m by (cases "after_log xs ([], [])") (simp add: slog_start_def mlog_init_def)
  have "map view_entry rs = sort_key fst (filter (entry_matches level since) (map gr_entry (lg_rows s)))"
    using slog.retrieve_answers s assms(3) by blast
  moreover have ms: "map view_entry ms = filter (entry_matches level since) (map view_entry (ml_store m))"
    using mlog.retrieve_answers m assms(4) by blast
  moreover have "map view_entry (ml_store m) = fst (after_log xs ([], []))"
    using m by (cases "after_log xs ([], [])") (simp add: mlog_init_def)
  moreover have "lg_committed s = lg_rows s" using s by (simp add: slog_inv_def)
  ultimately show ?thesis by (simp only: same)
qed

definition late_record :: log_record where
  "late_record = \<lparr>lr_created = 2, lr_levelno = 40, lr_name = ''b'', lr_pathname = ''x.py'', lr_lineno = 1, lr_text = Inr ''late''\<rparr>"

definition early_record :: log_record where
  "early_record = \<lparr>lr_created = 1, lr_levelno = 40, lr_name = ''a'', lr_pathname = ''x.py'', lr_lineno = 2, lr_text = Inr ''early''\<rparr>"

theorem log_handlers_agree_witness:
  "\<exists>s rs m ms. slog_retrieve (Some 30) None s = (Inr rs, s) \<and> mlog_retrieve (Some 30) None m = (Inr ms, m) \<and>
     map view_entry ms = [(2, 40, ''b'', ''late''), (1, 40, ''a'', ''early'')] \<and>
     map view_entry rs = sort_key fst (map view_entry ms)"
proof -
  let ?xs = "[Emit late_record, Emit early_record, Flush]"
  obtain s rs where s: "run_log slog_emit slog_flush ?xs (slog_start (\<lambda>_. None) (\<lambda>_. None)) = (Inr (), s)"
    "slog_retrieve (Some 30) None s = (Inr rs, s)"
    by (simp add: slog_emit_def slog_flush_def slog_start_def slog_retrieve_def late_record_def early_record_def
        log_entry_of_def)
  obtain m ms where m: "run_log mlog_emit mlog_flush ?xs mlog_init = (Inr (), m)"
    "mlog_retrieve (Some 30) None m = (Inr ms, m)"
    "map view_entry ms = [(2, 40, ''b'', ''late''), (1, 40, ''a'', ''early'')]"
    by (simp add: mlog_emit_def mlog_flush_def mlog_init_def mlog_retrieve_def late_record_def early_record_def
        log_matches_def view_entry_def log_entry_of_def)
  have "map view_entry rs = sort_key fst (map view_entry ms)"
    using log_handlers_agree [OF s(1) m(1) s(2) m(2)] by blast
  with s(2) m(2,3) show ?thesis by (intro exI conjI)
qed

text \<open>
  A flush that fails loses records: when the k-th INSERT of a flush raises, the buffer has
  already been emptied, so the entries from the k-th on are neither buffered nor stored and no
  later flush can write them; the ones before it are in a transaction that is not committed.
\<close>

theorem failed_flush_loses_records:
  assumes "lg_buffer s \<noteq> []" "\<not> lg_closed s" "lg_insert_faults s (lg_clock s) = Some (k, e)"
  shows "\<exists>s'. slog_flush s = (Inl e, s') \<and> lg_buffer s' = [] \<and> lg_committed s' = lg_committed s \<and>
           map gr_entry (lg_rows s') = map gr_entry (lg_rows s) @ take k (map log_entry_of (lg_buffer s))"
  using assms by (simp add: slog_flush_def Let_def insert_logs_entries)

definition locked_log :: sql_log where
  "locked_log = snd (slog_emit late_record (slog_start (\<lambda>_. Some (0, BackendError ''database is locked'')) (\<lambda>_. None)))"

theorem failed_flush_loses_records_witness:
  "\<exists>s'. slog_flush locked_log = (Inl (BackendError ''database is locked''), s') \<and> lg_buffer s' = [] \<and> lg_rows s' = []"
proof -
  have "lg_buffer locked_log \<noteq> []" "\<not> lg_closed locked_log" "lg_rows locked_log = []"
    "lg_insert_faults locked_log (lg_clock locked_log) = Some (0, BackendError ''database is locked'')"
    by (simp_all add: locked_log_def slog_emit_def slog_start_def late_record_def)
  with failed_flush_loses_records [of locked_log 0] show ?thesis by fastforce
qed

end
