(* ===== verification/ReadPool.thy ===== *)
theory ReadPool
  imports SQLite "HOL-Library.Multiset"
begin

text \<open>
  \<open>AsyncSQLite.connect\<close> and the pool of read connections (\<open>pubsub/server/_asqlite.py\<close>): the
  settings, the order in which connections are opened, and \<open>_read\<close>, cut where it waits for a
  connection and where it waits for the worker.  Connections are numbered; the writer is 0.
  Which \<open>sqlite3.connect\<close> or PRAGMA raises is a parameter.
\<close>

section \<open>Opening\<close>

definition DEFAULT_READERS :: int where "DEFAULT_READERS = 4"
definition DEFAULT_SYNCHRONOUS :: string where "DEFAULT_SYNCHRONOUS = ''NORMAL''"
definition SYNCHRONOUS_MODES :: "string list" where "SYNCHRONOUS_MODES = [''FULL'', ''NORMAL'']"

definition check_settings :: "int \<Rightarrow> string \<Rightarrow> string result" where
  "check_settings readers synchronous =
     (if readers < 0 then Inl (ValueError ''readers must be >= 0'')
      else let sync_mode = map upper synchronous in
        if sync_mode \<notin> set SYNCHRONOUS_MODES
        then Inl (ValueError (''synchronous must be one of ('' @ py_repr ''FULL'' @ '', '' @ py_repr ''NORMAL'' @
                              ''), got '' @ py_repr synchronous))
        else Inr sync_mode)"

text \<open>The database to open, from the hexadecimal form of a fresh UUID, and whether it is a URI.\<close>

definition db_target :: "string \<Rightarrow> string \<Rightarrow> string \<times> bool" where
  "db_target path hex =
     (if path = '':memory:''
      then (''file:'' @ ''asqlite_mem_'' @ hex @ ''?mode=memory&cache=shared'', True) else (path, False))"

text \<open>The writer, then the readers one by one; the connections that are open afterwards.\<close>

fun open_conns :: "(nat \<Rightarrow> py_exn option) \<Rightarrow> nat \<Rightarrow> nat list \<Rightarrow> unit result \<times> nat list" where
  "open_conns faults 0 opened = (Inr (), opened)"
| "open_conns faults (Suc n) opened =
     (case faults (length opened) of
        Some e \<Rightarrow> (Inl e, opened)
      | None \<Rightarrow> open_conns faults n (opened @ [length opened]))"

record rpool =
  rp_readers :: "nat list"
  rp_free :: "nat list"
  rp_using :: "(nat \<times> nat) list"
  rp_getting :: "nat list"

definition connect :: "(nat \<Rightarrow> py_exn option) \<Rightarrow> int \<Rightarrow> string \<Rightarrow> rpool result \<times> nat list" where
  "connect faults readers synchronous =
     (case check_settings readers synchronous of
        Inl e \<Rightarrow> (Inl e, [])
      | Inr _ \<Rightarrow>
          (case open_conns faults (Suc (nat readers)) [] of
             (Inl e, opened) \<Rightarrow> (Inl e, opened)
           | (Inr _, opened) \<Rightarrow>
               (Inr \<lparr>rp_readers = tl opened, rp_free = tl opened, rp_using = [], rp_getting = []\<rparr>, opened)))"

section \<open>Reading\<close>

text \<open>
  \<open>_read\<close> under the read lock: with no read connections it uses the writer's, else it waits for
  one of the pool, and gives it back however its statement ends.
\<close>

definition read_begin :: "nat \<Rightarrow> rpool \<Rightarrow> rpool" where
  "read_begin t s =
     (if rp_readers s = [] then s\<lparr>rp_using := rp_using s @ [(t, 0)]\<rparr>
      else s\<lparr>rp_getting := rp_getting s @ [t]\<rparr>)"

definition read_get :: "rpool \<Rightarrow> rpool" where
  "read_get s =
     (case (rp_getting s, rp_free s) of
        (t # ts, c # cs) \<Rightarrow> s\<lparr>rp_getting := ts, rp_free := cs, rp_using := rp_using s @ [(t, c)]\<rparr>
      | _ \<Rightarrow> s)"

definition read_end :: "nat \<Rightarrow> rpool \<Rightarrow> rpool" where
  "read_end i s =
     (if i < length (rp_using s)
      then (let s1 = s\<lparr>rp_using := take i (rp_using s) @ drop (Suc i) (rp_using s)\<rparr> in
            if rp_readers s = [] then s1 else s1\<lparr>rp_free := rp_free s @ [snd (rp_using s ! i)]\<rparr>)
      else s)"

definition read_cancel :: "nat \<Rightarrow> rpool \<Rightarrow> rpool" where
  "read_cancel i s = s\<lparr>rp_getting := take i (rp_getting s) @ drop (Suc i) (rp_getting s)\<rparr>"

datatype pool_action = ReadBegin nat | ReadGet | ReadEnd nat | ReadCancel nat

fun pool_act :: "pool_action \<Rightarrow> rpool \<Rightarrow> rpool" where
  "pool_act (ReadBegin t) s = read_begin t s"
| "pool_act ReadGet s = read_get s"
| "pool_act (ReadEnd i) s = read_end i s"
| "pool_act (ReadCancel i) s = read_cancel i s"

definition pool_run :: "pool_action list \<Rightarrow> rpool \<Rightarrow> rpool" where
  "pool_run xs s = fold pool_act xs s"

section \<open>Invariant\<close>

definition pool_inv :: "rpool \<Rightarrow> bool" where
  "pool_inv s \<longleftrightarrow>
     (if rp_readers s = [] then rp_free s = [] \<and> rp_getting s = [] \<and> (\<forall>u\<in>set (rp_using s). snd u = 0)
      else mset (rp_free s) + mset (map snd (rp_using s)) = mset (rp_readers s))"

lemma mset_map_take_drop:
  assumes "i < length xs"
  shows "add_mset (f (xs ! i)) (mset (map f (take i xs)) + mset (map f (drop (Suc i) xs))) = mset (map f xs)"
proof -
  have "mset (map f (take i xs @ xs ! i # drop (Suc i) xs)) = mset (map f xs)"
    using id_take_nth_drop [OF assms] by metis
  then show ?thesis by simp
qed

lemma ball_take_drop: "\<forall>x\<in>set xs. P x \<Longrightarrow> \<forall>x\<in>set (take i xs @ drop j xs). P x"
  by (auto dest: in_set_takeD in_set_dropD)

lemma pool_act_readers [simp]: "rp_readers (pool_act x s) = rp_readers s"
  by (cases x) (simp_all add: read_begin_def read_get_def read_end_def read_cancel_def Let_def split: list.split)

lemma pool_inv_act: "pool_inv s \<Longrightarrow> pool_inv (pool_act x s)"
proof (cases x)
  case (ReadEnd i)
  assume inv: "pool_inv s"
  show ?thesis
  proof (cases "i < length (rp_using s) \<and> rp_readers s \<noteq> []")
    case True
    then have "mset (rp_free s) + add_mset (snd (rp_using s ! i))
        (mset (map snd (take i (rp_using s))) + mset (map snd (drop (Suc i) (rp_using s)))) = mset (rp_readers s)"
      using inv mset_map_take_drop [of i "rp_using s" snd] by (simp add: pool_inv_def)
    with True ReadEnd show ?thesis by (simp add: pool_inv_def read_end_def Let_def)
  next
    case False
    show ?thesis
    proof (cases "i < length (rp_using s)")
      case True
      then have "\<forall>u\<in>set (take i (rp_using s) @ drop (Suc i) (rp_using s)). snd u = 0"
        using False inv by (intro ball_take_drop) (simp add: pool_inv_def)
      with True False inv ReadEnd show ?thesis by (simp add: pool_inv_def read_end_def)
    qed (use inv ReadEnd in \<open>simp add: read_end_def\<close>)
  qed
qed (auto simp: pool_inv_def read_begin_def read_get_def read_cancel_def split: list.split)

lemma pool_inv_run: "pool_inv s \<Longrightarrow> pool_inv (pool_run xs s)"
  unfolding pool_run_def by (induction xs arbitrary: s) (simp_all add: pool_inv_act)

lemma pool_run_readers: "rp_readers (pool_run xs s) = rp_readers s"
  unfolding pool_run_def by (induction xs arbitrary: s) simp_all

lemma open_conns_all:
  "open_conns faults n opened = (Inr u, cs) \<Longrightarrow> opened = [0..<length opened] \<Longrightarrow> cs = [0..<length opened + n]"
  by (induction faults n opened rule: open_conns.induct) (auto split: option.splits)

text \<open>Once the waiting reads have had their turns, they hold the free connections in order.\<close>

lemma pool_run_gets:
  "length (rp_getting s) \<le> k \<Longrightarrow>
   pool_run (replicate k ReadGet) s =
     s\<lparr>rp_getting := drop (length (rp_free s)) (rp_getting s), rp_free := drop (length (rp_getting s)) (rp_free s),
       rp_using := rp_using s @ zip (rp_getting s) (rp_free s)\<rparr>"
proof (induction k arbitrary: s)
  case (Suc k)
  show ?case
  proof (cases "rp_getting s = [] \<or> rp_free s = []")
    case True
    then have "pool_run (replicate j ReadGet) s = s" for j
      unfolding pool_run_def by (induction j) (auto simp: read_get_def split: list.split)
    from this [of "Suc k"] True show ?thesis by (auto simp del: replicate.simps)
  next
    case False
    then obtain t ts c cs where g: "rp_getting s = t # ts" "rp_free s = c # cs" by (auto simp: neq_Nil_conv)
    with Suc.IH [of "read_get s"] Suc.prems show ?thesis by (simp add: pool_run_def read_get_def)
  qed
qed (simp add: pool_run_def)

section \<open>Properties\<close>

text \<open>
  C26. Every read has a connection of its own: after any interleaving of reads on a freshly
  opened pool - reads that succeed, raise or are cancelled - each of the n read connections is
  either free or used by exactly one read, never the writer's and never one twice, and none is
  lost.  A read waits for a connection only while none is free: once the reads that wait have had
  their turns, the first of them hold the connections that were free, in order, and either no
  connection is left free or no read is left waiting.
\<close>

theorem read_connections_exclusive:
  assumes "connect faults (int n) synchronous = (Inr s, opened)" "0 < n" "s' = pool_run xs s"
    and "s'' = pool_run (replicate (length (rp_getting s')) ReadGet) s'"
  shows "distinct (rp_free s' @ map snd (rp_using s')) \<and> set (rp_free s' @ map snd (rp_using s')) = {1..n} \<and>
         opened = [0..<Suc n] \<and>
         rp_using s'' = rp_using s' @ zip (rp_getting s') (rp_free s') \<and>
         (rp_getting s'' = [] \<and> rp_free s'' = drop (length (rp_getting s')) (rp_free s') \<or>
          rp_free s'' = [] \<and> rp_getting s'' = drop (length (rp_free s')) (rp_getting s') \<and> length (rp_using s'') = n)"
proof -
  obtain u where o: "open_conns faults (Suc n) [] = (Inr u, opened)"
    and s: "s = \<lparr>rp_readers = tl opened, rp_free = tl opened, rp_using = [], rp_getting = []\<rparr>"
    using assms(1) by (auto simp: connect_def split: sum.splits prod.splits option.splits)
  have op: "opened = [0..<Suc n]" using open_conns_all [OF o] by simp
  then have readers: "rp_readers s = [1..<Suc n]" by (simp add: s tl_upt)
  have "pool_inv s" by (simp add: pool_inv_def s)
  then have "pool_inv s'" "rp_readers s' = [1..<Suc n]"
    using pool_inv_run pool_run_readers readers by (simp_all add: assms(3))
  then have m: "mset (rp_free s' @ map snd (rp_using s')) = mset [1..<Suc n]" using assms(2) by (simp add: pool_inv_def)
  then have "distinct (rp_free s' @ map snd (rp_using s'))" using mset_eq_imp_distinct_iff by (metis distinct_upt)
  moreover have "set (rp_free s' @ map snd (rp_using s')) = {1..n}"
    using mset_eq_setD [OF m] assms(2) by auto
  moreover have "length (rp_free s') + length (rp_using s') = n" using arg_cong [OF m, of size] by simp
  moreover have "s'' = s'\<lparr>rp_getting := drop (length (rp_free s')) (rp_getting s'),
      rp_free := drop (length (rp_getting s')) (rp_free s'), rp_using := rp_using s' @ zip (rp_getting s') (rp_free s')\<rparr>"
    by (simp add: assms(4) pool_run_gets)
  ultimately show ?thesis using op
    by (cases "length (rp_getting s') \<le> length (rp_free s')") auto
qed

theorem read_connections_exclusive_witness:
  "distinct (rp_free (pool_run [ReadBegin 7, ReadBegin 8, ReadBegin 9, ReadGet, ReadGet, ReadGet, ReadEnd 0, ReadGet]
     \<lparr>rp_readers = [1, 2], rp_free = [1, 2], rp_using = [], rp_getting = []\<rparr>) @
     map snd (rp_using (pool_run [ReadBegin 7, ReadBegin 8, ReadBegin 9, ReadGet, ReadGet, ReadGet, ReadEnd 0, ReadGet]
     \<lparr>rp_readers = [1, 2], rp_free = [1, 2], rp_using = [], rp_getting = []\<rparr>)))"
proof -
  have "connect (\<lambda>k. None) (int 2) ''normal'' =
      (Inr \<lparr>rp_readers = [1, 2], rp_free = [1, 2], rp_using = [], rp_getting = []\<rparr>, [0, 1, 2])"
    by code_simp
  from read_connections_exclusive [OF this _ refl refl] show ?thesis by simp
qed

text \<open>
  A connection that cannot be opened makes \<open>connect\<close> raise with the writer and the readers before
  it left open: nothing closes them, and nobody has a reference to do it.
\<close>

theorem failed_connect_leaks:
  assumes "check_settings readers synchronous = Inr m" "k \<le> nat readers" "faults k = Some e" "\<And>i. i < k \<Longrightarrow> faults i = None"
  shows "connect faults readers synchronous = (Inl e, [0..<k])"
proof -
  have "open_conns faults (Suc n) opened = (Inl e, [0..<k])"
    if "opened = [0..<length opened]" "length opened \<le> k" "k \<le> length opened + n" for n opened
    using that
  proof (induction n arbitrary: opened)
    case 0
    then have k: "length opened = k" by simp
    with 0(1) assms(3) show ?case by simp
  next
    case (Suc n)
    show ?case
    proof (cases "length opened = k")
      case True
      with Suc.prems(1) assms(3) show ?thesis by simp
    next
      case False
      then have lt: "length opened < k" using Suc.prems(2) by simp
      have "opened @ [length opened] = [0..<length (opened @ [length opened])]" using Suc.prems(1) by simp
      from Suc.IH [OF this] lt Suc.prems(3) assms(4) [OF lt] show ?thesis by simp
    qed
  qed
  from this [of "[]" "nat readers"] assms(1,2) show ?thesis by (simp add: connect_def del: open_conns.simps)
qed

theorem failed_connect_leaks_witness:
  "snd (connect (\<lambda>k. if k = 2 then Some (BackendError ''unable to open database file'') else None) 4 ''NORMAL'') = [0, 1]"
proof -
  have "check_settings 4 ''NORMAL'' = Inr ''NORMAL''" by code_simp
  from failed_connect_leaks [OF this, of 2 "\<lambda>k. if k = 2 then Some (BackendError ''unable to open database file'') else None"]
  show ?thesis by (simp add: upt_rec)
qed

section \<open>Closing\<close>

text \<open>
  \<open>AsyncSQLite.close\<close> over the connections that are open: it is marked closed first, then the
  writer and the readers are closed in order; a connection that raises ends it there.
\<close>

record asqlite =
  as_pool :: rpool
  as_open :: "nat list"
  as_closed :: bool

fun close_conns :: "(nat \<Rightarrow> py_exn option) \<Rightarrow> nat list \<Rightarrow> nat list \<Rightarrow> unit result \<times> nat list" where
  "close_conns faults [] opened = (Inr (), opened)"
| "close_conns faults (k # ks) opened =
     (case faults k of Some e \<Rightarrow> (Inl e, opened) | None \<Rightarrow> close_conns faults ks (removeAll k opened))"

definition db_close :: "(nat \<Rightarrow> py_exn option) \<Rightarrow> asqlite \<Rightarrow> unit result \<times> asqlite" where
  "db_close faults s =
     (if as_closed s then (Inr (), s)
      else (let s1 = s\<lparr>as_closed := True\<rparr>;
                (r, opened) = close_conns faults (0 # rp_readers (as_pool s1)) (as_open s1)
            in (r, s1\<lparr>as_open := opened\<rparr>)))"

lemma close_conns_upto:
  "close_conns faults [i..<m] [i..<m] =
     (case find (\<lambda>k. faults k \<noteq> None) [i..<m] of
        None \<Rightarrow> (Inr (), []) | Some k \<Rightarrow> (Inl (the (faults k)), [k..<m]))"
proof (induction "m - i" arbitrary: i)
  case (Suc d)
  then have i: "[i..<m] = i # [Suc i..<m]" by (simp add: upt_conv_Cons)
  have rest: "removeAll i [i..<m] = [Suc i..<m]" by (simp add: i)
  have "close_conns faults [Suc i..<m] [Suc i..<m] =
      (case find (\<lambda>k. faults k \<noteq> None) [Suc i..<m] of
         None \<Rightarrow> (Inr (), []) | Some k \<Rightarrow> (Inl (the (faults k)), [k..<m]))"
    using Suc by simp
  with rest show ?case by (cases "faults i") (simp_all add: i)
qed simp

text \<open>
  A freshly opened database closes all of its connections; a connection whose closing raises
  stays open with all after it, and closing again does nothing.
\<close>

theorem closing_stops_at_failure:
  assumes "connect (\<lambda>k. None) (int n) synchronous = (Inr pool, opened)"
    and "db_close faults \<lparr>as_pool = pool, as_open = opened, as_closed = False\<rparr> = (r, s)"
  shows "(case find (\<lambda>k. faults k \<noteq> None) [0..<Suc n] of
            None \<Rightarrow> r = Inr () \<and> as_open s = []
          | Some k \<Rightarrow> r = Inl (the (faults k)) \<and> as_open s = [k..<Suc n]) \<and>
         db_close faults' s = (Inr (), s)"
proof -
  obtain u where o: "open_conns (\<lambda>k. None) (Suc n) [] = (Inr u, opened)"
    and p: "pool = \<lparr>rp_readers = tl opened, rp_free = tl opened, rp_using = [], rp_getting = []\<rparr>"
    using assms(1) by (auto simp: connect_def split: sum.splits prod.splits option.splits)
  have op: "opened = [0..<Suc n]" using open_conns_all [OF o] by simp
  then have all: "0 # rp_readers pool = [0..<Suc n]" by (simp add: p upt_conv_Cons del: upt_Suc)
  have "db_close faults \<lparr>as_pool = pool, as_open = opened, as_closed = False\<rparr> =
      (let (r, cs) = close_conns faults [0..<Suc n] [0..<Suc n] in (r, \<lparr>as_pool = pool, as_open = cs, as_closed = True\<rparr>))"
    unfolding db_close_def by (simp add: all op Let_def del: upt_Suc close_conns.simps split: prod.split)
  with assms(2) have s: "(r, s) = (case find (\<lambda>k. faults k \<noteq> None) [0..<Suc n] of
      None \<Rightarrow> (Inr (), \<lparr>as_pool = pool, as_open = [], as_closed = True\<rparr>)
    | Some k \<Rightarrow> (Inl (the (faults k)), \<lparr>as_pool = pool, as_open = [k..<Suc n], as_closed = True\<rparr>))"
    unfolding close_conns_upto by (auto simp del: upt_Suc split: option.splits)
  then have "as_closed s" by (simp del: upt_Suc split: option.splits)
  then have "db_close faults' s = (Inr (), s)" by (simp add: db_close_def)
  with s show ?thesis by (simp del: upt_Suc split: option.splits)
qed

end
