(* ===== verification/Runner.thy ===== *)
theory Runner
  imports Server_Props LogHandlers ReadPool SQLite
begin

text \<open>
  The server process (\<open>pubsub/transport/runner.py\<close>): which backend and which log handler the
  options select, and what \<open>serve\<close> does on its way out, over the server, the broker and the log
  handler together.
\<close>

section \<open>Selection\<close>

text \<open>
  \<open>SQLiteDurability.connect\<close>: the connections are opened, then the schema is created where its
  tables do not exist yet.  Which connection cannot be opened and whether the script raises are
  arguments; the last part of the result are the connections that are open afterwards.
\<close>

definition create_schema :: "sql_db option \<Rightarrow> sql_db" where
  "create_schema file = (case file of None \<Rightarrow> empty_db | Some db \<Rightarrow> db)"

definition sqlite_connect ::
    "(nat \<Rightarrow> py_exn option) \<Rightarrow> py_exn option \<Rightarrow> int \<Rightarrow> string \<Rightarrow> sql_db option \<Rightarrow> (rpool \<times> sql_db) result \<times> nat list" where
  "sqlite_connect faults script readers synchronous file =
     (case connect faults readers synchronous of
        (Inl e, opened) \<Rightarrow> (Inl e, opened)
      | (Inr pool, opened) \<Rightarrow>
          (case script of Some e \<Rightarrow> (Inl e, opened) | None \<Rightarrow> (Inr (pool, create_schema file), opened)))"

datatype durability_choice = SqliteDurability rpool sql_db | DropDurability | MemoryDurability

text \<open>\<open>files\<close> are the databases that exist; an in-memory path never names one.\<close>

definition build_durability ::
    "(nat \<Rightarrow> py_exn option) \<Rightarrow> py_exn option \<Rightarrow> (string \<Rightarrow> sql_db option) \<Rightarrow> string \<Rightarrow> string \<Rightarrow> string \<Rightarrow>
     durability_choice result" where
  "build_durability faults script files kind db_path synchronous =
     (if kind = ''sqlite''
      then bind_result (fst (sqlite_connect faults script DEFAULT_READERS synchronous (files db_path)))
             (\<lambda>(pool, db). Inr (SqliteDurability pool db))
      else if kind \<in> {''none'', ''null'', ''off''} then Inr DropDurability
      else Inr MemoryDurability)"

datatype handler_choice = SqliteHandler string | MemoryHandler

definition build_log_handler :: "string \<Rightarrow> string \<Rightarrow> handler_choice" where
  "build_log_handler kind db_path = (if kind = ''sqlite'' then SqliteHandler db_path else MemoryHandler)"

text \<open>A restart finds what the run before left in its file; a script that fails leaks every connection.\<close>

lemma sqlite_reopens:
  assumes "sqlite_connect faults script (int n) synchronous (Some db) = (r, opened)" "\<And>k. faults k = None"
  shows "(case r of Inr (pool, db') \<Rightarrow> db' = db | Inl e \<Rightarrow> script = Some e \<and> opened = [0..<Suc n] \<or> opened = [])"
proof (cases "connect faults (int n) synchronous")
  case (Pair c os)
  show ?thesis
  proof (cases c)
    case (Inl e)
    have none: "fst (open_conns faults m cs) = Inr ()" for m cs
      by (induction m arbitrary: cs) (simp_all add: assms(2))
    then have "os = []" using Pair Inl none [of "Suc n" "[]"]
      by (auto simp: connect_def split: sum.splits prod.splits)
    with assms(1) Pair Inl show ?thesis by (auto simp: sqlite_connect_def)
  next
    case (Inr pool)
    then obtain u where "open_conns faults (Suc n) [] = (Inr u, os)"
      using Pair by (auto simp: connect_def split: sum.splits prod.splits option.splits)
    then have "os = [0..<Suc n]" using open_conns_all [of faults "Suc n" "[]" u os] by simp
    with assms(1) Pair Inr show ?thesis by (auto simp: sqlite_connect_def create_schema_def split: option.splits)
  qed
qed

section \<open>Shutting down\<close>

text \<open>
  The \<open>finally\<close> of \<open>serve\<close>: the server, then the broker, then the last flush of the log; an
  exception ends it there.
\<close>

definition serve_finally ::
    "('h \<Rightarrow> unit result \<times> 'h) \<Rightarrow> ('h \<Rightarrow> unit result \<times> 'h) \<Rightarrow> 'd server \<times> 'h option \<Rightarrow> unit result \<times> 'd server \<times> 'h option" where
  "serve_finally flush close st =
     (case st of (sr, handler) \<Rightarrow>
        let sr1 = close_server sr in
        case close_broker (sr_broker sr1) of
          (Inl e, b) \<Rightarrow> (Inl e, sr1\<lparr>sr_broker := b\<rparr>, handler)
        | (Inr _, b) \<Rightarrow>
            (let sr2 = sr1\<lparr>sr_broker := b\<rparr> in
             case handler of
               None \<Rightarrow> (Inr (), sr2, None)
             | Some h \<Rightarrow>
                 (case flush h of
                    (Inl e, h1) \<Rightarrow> (Inl e, sr2, Some h1)
                  | (Inr _, h1) \<Rightarrow> (let (r, h2) = close h1 in (r, sr2, Some h2)))))"

section \<open>What the tasks of a connection leave\<close>

text \<open>No task of a connection has ended with an exception of its own.\<close>

definition unfailed :: "conn \<Rightarrow> bool" where
  "unfailed c \<longleftrightarrow> list_all alive (cn_subs c) \<and> (case cn_heartbeat c of Some (Failed _) \<Rightarrow> False | _ \<Rightarrow> True)"

text \<open>
  In every run a connection that has not shaken hands has no subscription, and one whose reader has
  stopped is closed, and without subscriptions unless one of its tasks has failed.
\<close>

definition settled :: "conn \<Rightarrow> bool" where
  "settled c \<longleftrightarrow>
     dict_wf (cn_subs c) \<and> (cn_reader c = Handshaking \<longrightarrow> cn_subs c = []) \<and>
     (cn_reader c = Stopped \<longrightarrow> \<not> cn_open c \<and> (cn_subs c = [] \<or> \<not> unfailed c))"

definition live :: "conn \<Rightarrow> bool" where
  "live c \<longleftrightarrow> dict_wf (cn_subs c) \<and> cn_reader c \<noteq> Handshaking \<and> cn_reader c \<noteq> Stopped"

lemma live_settled: "live c \<Longrightarrow> settled c"
  by (simp add: live_def settled_def)

lemma live_session: "live c \<Longrightarrow> same_session c c' \<Longrightarrow> live c'"
  by (simp add: live_def same_session_def)

lemma live_subs: "live c \<Longrightarrow> dict_wf ss \<Longrightarrow> live (c\<lparr>cn_subs := ss\<rparr>)"
  by (simp add: live_def)

lemma drain_subs_stops: "drain_subs ss b = (Inl e, ss', b') \<Longrightarrow> \<not> list_all alive ss'"
proof (induction ss arbitrary: b ss' b')
  case (Cons x ss)
  obtain sid a t where x: "x = (sid, a, t)" by (metis prod.collapse)
  obtain r1 ss1 b1 where d: "drain_subs ss (stream_unsubscribe a b) = (r1, ss1, b1)" by (metis surj_pair)
  show ?case
  proof (cases "\<exists>e. t = Failed e")
    case True
    with Cons.prems x show ?thesis by (auto simp: drain_subs_Cons alive_def)
  next
    case False
    then have "r1 = Inl e" "ss' = (sid, a, Returned) # ss1"
      using Cons.prems x d by (auto simp: drain_subs_Cons split: task.splits)
    with Cons.IH d show ?thesis by simp
  qed
qed simp

lemma settled_teardown:
  assumes "dict_wf (cn_subs c)"
  shows "settled (fst (teardown c b))"
proof (cases "\<exists>e. cn_heartbeat c = Some (Failed e)")
  case True
  with assms show ?thesis by (auto simp: teardown_def settled_def stop_conn_def unfailed_def)
next
  case False
  obtain r ss b1 where d: "drain_subs (cn_subs c) b = (r, ss, b1)" by (metis surj_pair)
  then have td: "fst (teardown c b) = (case r of
      Inl e \<Rightarrow> stop_conn (c\<lparr>cn_heartbeat := Some Returned, cn_subs := ss\<rparr>)
    | Inr _ \<Rightarrow> stop_conn (c\<lparr>cn_heartbeat := Some Returned, cn_subs := [], cn_inflight := []\<rparr>))"
    using False by (auto simp: teardown_def split: option.split task.split sum.split)
  show ?thesis
  proof (cases r)
    case (Inl e)
    with d have "\<not> list_all alive ss" using drain_subs_stops by blast
    moreover have "dict_wf ss" using drain_subs_keys [OF d] assms by simp
    ultimately show ?thesis using Inl by (simp add: td settled_def stop_conn_def unfailed_def)
  qed (simp add: td settled_def stop_conn_def)
qed

lemma live_replied: "reply_published lost rid rb c = (r, c', b') \<Longrightarrow> live c \<Longrightarrow> live c'"
  by (auto simp: reply_published_def live_def split: prod.splits sum.splits publish_outcome.splits
      dest!: conn_send_session [unfolded same_session_def])

lemma live_on_register: "on_register lost f c b = (r, c', b') \<Longrightarrow> live c \<Longrightarrow> live c'"
  by (auto simp: on_register_def Let_def split: prod.splits sum.splits if_splits
      dest: conn_send_session send_error_session live_session)

lemma live_on_publish: "on_publish lost now f c b = (r, c', b') \<Longrightarrow> live c \<Longrightarrow> live c'"
  by (auto simp: on_publish_def Let_def split: sum.splits dest: live_replied)

lemma live_on_subscribe: "on_subscribe lost f c b = (r, c', b') \<Longrightarrow> live c \<Longrightarrow> live c'"
  by (auto simp: on_subscribe_def Let_def live_def dict_simps split: prod.splits sum.splits if_splits
      dest!: sent_session)

lemma live_settle: "settle act f c b = (r, c', b') \<Longrightarrow> live c \<Longrightarrow> live c'"
  by (auto simp: settle_def Let_def live_def split: prod.splits sum.splits option.splits)

lemma live_on_unsubscribe: "on_unsubscribe f c b = (r, c', b') \<Longrightarrow> live c \<Longrightarrow> live c'"
  by (auto simp: on_unsubscribe_def live_def dict_simps split: prod.splits sum.splits option.splits)

lemma live_dispatch: "dispatch lost now f c b = (r, c', b') \<Longrightarrow> live c \<Longrightarrow> live c'"
  by (auto simp: dispatch_def on_ack_def on_nack_def split: if_splits prod.splits
      dest: live_on_register live_on_publish live_on_subscribe live_settle live_on_unsubscribe
        send_error_session live_session)

lemma settled_after_reader:
  assumes "h = (r, c1, b1)" "live c1"
  shows "settled (fst (after_reader h))"
  using assms settled_teardown [of c1 b1] live_settled [of c1] by (auto simp: after_reader_def live_def split: sum.split)

lemma settled_reader_turn:
  assumes "live c"
  shows "settled (fst (reader_turn lost now outcome c b))"
proof (cases outcome)
  case (Inl e)
  have "dict_wf (cn_subs c)" using assms by (simp add: live_def)
  with Inl show ?thesis by (cases e) (simp_all add: reader_turn_def settled_teardown)
next
  case (Inr f)
  obtain r c1 b1 where d: "dispatch lost now f (c\<lparr>cn_last_recv := now\<rparr>) b = (r, c1, b1)" by (metis surj_pair)
  have "live (c\<lparr>cn_last_recv := now\<rparr>)" using assms by (simp add: live_def)
  from settled_after_reader [OF d live_dispatch [OF d this]] Inr show ?thesis by (simp add: reader_turn_def)
qed

text \<open>A pump that goes on after its connection has stopped leaves the failed task in place.\<close>

lemma settled_pump_turn:
  assumes "settled c" "j < length (cn_subs c)" "snd (snd (cn_subs c ! j)) = Running"
  shows "settled (fst (pump_turn lost j c b))"
proof -
  obtain sid a where e: "cn_subs c ! j = (sid, a, Running)" using assms(3) by (metis prod.collapse)
  obtain n b1 where n: "stream_next a b = (n, b1)" by fastforce
  let ?c = "fst (pump_turn lost j c b)"
  have same: "cn_reader ?c = cn_reader c" "cn_heartbeat ?c = cn_heartbeat c"
    and opened: "cn_open ?c = cn_open c"
    and subs: "cn_subs ?c = cn_subs c \<or> cn_subs ?c = dict_pop sid (cn_subs c) \<or> (\<exists>t. cn_subs ?c = (cn_subs c)[j := (sid, a, t)])"
    by (auto simp: pump_turn_def e n conn_send_def split: next_result.split sum.split)
  have wf: "dict_wf (cn_subs c)" using assms(1) by (simp add: settled_def)
  have mem: "(sid, a, Running) \<in> set (cn_subs c)" using e assms(2) by (metis nth_mem)
  have failed: "\<not> list_all alive (cn_subs ?c)" if "\<not> list_all alive (cn_subs c)"
  proof -
    from that obtain x where x: "x \<in> set (cn_subs c)" "\<not> alive x" by (auto simp: list_all_iff)
    then have "x \<noteq> (sid, a, Running)" by (auto simp: alive_def)
    with x(1) mem wf have "fst x \<noteq> sid" by (metis dict_wf_set_get fst_conv option.inject prod.collapse)
    then have "x \<in> set (dict_pop sid (cn_subs c))" using x(1) by (auto simp: AList.delete_eq)
    moreover obtain k where k: "k < length (cn_subs c)" "cn_subs c ! k = x" using x(1) by (auto simp: in_set_conv_nth)
    then have "k \<noteq> j" using e x(2) by (auto simp: alive_def)
    then have "x \<in> set ((cn_subs c)[j := (sid, a, t)])" for t
      using k by (metis length_list_update nth_list_update_neq nth_mem)
    ultimately show ?thesis using subs x by (auto simp: list_all_iff)
  qed
  have "map fst ((cn_subs c)[j := (sid, a, t)]) = map fst (cn_subs c)" for t
    using e assms(2) by (simp add: map_update list_update_same_conv)
  then have "dict_wf (cn_subs ?c)" using subs wf by (auto simp: dict_simps)
  moreover have "cn_subs c \<noteq> []" using assms(2) by auto
  moreover have "\<not> unfailed ?c" if "\<not> unfailed c" using that same(2) failed by (auto simp: unfailed_def)
  ultimately show ?thesis using assms(1) same(1) opened by (auto simp: settled_def)
qed

lemma settled_conn_act:
  assumes "settled c"
  shows "settled (fst (conn_act x timeout c b))"
proof (cases x)
  case (Frame i lost now outcome)
  show ?thesis
  proof (cases "cn_reader c")
    case Handshaking
    with assms have "cn_subs c = []" by (simp add: settled_def)
    with Frame Handshaking show ?thesis
      by (auto simp: settled_def server_handshake_def stop_conn_def split: sum.split prod.split dest!: sent_session(1))
  next
    case Reading
    with assms have "live c" by (simp add: live_def settled_def)
    from settled_reader_turn [OF this] Frame Reading show ?thesis by simp
  qed (use Frame assms in simp_all)
next
  case (GateTurn i lost)
  show ?thesis
  proof (cases "cn_reader c")
    case (AtGate rid m)
    obtain r c1 b1 where g: "gate_turn lost rid m c b = (r, c1, b1)" by (metis surj_pair)
    have "live c" using assms AtGate by (simp add: live_def settled_def)
    then have "live c1" using g by (auto simp: gate_turn_def dest: live_replied)
    from settled_after_reader [OF g this] GateTurn AtGate show ?thesis by simp
  qed (use GateTurn assms in simp_all)
next
  case (PumpTurn i j lost)
  show ?thesis
  proof (cases "j < length (cn_subs c) \<and> snd (snd (cn_subs c ! j)) = Running")
    case True
    with settled_pump_turn [OF assms, of j lost b] PumpTurn show ?thesis by simp
  next
    case False
    with assms PumpTurn show ?thesis by auto
  qed
next
  case (HeartbeatTurn i lost now)
  show ?thesis
  proof (cases "cn_heartbeat c = Some Running \<and> \<not> now - cn_last_recv c > timeout")
    case True
    obtain r c1 where sd: "conn_send lost HEARTBEAT_FRAME c = (r, c1)" by fastforce
    then have "same_session c c1" "cn_heartbeat c1 = cn_heartbeat c" "cn_open c1 = cn_open c"
      by (auto simp: conn_send_session conn_send_def split: sum.splits if_splits)
    with True sd assms HeartbeatTurn show ?thesis
      by (auto simp: heartbeat_turn_def settled_def same_session_def unfailed_def ended_by_def split: sum.splits)
  next
    case False
    have "dict_wf (cn_subs (c\<lparr>cn_heartbeat := Some Returned\<rparr>))" using assms by (simp add: settled_def)
    from settled_teardown [OF this] False assms HeartbeatTurn show ?thesis by (auto simp: heartbeat_turn_def)
  qed
next
  case (AbortConn i)
  with assms settled_teardown [of c b] show ?thesis by (auto simp: abort_def settled_def split: reader.split)
qed (use assms in simp_all)

lemma settled_sr_act:
  assumes "\<forall>c\<in>set (sr_conns sr). settled c"
  shows "\<forall>c\<in>set (sr_conns (sr_act x sr)). settled c"
proof (cases "target x")
  case (Some i)
  show ?thesis
  proof (cases "i < length (sr_conns sr)")
    case True
    with assms have "settled (fst (conn_act x (sr_timeout sr) (sr_conns sr ! i) (sr_broker sr)))"
      by (intro settled_conn_act) auto
    with assms True set_update_subset_insert [of "sr_conns sr" i] show ?thesis
      by (auto simp: sr_act_target [OF Some] put_conn_def)
  qed (use assms in \<open>simp add: sr_act_target [OF Some]\<close>)
next
  case None
  with assms show ?thesis by (cases x) (auto simp: sr_act_def settled_def new_conn_def)
qed

lemma settled_sr_run: "\<forall>c\<in>set (sr_conns sr). settled c \<Longrightarrow> \<forall>c\<in>set (sr_conns (sr_run xs sr)). settled c"
proof (induction xs arbitrary: sr)
  case (Cons x xs)
  from Cons.IH [OF settled_sr_act [OF Cons.prems]] show ?case by (simp add: sr_run_def)
qed (simp add: sr_run_def)

section \<open>Closing the server\<close>

lemma abort_tidy:
  assumes "core_inv b" "subs_known b (cn_subs c)" "settled c" "unfailed c" "abort c b = (c', b')"
  shows "\<not> cn_open c' \<and> cn_subs c' = [] \<and> core_inv b' \<and> evolves b b' \<and>
         (\<forall>sid. registered b' sid \<longleftrightarrow> registered b sid \<and> sid \<notin> dict_keys (cn_subs c))"
proof (cases "cn_reader c \<in> {Handshaking, Stopped}")
  case True
  with assms show ?thesis by (auto simp: abort_def settled_def)
next
  case False
  then have "teardown c b = (c', b')" using assms(5) by (simp add: abort_def split: reader.splits)
  moreover have "list_all alive (cn_subs c)" "\<forall>e. cn_heartbeat c \<noteq> Some (Failed e)"
    using assms(4) by (auto simp: unfailed_def)
  ultimately show ?thesis using teardown_alive [OF assms(1,2)] by (auto simp: stop_conn_def)
qed

text \<open>The first k connections aborted.\<close>

lemma close_first:
  assumes "core_inv (sr_broker sr)" "\<forall>c\<in>set (sr_conns sr). subs_known (sr_broker sr) (cn_subs c) \<and> settled c \<and> unfailed c"
    and "k \<le> length (sr_conns sr)" "sr' = sr_run (map AbortConn [0..<k]) sr"
  shows "length (sr_conns sr') = length (sr_conns sr) \<and> core_inv (sr_broker sr') \<and> evolves (sr_broker sr) (sr_broker sr') \<and>
         (\<forall>i<length (sr_conns sr). if i < k then \<not> cn_open (sr_conns sr' ! i) \<and> cn_subs (sr_conns sr' ! i) = []
            else sr_conns sr' ! i = sr_conns sr ! i) \<and>
         (\<forall>sid. registered (sr_broker sr') sid \<longleftrightarrow>
            registered (sr_broker sr) sid \<and> (\<forall>i<k. sid \<notin> dict_keys (cn_subs (sr_conns sr ! i))))"
  using assms(3,4)
proof (induction k arbitrary: sr')
  case 0
  with assms(1) show ?case by (simp add: sr_run_def)
next
  case (Suc k)
  let ?s = "sr_run (map AbortConn [0..<k]) sr"
  have k: "k < length (sr_conns sr)" using Suc.prems(1) by simp
  have IH: "length (sr_conns ?s) = length (sr_conns sr)" "core_inv (sr_broker ?s)" "evolves (sr_broker sr) (sr_broker ?s)"
    "\<forall>i<length (sr_conns sr). if i < k then \<not> cn_open (sr_conns ?s ! i) \<and> cn_subs (sr_conns ?s ! i) = []
       else sr_conns ?s ! i = sr_conns sr ! i"
    "\<forall>sid. registered (sr_broker ?s) sid \<longleftrightarrow>
       registered (sr_broker sr) sid \<and> (\<forall>i<k. sid \<notin> dict_keys (cn_subs (sr_conns sr ! i)))"
    using Suc.IH [OF _ refl] k by simp_all
  let ?c = "sr_conns sr ! k"
  have c: "sr_conns ?s ! k = ?c" using IH(4) k by auto
  have known: "subs_known (sr_broker ?s) (cn_subs ?c)" "settled ?c" "unfailed ?c"
    using assms(2) nth_mem [OF k] subs_known_mono [OF _ IH(3)] by auto
  obtain c' b' where a: "abort ?c (sr_broker ?s) = (c', b')" by fastforce
  note fin = abort_tidy [OF IH(2) known a]
  have act: "conn_act (AbortConn k) (sr_timeout ?s) (sr_conns ?s ! k) (sr_broker ?s) = (c', b')" using a c by simp
  have sr': "sr' = sr_act (AbortConn k) ?s" using Suc.prems(2) by (simp add: sr_run_def)
  have k': "k < length (sr_conns ?s)" using k IH(1) by simp
  have conns: "sr_conns sr' = (sr_conns ?s)[k := c']" "sr_broker sr' = b'"
    using sr_act_conn [OF _ k' act] sr' by simp_all
  have "\<forall>i<length (sr_conns sr). if i < Suc k then \<not> cn_open (sr_conns sr' ! i) \<and> cn_subs (sr_conns sr' ! i) = []
       else sr_conns sr' ! i = sr_conns sr ! i"
  proof (intro allI impI)
    fix i
    assume i: "i < length (sr_conns sr)"
    consider "i < k" | "i = k" | "i > k" by linarith
    then show "if i < Suc k then \<not> cn_open (sr_conns sr' ! i) \<and> cn_subs (sr_conns sr' ! i) = []
       else sr_conns sr' ! i = sr_conns sr ! i"
      by cases (use IH(1,4) i fin k' in \<open>auto simp: conns nth_list_update\<close>)
  qed
  moreover have "(\<forall>i<Suc k. sid \<notin> dict_keys (cn_subs (sr_conns sr ! i))) \<longleftrightarrow>
      (\<forall>i<k. sid \<notin> dict_keys (cn_subs (sr_conns sr ! i))) \<and> sid \<notin> dict_keys (cn_subs ?c)" for sid
    by (auto simp: less_Suc_eq)
  ultimately show ?case
    using IH(1,5) fin evolves_trans [OF IH(3)] by (simp add: conns)
qed

text \<open>The last flush and the close of the log handler, whatever became of the flushes before.\<close>

lemma log_closed_at_last:
  assumes "slog_flush lg = (Inr u, h1)" "slog_close h1 = (Inr v, lg')"
  shows "lg_closed lg' \<and> lg_buffer lg' = [] \<and>
         (if lg_buffer lg = [] then lg_committed lg' = lg_committed lg
          else map gr_entry (lg_committed lg') = map gr_entry (lg_rows lg) @ map log_entry_of (lg_buffer lg))"
  using assms
  by (auto simp: slog_flush_def slog_close_def Let_def insert_logs_entries split: if_splits option.splits)

text \<open>
  C39. A shutdown leaves nothing behind: for a server in any state it can run into without drawing an id
  twice, when no task of a connection has ended with an exception and nothing on the way out raises,
  \<open>serve\<close> ends with every connection closed and without subscriptions, each subscription a connection held
  unregistered at the broker, no backoff task left, and the log handler closed with nothing buffered.
  When records were buffered, they are committed, in order, after all the rows the handler had inserted;
  when none were, the file keeps what it had, so that rows of an earlier flush whose COMMIT failed are
  lost.
\<close>

theorem shutdown_releases_everything:
  assumes "sr_broker sr0 = broker_init be d policy mx draws" "case mx of None \<Rightarrow> True | Some n \<Rightarrow> 0 \<le> n"
    and "sr_conns sr0 = []" "sr = sr_run xs sr0" "no_collision (sr_broker sr)" "\<forall>c\<in>set (sr_conns sr). unfailed c"
    and "serve_finally slog_flush slog_close (sr, Some lg) = (Inr u, sr', Some lg')"
  shows "list_all (\<lambda>c. \<not> cn_open c \<and> cn_subs c = []) (sr_conns sr') \<and> bk_tasks (sr_broker sr') = [] \<and>
         (\<forall>c sid. c \<in> set (sr_conns sr) \<and> sid \<in> dict_keys (cn_subs c) \<longrightarrow> \<not> registered (sr_broker sr') sid) \<and>
         lg_closed lg' \<and> lg_buffer lg' = [] \<and>
         (if lg_buffer lg = [] then lg_committed lg' = lg_committed lg
          else map gr_entry (lg_committed lg') = map gr_entry (lg_rows lg) @ map log_entry_of (lg_buffer lg))"
proof -
  let ?s1 = "close_server sr"
  obtain r b where cb: "close_broker (sr_broker ?s1) = (r, b)" by fastforce
  obtain r1 h1 where fl: "slog_flush lg = (r1, h1)" by fastforce
  obtain r2 h2 where cl: "slog_close h1 = (r2, h2)" by fastforce
  have ok: "is_ok r" "is_ok r1" "is_ok r2" "sr' = ?s1\<lparr>sr_broker := b\<rparr>" "lg' = h2"
    using assms(7) cb fl cl by (auto simp: serve_finally_def Let_def split: sum.splits)
  obtain s where rel: "server_rel s sr"
    using server_rel_run [OF server_rel_started [OF assms(1,3,2)]] assms(4,5) by blast
  have "core_inv (sr_broker sr)" using rel sys_inv_core [of s] by (simp add: server_rel_def)
  moreover have "\<forall>c\<in>set (sr_conns sr). subs_known (sr_broker sr) (cn_subs c) \<and> settled c \<and> unfailed c"
    using rel assms(6) settled_sr_run [of sr0 xs] assms(3,4) by (auto simp: server_rel_def conn_ok_def)
  ultimately have closed: "length (sr_conns ?s1) = length (sr_conns sr)"
    "\<forall>i<length (sr_conns sr). \<not> cn_open (sr_conns ?s1 ! i) \<and> cn_subs (sr_conns ?s1 ! i) = []"
    "\<forall>sid. registered (sr_broker ?s1) sid \<longleftrightarrow>
       registered (sr_broker sr) sid \<and> (\<forall>i<length (sr_conns sr). sid \<notin> dict_keys (cn_subs (sr_conns sr ! i)))"
    using close_first [of sr "length (sr_conns sr)", OF _ _ _ refl] by (simp_all add: close_server_def)
  have broker: "bk_tasks b = []" "bk_router b = bk_router (sr_broker ?s1)"
    using cb by (auto simp: close_broker_def Let_def split: prod.splits)
  have "\<not> registered (sr_broker sr') sid" if "c \<in> set (sr_conns sr)" "sid \<in> dict_keys (cn_subs c)" for c sid
    using that closed(3) broker(2) by (auto simp: ok(4) registered_def in_set_conv_nth)
  moreover obtain v w where "r1 = Inr v" "r2 = Inr w" using ok(2,3) by (cases r1; cases r2) auto
  with fl cl ok(5) have "slog_flush lg = (Inr v, h1)" "slog_close h1 = (Inr w, lg')" by simp_all
  note log = log_closed_at_last [OF this]
  moreover have "list_all (\<lambda>c. \<not> cn_open c \<and> cn_subs c = []) (sr_conns sr')" "bk_tasks (sr_broker sr') = []"
    using closed(1,2) broker(1) ok(4) by (auto simp: list_all_length)
  ultimately show ?thesis by blast
qed

definition demo_log :: sql_log where
  "demo_log = \<lparr>lg_buffer = [(\<lparr>lr_created = 1, lr_levelno = 20, lr_name = ''pubsub'', lr_pathname = ''runner.py'', lr_lineno = 84, lr_text = Inr ''up''\<rparr>, ''up'')],
     lg_rows = [], lg_committed = [], lg_seq = 0, lg_insert_faults = (\<lambda>_. None), lg_commit_faults = (\<lambda>_. None),
     lg_clock = 0, lg_closed = False\<rparr>"

theorem shutdown_releases_everything_witness:
  "\<exists>u sr' lg'. serve_finally slog_flush slog_close (demo_server, Some demo_log) = (Inr u, sr', Some lg') \<and>
     length (sr_conns demo_server) = 1 \<and> list_all (\<lambda>c. \<not> cn_open c) (sr_conns sr') \<and>
     map gr_entry (lg_committed lg') = [(1, 20, ''pubsub'', ''up'')]"
proof -
  have "draws_distinct (sr_broker demo_server)" by code_simp
  then have free: "no_collision (sr_broker demo_server)" by (simp add: draws_distinct)
  have unfailed: "list_all unfailed (sr_conns demo_server)" by code_simp
  obtain r sr' h where run: "serve_finally slog_flush slog_close (demo_server, Some demo_log) = (r, sr', h)"
    by (metis surj_pair)
  have "case serve_finally slog_flush slog_close (demo_server, Some demo_log) of (r, _, h) \<Rightarrow> is_ok r \<and> h \<noteq> None"
    by code_simp
  with run obtain lg' u where "r = Inr u" "h = Some lg'" by (cases r) auto
  with run have run: "serve_finally slog_flush slog_close (demo_server, Some demo_log) = (Inr u, sr', Some lg')" by simp
  have one: "length (sr_conns demo_server) = 1" by code_simp
  have start: "sr_broker fresh_server = broker_init memory_backend mem_init default_retry_policy (Some 1) (\<lambda>n. of_nat n)"
    "sr_conns fresh_server = []" "case Some (1::int) of None \<Rightarrow> True | Some n \<Rightarrow> 0 \<le> n" by (simp_all add: fresh_server_def)
  from shutdown_releases_everything [OF start(1,3,2) demo_server_def free _ run] unfailed run one show ?thesis
    by (auto simp: list_all_iff demo_log_def log_entry_of_def)
qed

text \<open>A backend that fails to close keeps the last records from being written: the flush is not reached.\<close>

theorem failing_close_skips_flush:
  assumes "close_broker (sr_broker (close_server sr)) = (Inl e, b)"
  shows "\<exists>sr'. serve_finally flush hclose (sr, Some h) = (Inl e, sr', Some h)"
  using assms by (simp add: serve_finally_def Let_def)

end
