(* ===== verification/Serve.thy ===== *)
theory Serve
  imports Runner
begin

text \<open>
  The life of the server process (\<open>serve\<close> and \<open>main\<close> of \<open>pubsub/transport/runner.py\<close>): listening,
  the flush task of the log, and how a cancelled \<open>serve\<close> gets to its \<open>finally\<close>.  What
  \<open>asyncio.start_server\<close> does is an argument.  A cancelled \<open>Server.serve_forever\<close> closes the
  listening socket and awaits \<open>wait_closed\<close>, and so does the end of \<open>async with\<close> around it; that
  method of the library returns when no connection is left.  This is the server of asyncio's own event
  loop from Python 3.12.1 on; when \<open>_loop_factory\<close> finds uvloop, the server is one of that package,
  and what its \<open>wait_closed\<close> waits for is not modelled.
\<close>

section \<open>Starting\<close>

definition LOG_FLUSH_INTERVAL :: real where "LOG_FLUSH_INTERVAL = 5"

text \<open>Serving, waiting for the connections to go (inside \<open>serve_forever\<close> and then at the end of \<open>async with\<close>), ended.\<close>

datatype phase = Serving | Closing nat | Ended "unit result"

record ('d, 'h) serving =
  sv_server :: "'d server"
  sv_port :: "int option"
  sv_handler :: "'h option"
  sv_flusher :: "task option"
  sv_phase :: phase

definition server_port :: "int option \<Rightarrow> int result" where
  "server_port port = (case port of None \<Rightarrow> Inl (RuntimeError ''server not started'') | Some p \<Rightarrow> Inr p)"

text \<open>
  \<open>serve\<close> up to \<open>serve_forever\<close>: from the outcome of \<open>_build_durability\<close> and of listening.  The
  second part is the backend that is open and that nobody will close.
\<close>

definition serve_begin ::
    "('d backend \<times> 'd) result \<Rightarrow> int result \<Rightarrow> 'h option \<Rightarrow> (nat \<Rightarrow> 128 word) \<Rightarrow>
     ('d, 'h) serving result \<times> ('d backend \<times> 'd) option" where
  "serve_begin built listening handler draws =
     (case built of
        Inl e \<Rightarrow> (Inl e, None)
      | Inr (be, d) \<Rightarrow>
          (case listening of
             Inl e \<Rightarrow> (Inl e, Some (be, d))
           | Inr port \<Rightarrow>
               (Inr \<lparr>sv_server = \<lparr>sr_broker = broker_init be d default_retry_policy (Some DEFAULT_MAX_INFLIGHT_PER_SUBSCRIBER) draws,
                                 sr_timeout = DEFAULT_HEARTBEAT_TIMEOUT, sr_conns = []\<rparr>,
                     sv_port = Some port, sv_handler = handler, sv_flusher = map_option (\<lambda>_. Running) handler,
                     sv_phase = Serving\<rparr>, None)))"

section \<open>Running and leaving\<close>

definition connected :: "('d, 'h) serving \<Rightarrow> bool" where
  "connected st \<longleftrightarrow> list_ex cn_open (sr_conns (sv_server st))"

text \<open>The \<open>finally\<close> of \<open>serve\<close>; the cancellation goes on after it unless something there raises.\<close>

definition serve_end ::
    "('h \<Rightarrow> unit result \<times> 'h) \<Rightarrow> ('h \<Rightarrow> unit result \<times> 'h) \<Rightarrow> ('d, 'h) serving \<Rightarrow> ('d, 'h) serving" where
  "serve_end flush close st =
     (case serve_finally flush close (sv_server st, sv_handler st) of
        (r, sr, h) \<Rightarrow>
          st\<lparr>sv_server := sr, sv_handler := h,
             sv_flusher := (if sv_flusher st = Some Running then Some Returned else sv_flusher st),
             sv_phase := Ended (case r of Inl e \<Rightarrow> Inl e | Inr _ \<Rightarrow> Inl CancelledError)\<rparr>)"

definition leave_or_wait ::
    "('h \<Rightarrow> unit result \<times> 'h) \<Rightarrow> ('h \<Rightarrow> unit result \<times> 'h) \<Rightarrow> nat \<Rightarrow> ('d, 'h) serving \<Rightarrow> ('d, 'h) serving" where
  "leave_or_wait flush close n st =
     (if connected st then st\<lparr>sv_phase := Closing n\<rparr> else serve_end flush close st)"

text \<open>One round of \<open>_flush_loop\<close>, after its sleep: an exception of the handler ends the task.\<close>

definition flush_tick :: "('h \<Rightarrow> unit result \<times> 'h) \<Rightarrow> ('d, 'h) serving \<Rightarrow> ('d, 'h) serving" where
  "flush_tick flush st =
     (case (sv_flusher st, sv_handler st) of
        (Some Running, Some h) \<Rightarrow>
          (case flush h of
             (Inl e, h1) \<Rightarrow> st\<lparr>sv_handler := Some h1, sv_flusher := Some (Failed e)\<rparr>
           | (Inr _, h1) \<Rightarrow> st\<lparr>sv_handler := Some h1\<rparr>)
      | _ \<Rightarrow> st)"

fun accepts :: "sr_action \<Rightarrow> bool" where
  "accepts (Accept packb now) = True"
| "accepts _ = False"

datatype serve_action = ServerTurn sr_action | FlushTick | CancelServe | ConnectionsGone

fun serve_act ::
    "('h \<Rightarrow> unit result \<times> 'h) \<Rightarrow> ('h \<Rightarrow> unit result \<times> 'h) \<Rightarrow> serve_action \<Rightarrow> ('d, 'h) serving \<Rightarrow> ('d, 'h) serving" where
  "serve_act flush close (ServerTurn x) st =
     (case sv_phase st of
        Serving \<Rightarrow> st\<lparr>sv_server := sr_act x (sv_server st)\<rparr>
      | Closing n \<Rightarrow> if accepts x then st else st\<lparr>sv_server := sr_act x (sv_server st)\<rparr>
      | Ended r \<Rightarrow> st)"
| "serve_act flush close FlushTick st =
     (case sv_phase st of Ended r \<Rightarrow> st | _ \<Rightarrow> flush_tick flush st)"
| "serve_act flush close CancelServe st =
     (case sv_phase st of
        Serving \<Rightarrow> leave_or_wait flush close 0 st
      | Closing 0 \<Rightarrow> leave_or_wait flush close 1 st
      | Closing (Suc n) \<Rightarrow> serve_end flush close st
      | Ended r \<Rightarrow> st)"
| "serve_act flush close ConnectionsGone st =
     (case sv_phase st of Closing n \<Rightarrow> if connected st then st else serve_end flush close st | _ \<Rightarrow> st)"

definition serve_run ::
    "('h \<Rightarrow> unit result \<times> 'h) \<Rightarrow> ('h \<Rightarrow> unit result \<times> 'h) \<Rightarrow> serve_action list \<Rightarrow> ('d, 'h) serving \<Rightarrow> ('d, 'h) serving" where
  "serve_run flush close xs st = fold (serve_act flush close) xs st"

section \<open>The command\<close>

definition DEFAULT_HOST :: string where "DEFAULT_HOST = ''127.0.0.1''"
definition DEFAULT_PORT :: int where "DEFAULT_PORT = 8765"

text \<open>The options as the parser of the library returns them, and what it fills in.\<close>

record args =
  ar_host :: string
  ar_port :: int
  ar_durability :: string
  ar_db :: string
  ar_sync :: string
  ar_verbose :: bool

definition default_args :: args where
  "default_args = \<lparr>ar_host = DEFAULT_HOST, ar_port = DEFAULT_PORT, ar_durability = ''memory'', ar_db = ''pubsub.db'', ar_sync = ''NORMAL'', ar_verbose = False\<rparr>"

definition loop_name :: "bool \<Rightarrow> string" where
  "loop_name uvloop_installed = (if uvloop_installed then ''uvloop'' else ''asyncio'')"

text \<open>What \<open>main\<close> sets up before and inside the event loop: the log handler and its level, and the backend.\<close>

definition main_setup ::
    "(nat \<Rightarrow> py_exn option) \<Rightarrow> py_exn option \<Rightarrow> (string \<Rightarrow> sql_db option) \<Rightarrow> args \<Rightarrow>
     handler_choice \<times> int \<times> durability_choice result" where
  "main_setup faults script files a =
     (build_log_handler (ar_durability a) (ar_db a), (if ar_verbose a then 10 else 20),
      build_durability faults script files (ar_durability a) (ar_db a) (ar_sync a))"

text \<open>
  \<open>asyncio.run\<close> turns the cancellation by an interrupt into a \<open>KeyboardInterrupt\<close>, which \<open>main\<close>
  catches; other exceptions leave \<open>main\<close>.
\<close>

fun main_outcome :: "unit result \<Rightarrow> unit result" where
  "main_outcome (Inl CancelledError) = Inr ()"
| "main_outcome r = r"

section \<open>Leaving\<close>

fun cancels :: "serve_action \<Rightarrow> bool" where
  "cancels CancelServe = True"
| "cancels _ = False"

fun ended :: "phase \<Rightarrow> bool" where
  "ended (Ended r) = True"
| "ended _ = False"

text \<open>The cancellations a phase has already seen.\<close>

fun seen :: "phase \<Rightarrow> nat" where
  "seen Serving = 0"
| "seen (Closing n) = Suc n"
| "seen (Ended r) = 0"

lemma ended_stays: "ended (sv_phase st) \<Longrightarrow> serve_run flush close xs st = st"
proof (induction xs)
  case (Cons x xs)
  then have "serve_act flush close x st = st"
    by (cases x; cases "sv_phase st") simp_all
  with Cons show ?case by (simp add: serve_run_def)
qed (simp add: serve_run_def)

lemma flush_tick_phase [simp]: "sv_phase (flush_tick flush st) = sv_phase st"
  by (simp add: flush_tick_def split: option.split task.split prod.split sum.split)

lemma serve_end_phase [simp]: "ended (sv_phase (serve_end flush close st))"
  by (simp add: serve_end_def split: prod.split)

lemma act_ends:
  assumes "\<not> ended (sv_phase st)" "ended (sv_phase (serve_act flush close x st))"
    and "cancels x \<Longrightarrow> seen (sv_phase st) \<le> 1"
  shows "\<not> connected st \<and> serve_act flush close x st = serve_end flush close st"
  using assms
  by (cases x; cases "sv_phase st")
     (auto simp: leave_or_wait_def split: nat.splits if_splits)

lemma act_goes_on:
  assumes "\<not> ended (sv_phase st)" "\<not> ended (sv_phase (serve_act flush close x st))"
  shows "seen (sv_phase (serve_act flush close x st)) \<le> seen (sv_phase st) + (if cancels x then 1 else 0)"
  using assms
  by (cases x; cases "sv_phase st")
     (auto simp: leave_or_wait_def split: nat.splits if_splits)

lemma run_ends:
  assumes "\<not> ended (sv_phase st)" "seen (sv_phase st) + length (filter cancels xs) \<le> 2"
    and "ended (sv_phase (serve_run flush close xs st))"
  shows "\<exists>k<length xs. \<not> connected (serve_run flush close (take k xs) st) \<and>
           serve_run flush close xs st = serve_end flush close (serve_run flush close (take k xs) st)"
  using assms
proof (induction xs arbitrary: st)
  case Nil
  then show ?case by (simp add: serve_run_def)
next
  case (Cons x xs)
  let ?st = "serve_act flush close x st"
  have run: "serve_run flush close (x # ys) st = serve_run flush close ys ?st" for ys by (simp add: serve_run_def)
  show ?case
  proof (cases "ended (sv_phase ?st)")
    case True
    have "cancels x \<Longrightarrow> seen (sv_phase st) \<le> 1" using Cons.prems(2) by simp
    with act_ends [OF Cons.prems(1) True] have "\<not> connected st" "?st = serve_end flush close st" by simp_all
    moreover have "serve_run flush close (x # xs) st = ?st" using ended_stays [OF True] run by simp
    ultimately show ?thesis by (intro exI [of _ 0]) (simp add: serve_run_def)
  next
    case False
    have "seen (sv_phase ?st) + length (filter cancels xs) \<le> 2"
      using act_goes_on [OF Cons.prems(1) False] Cons.prems(2) by (simp split: if_splits)
    from Cons.IH [OF False this] Cons.prems(3) obtain k where "k < length xs"
      "\<not> connected (serve_run flush close (take k xs) ?st)"
      "serve_run flush close xs ?st = serve_end flush close (serve_run flush close (take k xs) ?st)" by (auto simp: run)
    then show ?thesis by (intro exI [of _ "Suc k"]) (simp add: run)
  qed
qed

text \<open>
  C40. The shutdown waits for the clients, on asyncio's own event loop (whose \<open>wait_closed\<close> returns
  when no connection is left; that of uvloop is not modelled): whatever connections, tasks and flushes do, and when
  \<open>serve\<close> is cancelled once or twice, it gets to its \<open>finally\<close> - which would drop the connections,
  close the broker and write the last log records - only in a state in which no connection is
  open any more.  As long as one client stays connected the process goes on.
\<close>

theorem shutdown_waits_for_clients:
  assumes "sv_phase st = Serving" "length (filter cancels xs) \<le> 2"
    and "sv_phase (serve_run flush close xs st) = Ended r"
  shows "\<exists>k<length xs. (\<forall>c\<in>set (sr_conns (sv_server (serve_run flush close (take k xs) st))). \<not> cn_open c) \<and>
           serve_run flush close xs st = serve_end flush close (serve_run flush close (take k xs) st)"
  using run_ends [of st xs flush close] assms by (auto simp: connected_def list_ex_iff)

definition idle_process :: "(mem_store, sql_log) serving" where
  "idle_process = \<lparr>sv_server = fresh_server, sv_port = Some 8765, sv_handler = None, sv_flusher = None, sv_phase = Serving\<rparr>"

definition shutdown_actions :: "serve_action list" where
  "shutdown_actions =
     [ServerTurn (Accept any_pack 0), ServerTurn (Frame 0 False 1 (Inr hello_frame)), CancelServe,
      ServerTurn (HeartbeatTurn 0 False 15), ServerTurn (Frame 0 False 16 (Inr HEARTBEAT_FRAME)), ConnectionsGone,
      ServerTurn (Frame 0 False 17 (Inl IncompleteReadError)), ConnectionsGone]"

theorem shutdown_waits_for_clients_witness:
  "sv_phase (serve_run slog_flush slog_close (take 6 shutdown_actions) idle_process) = Closing 0 \<and>
   (\<exists>k<8. serve_run slog_flush slog_close shutdown_actions idle_process =
     serve_end slog_flush slog_close (serve_run slog_flush slog_close (take k shutdown_actions) idle_process))"
proof -
  have a: "sv_phase idle_process = Serving" "length (filter cancels shutdown_actions) \<le> 2" by code_simp+
  have "ended (sv_phase (serve_run slog_flush slog_close shutdown_actions idle_process))" by code_simp
  then obtain r where "sv_phase (serve_run slog_flush slog_close shutdown_actions idle_process) = Ended r"
    by (auto elim: ended.elims)
  moreover have "length shutdown_actions = 8" by (simp add: shutdown_actions_def)
  ultimately have "\<exists>k<8. serve_run slog_flush slog_close shutdown_actions idle_process =
     serve_end slog_flush slog_close (serve_run slog_flush slog_close (take k shutdown_actions) idle_process)"
    using shutdown_waits_for_clients [OF a] by metis
  moreover have "case sv_phase (serve_run slog_flush slog_close (take 6 shutdown_actions) idle_process) of
      Closing n \<Rightarrow> n = 0 | _ \<Rightarrow> False" by code_simp
  then have "sv_phase (serve_run slog_flush slog_close (take 6 shutdown_actions) idle_process) = Closing 0"
    by (auto split: phase.splits)
  ultimately show ?thesis by blast
qed

text \<open>A flush that fails ends the flush task: later rounds do nothing.\<close>

lemma failed_flush_ends_task:
  assumes "sv_flusher st = Some Running" "sv_handler st = Some h" "flush h = (Inl e, h1)"
  shows "flush_tick flush (flush_tick flush st) = flush_tick flush st \<and> sv_flusher (flush_tick flush st) = Some (Failed e)"
  using assms by (simp add: flush_tick_def)

text \<open>When listening fails the backend stays open.\<close>

lemma failed_listen_leaks_backend:
  "serve_begin (Inr (be, d)) (Inl e) handler draws = (Inl e, Some (be, d))"
  by (simp add: serve_begin_def)

end
