(* ===== verification/EndToEnd.thy ===== *)
theory EndToEnd
  imports Server_Props
begin

text \<open>
  Client, frames and server composed: one call of the client, the frame it writes, the server's
  handler, the frame that comes back and the caller that resumes.
\<close>

section \<open>The publisher\<close>

text \<open>
  \<open>Publisher\<close> (\<open>client/publisher.py\<close>) binds a topic to a backend, which is either the broker itself
  or a client.
\<close>

type_synonym 'a publish_backend = "string \<Rightarrow> mpval \<Rightarrow> (string, mpval) dict option \<Rightarrow> 'a"

record 'a publisher =
  pb_backend :: "'a publish_backend"
  pb_topic :: string

definition publisher_topic :: "'a publisher \<Rightarrow> string" where
  "publisher_topic p = pb_topic p"

definition publisher_publish :: "'a publisher \<Rightarrow> mpval \<Rightarrow> (string, mpval) dict option \<Rightarrow> 'a" where
  "publisher_publish p payload extras = pb_backend p (pb_topic p) payload extras"

definition broker_publisher ::
    "string \<Rightarrow> (timestamp \<Rightarrow> 'd broker \<Rightarrow> publish_outcome result \<times> 'd broker) publisher" where
  "broker_publisher topic = \<lparr>pb_backend = publish, pb_topic = topic\<rparr>"

definition client_publisher :: "string \<Rightarrow> (bool \<Rightarrow> client \<Rightarrow> client) publisher" where
  "client_publisher topic =
     \<lparr>pb_backend = (\<lambda>topic payload extras lost. client_publish lost topic payload extras), pb_topic = topic\<rparr>"

section \<open>A publish over the network\<close>

lemma request_sent:
  assumes "cl_connected cl" "cl_writer cl = Some k" "k < length (cl_conns cl)" "cc_open (cl_conns cl ! k)"
    and "encode_frame (cl_packb cl) (with_rid (cl_next_rid cl) f) = Inr bs"
  defines "rid \<equiv> cl_next_rid cl"
  shows "request_begin False f cl =
     (Inr (rid, length (cl_futures cl)),
      cl\<lparr>cl_next_rid := rid + 1, cl_futures := cl_futures cl @ [None],
         cl_pending := dict_set rid (length (cl_futures cl)) (cl_pending cl),
         cl_conns := (cl_conns cl)[k := (cl_conns cl ! k)\<lparr>cc_sent := cc_sent (cl_conns cl ! k) @ [with_rid rid f]\<rparr>]\<rparr>)"
  using assms by (simp add: request_begin_def raw_send_def with_rid_def Let_def)

text \<open>A reply frame resolves the future of its request, and the caller takes it.\<close>

lemma reply_received:
  assumes "k < length (cl_conns cl)" "cc_reading (cl_conns cl ! k)"
    and "has_op F REGISTER_OK \<or> has_op F PUBLISH_RESULT \<or> has_op F SUBSCRIBE_OK \<or> has_op F ERROR"
    and "get_or_none F ''rid'' = MInt rid" "dict_get (cl_pending cl) rid = Some fut"
    and "fut < length (cl_futures cl)" "cl_futures cl ! fut = None"
  shows "client_act (ReadFrame k (Inr F)) cl = cl\<lparr>cl_futures := (cl_futures cl)[fut := Some (Inr F)]\<rparr>"
  using assms by (auto simp: read_loop_def on_frame_def resolve_reply_def)

lemma publish_call_resumed:
  assumes "i < length (cl_calls cl)" "cl_calls cl ! i = PublishCall (rid, fut)" "cl_futures cl ! fut = Some (Inr F)"
  shows "client_act (ResumeCall i) cl =
     drop_call i (cl\<lparr>cl_pending := dict_pop rid (cl_pending cl), cl_results := cl_results cl @ [PublishDone (publish_reply F)]\<rparr>)"
  using assms by (simp add: resume_call_def request_end_def forget_request_def)

lemma mp_wf_publish:
  "mp_wf payload \<Longrightarrow> mp_wf (MDict (str_keys (case extras of None \<Rightarrow> [] | Some d \<Rightarrow> d))) \<Longrightarrow>
   mp_wf (MDict (with_rid rid (publish_frame topic payload extras))) \<and> op_tagged (with_rid rid (publish_frame topic payload extras))"
  by (simp add: with_rid_def publish_frame_def op_tagged_def)

text \<open>
  C11. Publishing over the network: when a client is connected, its connection at the server is being
  read, MessagePack round-trips on well-formed values, the payload and the extras are such values (string
  keys in every map, no key twice) and the broker accepts or rejects the message at once, then the call,
  the server's turn on what it decodes from the bytes of the client's frame, the client's turn on what it
  decodes from the bytes that come back and the caller's resumption together give the caller the
  broker's own result; the broker is left as the direct call leaves it, and the client keeps no
  trace of the request.
\<close>

theorem publish_end_to_end:
  assumes "cl_connected cl" "cl_writer cl = Some k" "k < length (cl_conns cl)" "cc_open (cl_conns cl ! k)"
    and "cc_reading (cl_conns cl ! k)" "cl_next_rid cl \<notin> dict_keys (cl_pending cl)"
    and "msgpack_roundtrip (cl_packb cl) unpackb" "mp_wf payload"
    and "mp_wf (MDict (str_keys (case extras of None \<Rightarrow> [] | Some d \<Rightarrow> d)))"
    and "encode_frame (cl_packb cl) (with_rid (cl_next_rid cl) (publish_frame topic payload extras)) = Inr bs1"
    and "i < length (sr_conns sr)" "c = sr_conns sr ! i" "cn_reader c = Reading" "cn_open c"
    and "msgpack_roundtrip (cn_packb c) unpackb"
    and "publish topic payload extras now (sr_broker sr) = (Inr (Published res), b1)"
    and "encode_frame (cn_packb c) (publish_result_to_wire (MInt (cl_next_rid cl)) res) = Inr bs2"
    and "cl1 = client_act (Publish False topic payload extras) cl"
    and "sr1 = sr_act (Frame i False now (over_wire (cl_packb cl) unpackb (last (cc_sent (cl_conns cl1 ! k))))) sr"
    and "cl2 = client_run [ReadFrame k (over_wire (cn_packb c) unpackb (last (cn_sent (sr_conns sr1 ! i)))),
                           ResumeCall (length (cl_calls cl))] cl1"
  shows "cl_results cl2 = cl_results cl @ [PublishDone (Inr res)] \<and> sr_broker sr1 = b1 \<and>
         cl_pending cl2 = cl_pending cl \<and> cl_calls cl2 = cl_calls cl"
proof -
  let ?rid = "cl_next_rid cl" and ?fut = "length (cl_futures cl)" and ?b = "sr_broker sr"
  let ?req = "with_rid ?rid (publish_frame topic payload extras)" and ?c = "c\<lparr>cn_last_recv := now\<rparr>"
  have cl1: "cl1 = cl\<lparr>cl_next_rid := ?rid + 1, cl_futures := cl_futures cl @ [None],
      cl_pending := dict_set ?rid ?fut (cl_pending cl),
      cl_conns := (cl_conns cl)[k := (cl_conns cl ! k)\<lparr>cc_sent := cc_sent (cl_conns cl ! k) @ [?req]\<rparr>],
      cl_calls := cl_calls cl @ [PublishCall (?rid, ?fut)]\<rparr>"
    using request_sent [OF assms(1-4,10)] assms(18) by (simp add: client_publish_def begin_call_def)
  then have "last (cc_sent (cl_conns cl1 ! k)) = ?req" using assms(3) by simp
  then have up: "over_wire (cl_packb cl) unpackb (last (cc_sent (cl_conns cl1 ! k))) = Inr ?req"
    using over_wire_same [OF assms(7,10)] mp_wf_publish [OF assms(8,9)] by simp
  obtain r c' b' where d: "dispatch False now ?req ?c ?b = (r, c', b')" by (metis surj_pair)
  have "cn_open ?c" "encode_frame (cn_packb ?c) (publish_result_to_wire (MInt ?rid) res) = Inr bs2"
    using assms(14,17) by simp_all
  from publish_over_wire [OF this(1) assms(16) this(2) d] obtain F
    where F: "r = Inr ()" "b' = b1" "cn_sent c' = cn_sent c @ [F]" "get_or_none F ''rid'' = MInt ?rid"
      "publish_reply F = Inr res" "has_op F PUBLISH_RESULT" "F = publish_result_to_wire (MInt ?rid) res" by auto
  have "conn_act (Frame i False now (Inr ?req)) (sr_timeout sr) c ?b = (c', b')"
    using assms(13) d F(1) by (simp add: reader_turn_def after_reader_def)
  from sr_act_conn [OF _ assms(11), folded assms(12), OF _ this]
  have sr1: "sr_conns sr1 ! i = c'" "sr_broker sr1 = b1" using assms(11,19) up F(2) by simp_all
  have "over_wire (cn_packb c) unpackb F = Inr F"
    using over_wire_same [OF assms(15,17)] mp_wf_result [of ?rid res] F(7) by simp
  then have down: "over_wire (cn_packb c) unpackb (last (cn_sent (sr_conns sr1 ! i))) = Inr F" by (simp add: sr1 F(3))
  have read: "client_act (ReadFrame k (Inr F)) cl1 = cl1\<lparr>cl_futures := cl_futures cl @ [Some (Inr F)]\<rparr>"
    using reply_received [of k cl1 F ?rid ?fut] assms(3,5) F(4,6) by (simp add: cl1 dict_simps)
  have "cl2 = client_act (ResumeCall (length (cl_calls cl))) (cl1\<lparr>cl_futures := cl_futures cl @ [Some (Inr F)]\<rparr>)"
    using assms(20) down read by (simp add: client_run_def)
  also have "\<dots> = drop_call (length (cl_calls cl)) (cl1\<lparr>cl_futures := cl_futures cl @ [Some (Inr F)],
      cl_pending := dict_pop ?rid (cl_pending cl1), cl_results := cl_results cl @ [PublishDone (publish_reply F)]\<rparr>)"
    using publish_call_resumed [of "length (cl_calls cl)" "cl1\<lparr>cl_futures := cl_futures cl @ [Some (Inr F)]\<rparr>" ?rid ?fut F]
    by (simp add: cl1)
  finally show ?thesis
    using F(5) sr1(2) assms(6) by (simp add: cl1 drop_call_def dict_pop_set_absent)
qed

text \<open>A server whose connections encode with a given MessagePack.\<close>

definition with_pack :: "(mpval \<Rightarrow> byte list result) \<Rightarrow> 'd server \<Rightarrow> 'd server" where
  "with_pack packb sr = sr\<lparr>sr_conns := map (\<lambda>c. c\<lparr>cn_packb := packb\<rparr>) (sr_conns sr)\<rparr>"

lemma with_pack_simps [simp]:
  "sr_broker (with_pack packb sr) = sr_broker sr" "length (sr_conns (with_pack packb sr)) = length (sr_conns sr)"
  "i < length (sr_conns sr) \<Longrightarrow> sr_conns (with_pack packb sr) ! i = (sr_conns sr ! i)\<lparr>cn_packb := packb\<rparr>"
  by (simp_all add: with_pack_def)

lemma server_rel_with_pack: "server_rel s sr \<Longrightarrow> server_rel s (with_pack packb sr)"
proof -
  have "waiting (c\<lparr>cn_packb := packb\<rparr>) = waiting c" for c by (rule waiting_same) simp
  then have "all_waiting (sr_conns (with_pack packb sr)) = all_waiting (sr_conns sr)"
    by (simp add: all_waiting_def with_pack_def image_mset.compositionality comp_def)
  then show "server_rel s sr \<Longrightarrow> server_rel s (with_pack packb sr)"
    by (auto simp: server_rel_def conn_ok_def with_pack_def)
qed

definition greeted_server :: "mem_store server" where
  "greeted_server = sr_run (take 2 demo_actions) fresh_server"

text \<open>The request and the reply of one publish.\<close>

definition demo_result :: publish_result where
  "demo_result =
     (case fst (publish ''a'' MNone None 3 (sr_broker greeted_server)) of Inr (Published r) \<Rightarrow> r | _ \<Rightarrow> publish_ok [])"

definition demo_frames :: "frame list" where
  "demo_frames = [with_rid 1 (publish_frame ''a'' MNone None), publish_result_to_wire (MInt 1) demo_result]"

definition demo_publisher :: client where
  "demo_publisher = (client_start True (1 / 2) 30 None any_pack)\<lparr>cl_packb := table_pack demo_frames\<rparr>"

definition demo_call :: client where
  "demo_call = client_act (Publish False ''a'' MNone None) demo_publisher"

definition demo_served :: "mem_store server" where
  "demo_served =
     sr_act (Frame 0 False 3 (over_wire (table_pack demo_frames) (table_unpack demo_frames) (last (cc_sent (cl_conns demo_call ! 0)))))
       (with_pack (table_pack demo_frames) greeted_server)"

theorem publish_end_to_end_witness:
  "pr_accepted demo_result \<and>
   cl_results (client_run [ReadFrame 0 (over_wire (table_pack demo_frames) (table_unpack demo_frames)
     (last (cn_sent (sr_conns demo_served ! 0)))), ResumeCall 0] demo_call) = [PublishDone (Inr demo_result)]"
proof -
  let ?sr = "with_pack (table_pack demo_frames) greeted_server" and ?P = "table_pack demo_frames"
  let ?c = "sr_conns ?sr ! 0" and ?b = "sr_broker ?sr"
  have rt: "msgpack_roundtrip ?P (table_unpack demo_frames)" by (rule table_roundtrip) (simp add: demo_frames_def)
  have cl: "cl_connected demo_publisher" "cl_writer demo_publisher = Some 0" "length (cl_conns demo_publisher) = 1"
    "cc_open (cl_conns demo_publisher ! 0)" "cc_reading (cl_conns demo_publisher ! 0)" "cl_pending demo_publisher = []"
    "cl_next_rid demo_publisher = 1" "cl_packb demo_publisher = ?P" "cl_calls demo_publisher = []"
    "cl_results demo_publisher = []"
    by (simp_all add: demo_publisher_def client_eval)
  have one: "length (sr_conns greeted_server) = 1" "cn_open (sr_conns greeted_server ! 0)" by code_simp+
  have "case cn_reader (sr_conns greeted_server ! 0) of Reading \<Rightarrow> True | _ \<Rightarrow> False" by code_simp
  then have c: "0 < length (sr_conns ?sr)" "cn_reader ?c = Reading" "cn_open ?c" "cn_packb ?c = ?P"
    using one by (auto split: reader.splits)
  have "case fst (publish ''a'' MNone None 3 (sr_broker greeted_server)) of Inr (Published r) \<Rightarrow> pr_accepted r | _ \<Rightarrow> False"
    by code_simp
  then obtain b1 where p: "publish ''a'' MNone None 3 ?b = (Inr (Published demo_result), b1)" "pr_accepted demo_result"
    by (cases "publish ''a'' MNone None 3 (sr_broker greeted_server)")
      (auto simp: demo_result_def split: sum.splits publish_outcome.splits)
  obtain bs1 where bs1: "encode_frame (cl_packb demo_publisher)
      (with_rid (cl_next_rid demo_publisher) (publish_frame ''a'' MNone None)) = Inr bs1"
    using table_encodes [of _ demo_frames] by (auto simp: cl demo_frames_def)
  obtain bs2 where bs2: "encode_frame (cn_packb ?c) (publish_result_to_wire (MInt (cl_next_rid demo_publisher)) demo_result) = Inr bs2"
    using table_encodes [of _ demo_frames] unfolding c(4) cl(7) by (auto simp: demo_frames_def)
  have pay: "mp_wf MNone" "mp_wf (MDict (str_keys (case None of None \<Rightarrow> [] | Some d \<Rightarrow> d)))" by (simp_all add: str_keys_def)
  have more: "0 < length (cl_conns demo_publisher)" "cl_next_rid demo_publisher \<notin> dict_keys (cl_pending demo_publisher)"
    by (simp_all add: cl)
  have rts: "msgpack_roundtrip (cl_packb demo_publisher) (table_unpack demo_frames)"
    "msgpack_roundtrip (cn_packb ?c) (table_unpack demo_frames)" unfolding cl(8) c(4) by (rule rt)+
  have served: "demo_served = sr_act (Frame 0 False 3 (over_wire (cl_packb demo_publisher) (table_unpack demo_frames)
      (last (cc_sent (cl_conns demo_call ! 0))))) ?sr" by (simp only: demo_served_def cl(8))
  let ?cl2 = "client_run [ReadFrame 0 (over_wire (cn_packb ?c) (table_unpack demo_frames) (last (cn_sent (sr_conns demo_served ! 0)))),
      ResumeCall (length (cl_calls demo_publisher))] demo_call"
  have "cl_results ?cl2 = cl_results demo_publisher @ [PublishDone (Inr demo_result)] \<and> sr_broker demo_served = b1 \<and>
      cl_pending ?cl2 = cl_pending demo_publisher \<and> cl_calls ?cl2 = cl_calls demo_publisher"
    by (rule publish_end_to_end [where unpackb = "table_unpack demo_frames" and sr = ?sr and i = 0 and c = ?c,
          OF cl(1,2) more(1) cl(4,5) more(2) rts(1) pay bs1 c(1) refl c(2,3) rts(2) p(1) bs2 demo_call_def served refl])
  then show ?thesis using p(2) by (simp only: c(4) cl(9,10) list.size append_Nil)
qed

end
