(* ===== verification/Net_Frames.thy ===== *)
theory Net_Frames
  imports Server_Inv Broker_Effects
begin

text \<open>
  What the server writes to a connection, in terms of what it has read there: a delivery frame
  carries a delivery of a subscription its topic matches, and a reply that names a subscription
  answers a subscribe frame of this connection with the same request number and the selector of
  that subscription.  Every action of a connection keeps this.  Subscriptions are looked up in
  \<open>statics\<close>, the list of ids and tokens of every registration there ever was.
\<close>

section \<open>Predicates\<close>

type_synonym sub_table = "(string \<times> string list) list"

definition subscribed :: "sub_table \<Rightarrow> string \<Rightarrow> string \<Rightarrow> bool" where
  "subscribed st sid sel \<longleftrightarrow> (\<exists>i < length st. fst (st ! i) = sid \<and> validate_pattern sel = Inr (snd (st ! i)))"

definition granted :: "sub_table \<Rightarrow> frame set \<Rightarrow> mpval \<Rightarrow> mpval \<Rightarrow> bool" where
  "granted st ups rid v \<longleftrightarrow>
     (\<exists>G\<in>ups. \<exists>sel sid. has_op G SUBSCRIBE \<and> get_or_none G ''rid'' = rid \<and> item G ''selector'' = Inr (MStr sel) \<and>
        v = MStr sid \<and> subscribed st sid sel)"

definition frame_ok :: "sub_table \<Rightarrow> frame set \<Rightarrow> frame \<Rightarrow> bool" where
  "frame_ok st ups F \<longleftrightarrow>
     (has_op F DELIVERY \<longrightarrow> (\<exists>d i. F = delivery_to_wire d \<and> good_delivery st i d)) \<and>
     (has_op F REGISTER_OK \<or> has_op F PUBLISH_RESULT \<or> has_op F SUBSCRIBE_OK \<longrightarrow>
        (\<forall>v. item F ''subscription_id'' = Inr v \<longrightarrow> granted st ups (get_or_none F ''rid'') v))"

definition frames_ok :: "sub_table \<Rightarrow> frame set \<Rightarrow> frame list \<Rightarrow> bool" where
  "frames_ok st ups Fs \<longleftrightarrow> (\<forall>F\<in>set Fs. frame_ok st ups F)"

lemma subscribed_mono: "subscribed st sid sel \<Longrightarrow> subscribed (st @ us) sid sel"
  unfolding subscribed_def by (metis length_append nth_append trans_less_add1)

lemma granted_mono: "granted st ups rid v \<Longrightarrow> ups \<subseteq> ups' \<Longrightarrow> granted (st @ us) ups' rid v"
  unfolding granted_def by (meson subscribed_mono subsetD)

lemma frame_ok_mono: "frame_ok st ups F \<Longrightarrow> ups \<subseteq> ups' \<Longrightarrow> frame_ok (st @ us) ups' F"
  unfolding frame_ok_def using granted_mono [of st ups _ _ ups' us] good_delivery_append [of st _ _ us] by blast

lemma frames_ok_mono: "frames_ok st ups Fs \<Longrightarrow> ups \<subseteq> ups' \<Longrightarrow> frames_ok (st @ us) ups' Fs"
  by (auto simp: frames_ok_def intro: frame_ok_mono)

lemma frames_ok_simps [simp]:
  "frames_ok st ups []" "frames_ok st ups (Fs @ [F]) \<longleftrightarrow> frames_ok st ups Fs \<and> frame_ok st ups F"
  by (auto simp: frames_ok_def)

lemma frames_ok_evolves:
  "frames_ok (statics b) ups Fs \<Longrightarrow> evolves b b' \<Longrightarrow> ups \<subseteq> ups' \<Longrightarrow> frames_ok (statics b') ups' Fs"
  by (auto simp: evolves_def frames_ok_mono)

text \<open>No id stands for two lists of tokens.\<close>

lemma subscribed_unique:
  assumes "distinct (map fst st)" "subscribed st (dl_sid d) sel" "good_delivery st i d"
  shows "matches sel (msg_topic (dl_message d)) = Inr True"
proof -
  obtain j where j: "j < length st" "fst (st ! j) = dl_sid d" "validate_pattern sel = Inr (snd (st ! j))"
    using assms(2) by (auto simp: subscribed_def)
  with assms(1,3) have "i = j"
    by (auto simp: good_delivery_def distinct_conv_nth)
  with j assms(3) show ?thesis by (auto simp: good_delivery_def matches_def)
qed

section \<open>The frames of the server\<close>

lemma plain_frames:
  "frame_ok st ups (error_frame t rid)" "frame_ok st ups HEARTBEAT_FRAME"
  "frame_ok st ups [(MStr ''op'', MStr (op_str WELCOME)), (MStr ''version'', v)]"
  "frame_ok st ups [(MStr ''op'', MStr (op_str REGISTER_OK)), (MStr ''rid'', rid)]"
  "frame_ok st ups [(MStr ''op'', MStr (op_str SUB_CLOSED)), (MStr ''subscription_id'', v), (MStr ''reason'', w)]"
  by (auto simp: frame_ok_def has_op_def error_frame_def HEARTBEAT_FRAME_def get_or_none_def item_def)

lemmas plain_frames_simps [simp] = plain_frames [unfolded op_str.simps]

lemma published_frame [simp]: "frame_ok st ups (publish_result_to_wire rid r)"
  by (auto simp: frame_ok_def has_op_def publish_result_to_wire_def Let_def get_or_none_def item_def split: option.splits)

lemma delivery_frame: "good_delivery st i d \<Longrightarrow> frame_ok st ups (delivery_to_wire d)"
  by (auto simp: frame_ok_def has_op_def get_or_none_def delivery_to_wire_def)

lemma subscribed_frame:
  "granted st ups rid v \<Longrightarrow>
   frame_ok st ups [(MStr ''op'', MStr (op_str SUBSCRIBE_OK)), (MStr ''rid'', rid), (MStr ''subscription_id'', v)]"
  by (auto simp: frame_ok_def has_op_def get_or_none_def item_def)

lemma frames_ok_send:
  "frames_ok st ups (cn_sent c) \<Longrightarrow> frame_ok st ups F \<Longrightarrow> frames_ok st ups (cn_sent (snd (conn_send lost F c)))"
  by (simp add: conn_send_def split: sum.split)

lemma frames_ok_error:
  "frames_ok st ups (cn_sent c) \<Longrightarrow> frames_ok st ups (cn_sent (snd (send_error lost t rid c)))"
  using frames_ok_send [of st ups c "error_frame t rid" lost]
  by (auto simp: send_error_def split: prod.splits sum.splits)

text \<open>The same over a result that is named.\<close>

lemma frames_sent:
  "conn_send lost F c = (r, c') \<Longrightarrow> frames_ok st ups (cn_sent c) \<Longrightarrow> frame_ok st ups F \<Longrightarrow> frames_ok st ups (cn_sent c')"
  "send_error lost t rid c = (r, c') \<Longrightarrow> frames_ok st ups (cn_sent c) \<Longrightarrow> frames_ok st ups (cn_sent c')"
  using frames_ok_send [of st ups c F lost] frames_ok_error [of st ups c lost t rid] by simp_all

section \<open>The handlers\<close>

lemma teardown_sent [simp]: "cn_sent (fst (teardown c b)) = cn_sent c"
  by (auto simp: teardown_def stop_conn_def split: option.split task.split prod.split sum.split)

lemma teardown_sentD: "teardown c b = (c', b') \<Longrightarrow> cn_sent c' = cn_sent c"
  using teardown_sent [of c b] by simp

lemma after_reader_sent [simp]: "cn_sent (fst (after_reader (r, c, b))) = cn_sent c"
  by (simp add: after_reader_def split: sum.split)

lemma frames_on_register:
  "on_register lost f c b = (r, c', b') \<Longrightarrow> frames_ok st ups (cn_sent c) \<Longrightarrow> frames_ok st ups (cn_sent c')"
  by (auto simp: on_register_def Let_def split: prod.splits sum.splits if_splits dest: frames_sent)

lemma frames_reply_published:
  "reply_published lost rid rb c = (r, c', b') \<Longrightarrow> frames_ok st ups (cn_sent c) \<Longrightarrow> frames_ok st ups (cn_sent c')"
  by (auto simp: reply_published_def split: prod.splits sum.splits publish_outcome.splits dest: frames_sent)

lemma frames_on_publish:
  "on_publish lost now f c b = (r, c', b') \<Longrightarrow> frames_ok st ups (cn_sent c) \<Longrightarrow> frames_ok st ups (cn_sent c')"
  by (auto simp: on_publish_def Let_def split: sum.splits prod.splits dest: frames_reply_published)

lemma settle_sent: "settle act f c b = (r, c', b') \<Longrightarrow> cn_sent c' = cn_sent c"
  by (auto simp: settle_def Let_def split: sum.splits option.splits prod.splits)

lemma on_unsubscribe_sent: "on_unsubscribe f c b = (r, c', b') \<Longrightarrow> cn_sent c' = cn_sent c"
  by (auto simp: on_unsubscribe_def split: sum.splits option.splits)

text \<open>A new subscription is listed under its selector.\<close>

lemma subscribe_lists:
  assumes "sys_inv s" "subscribe sel rp (sy_broker s) = (Inr a, b')" "no_collision b'"
  shows "subscribed (statics b') (sub_id (st_sub (bk_stream_heap b' ! a))) sel"
proof -
  let ?b = "sy_broker s"
  obtain r b1 where sb: "subscribe_begin sel rp ?b = (r, b1)" by fastforce
  obtain s' where s': "sys_inv s'" "sy_broker s' = b'" "a < length (bk_regs b')"
    using run_subscribe [OF assms] reaches_inv by blast
  have r: "r = Inr a" using assms(2) sb
    by (auto simp: subscribe_def subscribe_replay_def split: sum.splits option.splits replay_policy.splits prod.splits)
  from subscribe_begin_new [OF sb [unfolded r]] obtain tokens reg where b1: "validate_pattern sel = Inr tokens"
    "a = length (bk_regs ?b)" "bk_regs b1 = bk_regs ?b @ [reg]" "reg_tokens reg = tokens" by auto
  have "evolves b1 b'"
  proof (cases "\<exists>ts. rp = Some (FromUnixTimestamp ts)")
    case False
    then have "b' = b1" using assms(2) sb r by (auto simp: subscribe_def split: option.splits replay_policy.splits)
    then show ?thesis by simp
  next
    case True
    then obtain ts where ts: "rp = Some (FromUnixTimestamp ts)" by blast
    obtain h b2 where rd: "replay_read ts b1 = (h, b2)" by fastforce
    have fl: "subscribe_replay a h b2 = (Inr a, b')" using assms(2) sb r ts rd by (simp add: subscribe_def)
    have "later b1 b2" "later b2 b'"
      using later_replay_read [of b1 ts] later_subscribe_replay [of b2 a h] rd fl by simp_all
    then have free: "no_collision b1" "no_collision b2" using assms(3) later_no_collision by blast+
    have c1: "core_inv b1" "a < length (bk_regs b1)"
      using subscribe_begin_safe [OF sys_inv_core [OF assms(1)] sb free(1)] r by simp_all
    from replay_read_safe [OF c1(1), of ts] rd have c2: "core_inv b2" "evolves b1 b2" by simp_all
    have "a < length (bk_regs b2)" using c1(2) evolves_length [OF c2(2)] by simp
    from subscribe_replay_safe [OF c2(1) this, of h] fl have "evolves b2 b'" by simp
    with c2(2) show ?thesis by (rule evolves_trans)
  qed
  then have "snd (statics b' ! a) = tokens"
    using b1 evolves_static [of b1 b' a] by (simp add: statics_nth nth_append reg_static_def)
  moreover have "fst (statics b' ! a) = sub_id (st_sub (bk_stream_heap b' ! a))"
    using core_heapD(3) [OF sys_inv_core [OF s'(1)]] s'(2,3) by (simp add: statics_nth reg_static_def)
  ultimately show ?thesis using b1(1) s'(3) by (auto simp: subscribed_def)
qed

lemma frames_on_subscribe:
  assumes "sys_inv s" "on_subscribe lost f c (sy_broker s) = (r, c', b')" "no_collision b'"
    and "frames_ok (statics b') ups (cn_sent c)" "f \<in> ups" "has_op f SUBSCRIBE"
  shows "frames_ok (statics b') ups (cn_sent c')"
proof -
  define args where "args =
    bind_result (item f ''selector'') (\<lambda>selector.
      bind_result (bind_result (if truthy (get_or_none f ''replay'') then as_map (get_or_none f ''replay'')
          else Inr [(MStr ''mode'', MStr ''future'')]) replay_from_wire) (\<lambda>replay. Inr (selector, replay)))"
  show ?thesis
  proof (cases args)
    case (Inl e)
    with assms(2,4) show ?thesis by (simp add: on_subscribe_def args_def Let_def)
  next
    case (Inr x)
    obtain v replay where x: "x = (v, replay)" by fastforce
    have v: "item f ''selector'' = Inr v" using Inr x by (auto simp: args_def bind_result_Inr_iff)
    obtain res b1 where sb: "broker_subscribe v replay (sy_broker s) = (res, b1)" by fastforce
    show ?thesis
    proof (cases res)
      case (Inl e)
      then show ?thesis
        using assms(2,4) sb \<open>args = Inr x\<close> unfolding on_subscribe_def Let_def args_def [symmetric] x
        by (auto split: prod.splits if_splits dest: frames_sent)
    next
      case (Inr a)
      let ?sid = "sub_id (st_sub (bk_stream_heap b1 ! a))"
      have b1: "b1 = b'" and sent: "conn_send lost [(MStr ''op'', MStr (op_str SUBSCRIBE_OK)), (MStr ''rid'', get_or_none f ''rid''),
          (MStr ''subscription_id'', MStr ?sid)] (c\<lparr>cn_subs := dict_set ?sid (a, Running) (cn_subs c)\<rparr>) = (r, c')"
        using assms(2) sb Inr \<open>args = Inr x\<close> unfolding on_subscribe_def Let_def args_def [symmetric] x
        by (auto split: prod.splits)
      obtain sel where sel: "v = MStr sel"
        using sb Inr by (cases rule: broker_subscribe_cases [where v = v and replay = replay and b = "sy_broker s"]) auto
      then have "subscribed (statics b') ?sid sel"
        using subscribe_lists [OF assms(1)] sb Inr b1 assms(3) by simp
      then have "granted (statics b') ups (get_or_none f ''rid'') (MStr ?sid)"
        using assms(5,6) v sel unfolding granted_def by blast
      from frames_sent(1) [OF sent _ subscribed_frame [OF this]] assms(4) show ?thesis by simp
    qed
  qed
qed

lemma handled_evolves: "handled_run s c (r, c1, b1) \<Longrightarrow> evolves (sy_broker s) b1"
  by (auto simp: handled_run_def turn_run_def reaches_def)

lemma conn_run_evolves: "conn_run s c (c', b') \<Longrightarrow> evolves (sy_broker s) b'"
  by (auto simp: conn_run_def turn_run_def reaches_def)

lemma after_reader_evolves:
  assumes "handled_run s c (r, c1, b1)" "after_reader (r, c1, b1) = (c', b')" "no_collision b'"
  shows "evolves b1 b'"
proof (cases r)
  case (Inr u)
  with assms(2) show ?thesis by (simp add: after_reader_def)
next
  case (Inl e)
  obtain s1 where s1: "sys_inv s1" "sy_broker s1 = b1" "conn_ok s1 c1"
    using assms(1) reaches_inv by (auto simp: handled_run_def turn_run_def)
  have "teardown c1 (sy_broker s1) = (c', b')" using assms(2) Inl s1(2) by (simp add: after_reader_def)
  from run_teardown [OF s1(1,3) this assms(3)] s1(2) show ?thesis by (auto simp: reaches_def)
qed

lemma frames_dispatch:
  assumes "sys_inv s" "dispatch lost now f c (sy_broker s) = (r, c1, b1)" "no_collision b1"
    and "frames_ok (statics b1) ups (cn_sent c)" "f \<in> ups"
  shows "frames_ok (statics b1) ups (cn_sent c1)"
  using assms(2-5) frames_on_subscribe [OF assms(1)]
  by (auto simp: dispatch_def on_ack_def on_nack_def split: if_splits prod.splits
      dest: frames_on_register frames_on_publish frames_sent settle_sent on_unsubscribe_sent)

section \<open>The tasks of a connection\<close>

lemma frames_reader_turn:
  assumes "sys_inv s" "conn_ok s c" "cn_reader c = Reading"
    and "reader_turn lost now outcome c (sy_broker s) = (c', b')" "no_collision b'"
    and "frames_ok (statics (sy_broker s)) ups (cn_sent c)" "\<And>f. outcome = Inr f \<Longrightarrow> f \<in> ups"
  shows "frames_ok (statics b') ups (cn_sent c')"
proof (cases outcome)
  case (Inl e)
  have ev: "evolves (sy_broker s) b'" by (rule conn_run_evolves [OF run_reader_turn [OF assms(1-5)]])
  have "cn_sent c' = cn_sent c \<or> (\<exists>t. cn_sent c' = cn_sent (snd (send_error lost t MNone c)))"
    using assms(4) Inl by (cases e) (auto simp: reader_turn_def dest!: teardown_sentD)
  with frames_ok_evolves [OF assms(6) ev order_refl] frames_ok_error show ?thesis by auto
next
  case (Inr f)
  let ?c = "c\<lparr>cn_last_recv := now\<rparr>"
  obtain r c1 b1 where d: "dispatch lost now f ?c (sy_broker s) = (r, c1, b1)" by (metis surj_pair)
  then have c': "after_reader (r, c1, b1) = (c', b')" using assms(4) Inr by (simp add: reader_turn_def)
  then have "later b1 b'" using later_after_reader [of b1 b1 r c1] by simp
  then have free: "no_collision b1" using assms(5) by (rule later_no_collision)
  have ok: "conn_ok s ?c" "cn_reader ?c = Reading" using assms(2,3) by (simp_all add: conn_ok_def)
  note run = run_dispatch [OF assms(1) ok d free]
  have "frames_ok (statics b1) ups (cn_sent ?c)"
    using frames_ok_evolves [OF assms(6) handled_evolves [OF run] order_refl] by simp
  from frames_dispatch [OF assms(1) d free this] assms(7) [OF Inr] have "frames_ok (statics b1) ups (cn_sent c1)" .
  moreover have "cn_sent c' = cn_sent c1" using after_reader_sent [of r c1 b1] c' by simp
  ultimately show ?thesis
    using frames_ok_evolves [OF _ after_reader_evolves [OF run c' assms(5)] order_refl] by simp
qed

lemma stream_next_good:
  assumes "core_inv b" "a < length (bk_regs b)" "stream_next a b = (Next d, b')"
  shows "good_delivery (statics b) a d"
proof -
  have "q_items (bk_queues b ! a) \<noteq> [] \<and> d = hd (q_items (bk_queues b ! a))"
    using assms(3) core_heapD(2) [OF assms(1,2)]
    by (auto simp: stream_next_def Let_def get_ready_def split: if_splits option.splits list.splits)
  with core_queueD [OF assms(1,2)] show ?thesis by (auto simp: queue_good_def)
qed

lemma frames_pump_turn:
  assumes "sys_inv s" "conn_ok s c" "j < length (cn_subs c)" "pump_turn lost j c (sy_broker s) = (c', b')"
    and "frames_ok (statics (sy_broker s)) ups (cn_sent c)"
  shows "frames_ok (statics (sy_broker s)) ups (cn_sent c')"
proof -
  obtain sid a t where e: "cn_subs c ! j = (sid, a, t)" by (metis prod.collapse)
  have a: "a < length (bk_regs (sy_broker s))"
    using subs_known_nth [OF _ assms(3) e] assms(2) by (auto simp: conn_ok_def)
  show ?thesis
    using assms(4,5) e
    by (auto simp: pump_turn_def split: prod.splits next_result.splits sum.splits
        dest: frames_sent dest!: stream_next_good [OF sys_inv_core [OF assms(1)] a] dest: delivery_frame
        intro!: frames_ok_send)
qed

lemma frames_handshake:
  "frames_ok st ups (cn_sent c) \<Longrightarrow> frames_ok st ups (cn_sent (server_handshake lost outcome c))"
  by (auto simp: server_handshake_def stop_conn_def frames_ok_error split: sum.splits prod.splits dest: frames_sent)

lemma frames_heartbeat_turn:
  "heartbeat_turn lost timeout now c b = (c', b') \<Longrightarrow> frames_ok st ups (cn_sent c) \<Longrightarrow> frames_ok st ups (cn_sent c')"
  by (auto simp: heartbeat_turn_def split: if_splits sum.splits prod.splits dest: frames_sent dest!: teardown_sentD)

text \<open>The frame an action gives a connection to read.\<close>

fun read_by :: "sr_action \<Rightarrow> frame option" where
  "read_by (Frame i lost now (Inr f)) = Some f"
| "read_by _ = None"

lemma frames_conn_act:
  assumes "sys_inv s" "conn_ok s c" "mset (waiting c) \<subseteq># mset (sy_parked s)"
    and "conn_act x timeout c (sy_broker s) = (c', b')" "no_collision b'"
    and "frames_ok (statics (sy_broker s)) ups (cn_sent c)" "\<And>f. read_by x = Some f \<Longrightarrow> f \<in> ups"
  shows "frames_ok (statics b') ups (cn_sent c')"
proof -
  have ev: "evolves (sy_broker s) b'" by (rule conn_run_evolves [OF run_conn_act [OF assms(1-5)]])
  note keep = frames_ok_evolves [OF _ ev order_refl]
  show ?thesis
  proof (cases x)
    case (Frame i lost now outcome)
    have "\<And>f. outcome = Inr f \<Longrightarrow> f \<in> ups" using assms(7) Frame by auto
    note read = this
    show ?thesis
    proof (cases "cn_reader c")
      case Reading
      with frames_reader_turn [OF assms(1,2) Reading, of lost now outcome c' b' ups] assms(4-6) Frame read
      show ?thesis by simp
    next
      case Handshaking
      with assms(4,6) Frame keep frames_handshake [of _ ups c lost outcome] show ?thesis by auto
    qed (use assms(4,6) Frame keep in auto)
  next
    case (GateTurn i lost)
    show ?thesis
    proof (cases "cn_reader c")
      case (AtGate rid m)
      obtain r c1 b1 where g: "gate_turn lost rid m c (sy_broker s) = (r, c1, b1)" by (metis surj_pair)
      then have "frames_ok (statics (sy_broker s)) ups (cn_sent c1)"
        unfolding gate_turn_def using assms(6) by (rule frames_reply_published)
      moreover have "cn_sent c' = cn_sent c1"
        using assms(4) AtGate GateTurn g after_reader_sent [of r c1 b1] by simp
      ultimately show ?thesis using keep by simp
    qed (use assms(4,6) GateTurn keep in auto)
  next
    case (PumpTurn i j lost)
    then show ?thesis
      using assms(4,6) keep frames_pump_turn [OF assms(1,2)] by (auto split: if_splits)
  next
    case (HeartbeatTurn i lost now)
    then show ?thesis
      using assms(4,6) by (auto split: if_splits intro: keep intro: frames_heartbeat_turn)
  next
    case (AbortConn i)
    then show ?thesis
      using assms(4,6) keep by (auto simp: abort_def split: reader.splits dest!: teardown_sentD)
  qed (use assms(4,6) keep in auto)
qed

text \<open>One action of the server, seen from connection \<open>k\<close>: \<open>ups\<close> must hold what it reads there.\<close>

lemma frames_sr_act:
  assumes "server_rel s sr" "no_collision (sr_broker (sr_act x sr))" "k < length (sr_conns sr)"
    and "frames_ok (statics (sr_broker sr)) ups (cn_sent (sr_conns sr ! k))"
    and "\<And>f. target x = Some k \<Longrightarrow> read_by x = Some f \<Longrightarrow> f \<in> ups"
  shows "frames_ok (statics (sr_broker (sr_act x sr))) ups (cn_sent (sr_conns (sr_act x sr) ! k)) \<and>
         length (sr_conns sr) \<le> length (sr_conns (sr_act x sr))"
proof -
  have ev: "evolves (sr_broker sr) (sr_broker (sr_act x sr))"
    using server_rel_act [OF assms(1,2)] assms(1) by (auto simp: server_rel_def reaches_def)
  have same: ?thesis if "sr_conns (sr_act x sr) ! k = sr_conns sr ! k" "length (sr_conns sr) \<le> length (sr_conns (sr_act x sr))"
    using that frames_ok_evolves [OF assms(4) ev order_refl] by simp
  show ?thesis
  proof (cases "target x")
    case None
    then show ?thesis using same assms(3) by (cases x) (auto simp: sr_act_def nth_append)
  next
    case (Some i)
    note act = sr_act_target [OF Some, of sr]
    show ?thesis
    proof (cases "i = k")
      case False
      then show ?thesis using same act by (auto simp: put_conn_def)
    next
      case True
      obtain c' b' where a: "conn_act x (sr_timeout sr) (sr_conns sr ! k) (sr_broker sr) = (c', b')" by fastforce
      have new: "sr_conns (sr_act x sr) = (sr_conns sr)[k := c']" "sr_broker (sr_act x sr) = b'"
        using act True assms(3) a by (simp_all add: put_conn_def)
      have rel: "sys_inv s" "sy_broker s = sr_broker sr" "conn_ok s (sr_conns sr ! k)"
        "all_waiting (sr_conns sr) \<subseteq># mset (sy_parked s)" using assms(1,3) by (auto simp: server_rel_def)
      have "mset (waiting (sr_conns sr ! k)) \<subseteq># mset (sy_parked s)"
        using all_waiting_split [OF assms(3)] rel(4) by (metis mset_subset_eq_add_left subset_mset.order_trans)
      from frames_conn_act [OF rel(1,3) this, of x "sr_timeout sr" c' b' ups] rel(2) a new assms(2-5) Some True
      show ?thesis by simp
    qed
  qed
qed

end
