(* ===== verification/Net_Client.thy ===== *)
theory Net_Client
  imports Net_Frames Client_Refs
begin

text \<open>
  The client's half of what \<open>Net_Frames\<close> says of the server: its requests carry numbers of their
  own, a subscribe request on its way asks for the selector of its handle, what the tables route
  to a handle is a subscription to the handle's selector, and a handle holds only deliveries it
  wants.  Every action of the client keeps this, provided the frames it reads are good.
\<close>

section \<open>The invariant\<close>

definition sent_frames :: "client \<Rightarrow> frame set" where
  "sent_frames c = (\<Union>k\<in>set (cl_conns c). set (cc_sent k))"

text \<open>The subscribe requests that wait for their reply, with the handle each is for.\<close>

definition sub_reqs :: "client \<Rightarrow> (nat \<times> request) set" where
  "sub_reqs c = {(a, rq). SubscribeCall a rq \<in> set (cl_calls c) \<or> (\<exists>n as. cl_rc c = RcReply n a rq as)}"

definition wanted :: "string \<Rightarrow> delivery \<Rightarrow> bool" where
  "wanted sel d \<longleftrightarrow> matches sel (msg_topic (dl_message d)) = Inr True"

definition rids_ok :: "int \<Rightarrow> frame set \<Rightarrow> bool" where
  "rids_ok next Gs \<longleftrightarrow> (\<forall>G\<in>Gs. get_or_none G ''rid'' = MNone \<or> (\<exists>n < next. get_or_none G ''rid'' = MInt n))"

definition issued_ok :: "int \<Rightarrow> nat \<Rightarrow> (nat \<times> request) set \<Rightarrow> bool" where
  "issued_ok next n rqs \<longleftrightarrow> (\<forall>(a, rq)\<in>rqs. fst rq < next \<and> snd rq < n)"

definition asks_ok :: "string list \<Rightarrow> frame set \<Rightarrow> (nat \<times> request) set \<Rightarrow> bool" where
  "asks_ok sels Gs rqs \<longleftrightarrow>
     (\<forall>(a, rq)\<in>rqs. \<forall>G\<in>Gs. get_or_none G ''rid'' = MInt (fst rq) \<longrightarrow> item G ''selector'' = Inr (MStr (sels ! a)))"

text \<open>A reply that would activate a handle.\<close>

definition activates :: "frame \<Rightarrow> string \<Rightarrow> bool" where
  "activates f sid \<longleftrightarrow> \<not> has_op f ERROR \<and> (\<exists>v. item f ''subscription_id'' = Inr v \<and> sid = mp_str v)"

definition grants_ok :: "sub_table \<Rightarrow> string list \<Rightarrow> frame result option list \<Rightarrow> (nat \<times> request) set \<Rightarrow> bool" where
  "grants_ok st sels futs rqs \<longleftrightarrow>
     (\<forall>(a, rq)\<in>rqs. \<forall>f sid. futs ! snd rq = Some (Inr f) \<and> activates f sid \<longrightarrow> subscribed st sid (sels ! a))"

definition routes_ok :: "sub_table \<Rightarrow> string list \<Rightarrow> (string \<times> nat) set \<Rightarrow> bool" where
  "routes_ok st sels rs \<longleftrightarrow> (\<forall>(sid, a)\<in>rs. subscribed st sid (sels ! a))"

definition holds :: "csub \<Rightarrow> delivery set" where
  "holds h = set (in_hand (se_get h)) \<union> set (se_queue h)"

definition handles_ok :: "frame set \<Rightarrow> csub list \<Rightarrow> bool" where
  "handles_ok dn hs \<longleftrightarrow>
     (\<forall>h\<in>set hs. \<forall>d\<in>holds h. wanted (cs_selector h) d \<and> delivery_to_wire d \<in> dn)"

definition selectors :: "client \<Rightarrow> string list" where
  "selectors c = map cs_selector (cl_handles c)"

definition net_inv :: "sub_table \<Rightarrow> frame set \<Rightarrow> client \<Rightarrow> bool" where
  "net_inv st dn c \<longleftrightarrow>
     rids_ok (cl_next_rid c) (sent_frames c) \<and> asks_ok (selectors c) (sent_frames c) (sub_reqs c) \<and>
     grants_ok st (selectors c) (cl_futures c) (sub_reqs c) \<and> routes_ok st (selectors c) (set (cl_by_server c)) \<and>
     handles_ok dn (cl_handles c) \<and> issued_ok (cl_next_rid c) (length (cl_futures c)) (sub_reqs c)"

lemma asks_okI:
  "(\<And>a rq G. (a, rq) \<in> rqs \<Longrightarrow> G \<in> Gs \<Longrightarrow> get_or_none G ''rid'' = MInt (fst rq) \<Longrightarrow>
     item G ''selector'' = Inr (MStr (sels ! a))) \<Longrightarrow> asks_ok sels Gs rqs"
  unfolding asks_ok_def by blast

lemma asks_okD:
  "asks_ok sels Gs rqs \<Longrightarrow> (a, rq) \<in> rqs \<Longrightarrow> G \<in> Gs \<Longrightarrow> get_or_none G ''rid'' = MInt (fst rq) \<Longrightarrow>
   item G ''selector'' = Inr (MStr (sels ! a))"
  unfolding asks_ok_def by blast

lemma grants_okI:
  "(\<And>a rq f sid. (a, rq) \<in> rqs \<Longrightarrow> futs ! snd rq = Some (Inr f) \<Longrightarrow> activates f sid \<Longrightarrow> subscribed st sid (sels ! a)) \<Longrightarrow>
   grants_ok st sels futs rqs"
  unfolding grants_ok_def by blast

lemma grants_okD:
  "grants_ok st sels futs rqs \<Longrightarrow> (a, rq) \<in> rqs \<Longrightarrow> futs ! snd rq = Some (Inr f) \<Longrightarrow> activates f sid \<Longrightarrow>
   subscribed st sid (sels ! a)"
  unfolding grants_ok_def by blast

lemma routes_okI: "(\<And>sid a. (sid, a) \<in> rs \<Longrightarrow> subscribed st sid (sels ! a)) \<Longrightarrow> routes_ok st sels rs"
  unfolding routes_ok_def by blast

lemma routes_okD: "routes_ok st sels rs \<Longrightarrow> (sid, a) \<in> rs \<Longrightarrow> subscribed st sid (sels ! a)"
  unfolding routes_ok_def by blast

lemma net_inv_mono: "net_inv st dn c \<Longrightarrow> net_inv (st @ us) dn c"
  using subscribed_mono unfolding net_inv_def grants_ok_def routes_ok_def by fast

lemma net_inv_sent: "net_inv st dn c \<Longrightarrow> dn \<subseteq> dn' \<Longrightarrow> net_inv st dn' c"
  unfolding net_inv_def handles_ok_def by blast

lemma issuedD: "net_inv st dn c \<Longrightarrow> (a, rq) \<in> sub_reqs c \<Longrightarrow> fst rq < cl_next_rid c \<and> snd rq < length (cl_futures c)"
  by (force simp: net_inv_def issued_ok_def)

lemma sub_reqs_held: "(a, rq) \<in> sub_reqs c \<Longrightarrow> a \<in> held c"
  unfolding sub_reqs_def held_def by force

section \<open>Operations that send and forget\<close>

text \<open>
  What most operations do at most: drop routes, requests and deliveries, fail futures, and send
  frames without a request number or with a fresh one.
\<close>

definition fresh_frames :: "client \<Rightarrow> client \<Rightarrow> frame set" where
  "fresh_frames c c' =
     {G. get_or_none G ''rid'' = MNone \<or>
         (\<exists>n. cl_next_rid c \<le> n \<and> n < cl_next_rid c' \<and> get_or_none G ''rid'' = MInt n)}"

definition futures_fail :: "frame result option list \<Rightarrow> frame result option list \<Rightarrow> bool" where
  "futures_fail fs fs' \<longleftrightarrow>
     length fs \<le> length fs' \<and> (\<forall>i < length fs. fs' ! i = fs ! i \<or> (\<exists>e. fs' ! i = Some (Inl e)))"

definition handles_shrink :: "csub list \<Rightarrow> csub list \<Rightarrow> bool" where
  "handles_shrink hs hs' \<longleftrightarrow>
     list_all2 (\<lambda>h h'. cs_selector h' = cs_selector h \<and> holds h' \<subseteq> holds h) hs hs'"

definition net_frame :: "client \<Rightarrow> client \<Rightarrow> bool" where
  "net_frame c c' \<longleftrightarrow>
     handles_shrink (cl_handles c) (cl_handles c') \<and> set (cl_by_server c') \<subseteq> set (cl_by_server c) \<and>
     sub_reqs c' \<subseteq> sub_reqs c \<and> futures_fail (cl_futures c) (cl_futures c') \<and>
     cl_next_rid c \<le> cl_next_rid c' \<and> sent_frames c' \<subseteq> sent_frames c \<union> fresh_frames c c'"

lemma futures_fail_refl [simp]: "futures_fail fs fs"
  by (simp add: futures_fail_def)

lemma handles_shrink_refl [simp]: "handles_shrink hs hs"
  by (simp add: handles_shrink_def list_all2_refl)

lemma net_frame_refl [simp]: "net_frame c c"
  by (simp add: net_frame_def)

lemma futures_fail_trans:
  assumes "futures_fail fs gs" "futures_fail gs ks"
  shows "futures_fail fs ks"
  unfolding futures_fail_def
proof (intro conjI allI impI)
  show "length fs \<le> length ks" using assms by (simp add: futures_fail_def)
  fix i
  assume "i < length fs"
  then have "gs ! i = fs ! i \<or> (\<exists>e. gs ! i = Some (Inl e))" "ks ! i = gs ! i \<or> (\<exists>e. ks ! i = Some (Inl e))"
    using assms by (simp_all add: futures_fail_def)
  then show "ks ! i = fs ! i \<or> (\<exists>e. ks ! i = Some (Inl e))" by auto
qed

lemma handles_shrink_trans: "handles_shrink hs gs \<Longrightarrow> handles_shrink gs ks \<Longrightarrow> handles_shrink hs ks"
  unfolding handles_shrink_def by (erule (1) list_all2_trans [rotated]) auto

lemma net_frame_trans [trans]: "net_frame a b \<Longrightarrow> net_frame b c \<Longrightarrow> net_frame a c"
proof -
  assume ab: "net_frame a b" and bc: "net_frame b c"
  then have "fresh_frames a b \<subseteq> fresh_frames a c" "fresh_frames b c \<subseteq> fresh_frames a c"
    by (auto simp: net_frame_def fresh_frames_def)
  moreover have "sent_frames c \<subseteq> sent_frames b \<union> fresh_frames b c" "sent_frames b \<subseteq> sent_frames a \<union> fresh_frames a b"
    using ab bc by (simp_all add: net_frame_def)
  ultimately have "sent_frames c \<subseteq> sent_frames a \<union> fresh_frames a c" by blast
  with ab bc show ?thesis
    unfolding net_frame_def using handles_shrink_trans futures_fail_trans by (meson order_trans)
qed

lemma shrink_selectors:
  "handles_shrink (cl_handles c) (cl_handles c') \<Longrightarrow> selectors c' = selectors c"
  unfolding handles_shrink_def selectors_def
  by (auto simp: list_all2_conv_all_nth intro!: nth_equalityI)

lemma shrink_handles_ok: "handles_shrink hs hs' \<Longrightarrow> handles_ok dn hs \<Longrightarrow> handles_ok dn hs'"
  unfolding handles_shrink_def handles_ok_def
proof (intro ballI)
  fix h' d
  assume a: "list_all2 (\<lambda>h h'. cs_selector h' = cs_selector h \<and> holds h' \<subseteq> holds h) hs hs'"
    "\<forall>h\<in>set hs. \<forall>d\<in>holds h. wanted (cs_selector h) d \<and> delivery_to_wire d \<in> dn" "h' \<in> set hs'" "d \<in> holds h'"
  then obtain i where i: "i < length hs'" "h' = hs' ! i" unfolding in_set_conv_nth by blast
  moreover have "length hs = length hs'" using a(1) by (rule list_all2_lengthD)
  ultimately have i: "i < length hs" "h' = hs' ! i" by simp_all
  from list_all2_nthD [OF a(1) i(1)] a(4) i(2) have "cs_selector h' = cs_selector (hs ! i)" "d \<in> holds (hs ! i)" by blast+
  with bspec [OF bspec [OF a(2) nth_mem [OF i(1)]]] show "wanted (cs_selector h') d \<and> delivery_to_wire d \<in> dn" by simp
qed

lemma net_frame_inv:
  assumes "net_frame c c'" "net_inv st dn c"
  shows "net_inv st dn c'"
proof -
  have f: "selectors c' = selectors c" "handles_ok dn (cl_handles c')"
    using assms(1,2) shrink_selectors shrink_handles_ok by (auto simp: net_frame_def net_inv_def)
  have rids: "rids_ok (cl_next_rid c') (sent_frames c')"
    using assms(1,2) by (fastforce simp: net_frame_def net_inv_def rids_ok_def fresh_frames_def)
  have rq: "(a, rq) \<in> sub_reqs c" "fst rq < cl_next_rid c" "snd rq < length (cl_futures c)" if "(a, rq) \<in> sub_reqs c'" for a rq
  proof -
    show "(a, rq) \<in> sub_reqs c" using that assms(1) unfolding net_frame_def by blast
    from issuedD [OF assms(2) this] show "fst rq < cl_next_rid c" "snd rq < length (cl_futures c)" by simp_all
  qed
  have "asks_ok (selectors c) (sent_frames c') (sub_reqs c')"
  proof (rule asks_okI)
    fix a rq' G
    assume a: "(a, rq') \<in> sub_reqs c'" "G \<in> sent_frames c'" "get_or_none G ''rid'' = MInt (fst rq')"
    with rq(2) [OF a(1)] assms(1) have "G \<in> sent_frames c" by (auto simp: net_frame_def fresh_frames_def)
    with asks_okD [OF _ rq(1) [OF a(1)] _ a(3)] assms(2) show "item G ''selector'' = Inr (MStr (selectors c ! a))"
      by (auto simp: net_inv_def)
  qed
  moreover have "grants_ok st (selectors c) (cl_futures c') (sub_reqs c')"
  proof (rule grants_okI)
    fix a rq' f sid
    assume a: "(a, rq') \<in> sub_reqs c'" "cl_futures c' ! snd rq' = Some (Inr f)" "activates f sid"
    with rq(3) [OF a(1)] assms(1) have "cl_futures c ! snd rq' = Some (Inr f)"
      by (auto simp: net_frame_def futures_fail_def)
    with grants_okD [OF _ rq(1) [OF a(1)] _ a(3)] assms(2) show "subscribed st sid (selectors c ! a)"
      by (auto simp: net_inv_def)
  qed
  moreover have "routes_ok st (selectors c) (set (cl_by_server c'))"
    using assms(1,2) by (auto simp: net_frame_def net_inv_def routes_ok_def)
  moreover have "issued_ok (cl_next_rid c') (length (cl_futures c')) (sub_reqs c')"
    using rq assms(1) by (fastforce simp: issued_ok_def net_frame_def futures_fail_def)
  ultimately show ?thesis using f rids by (simp add: net_inv_def)
qed

lemma handles_shrink_update:
  assumes "\<And>h. cs_selector (g h) = cs_selector h" "\<And>h. holds (g h) \<subseteq> holds h"
  shows "handles_shrink hs (hs[a := g (hs ! a)])"
proof (cases "a < length hs")
  case True
  with assms show ?thesis by (auto simp: handles_shrink_def list_all2_conv_all_nth nth_list_update)
qed (simp add: list_update_beyond)

lemma net_frame_upd:
  assumes "\<And>h. cs_selector (g h) = cs_selector h" "\<And>h. holds (g h) \<subseteq> holds h"
  shows "net_frame c (upd_handle a g c)"
  using handles_shrink_update [OF assms] by (simp add: net_frame_def upd_handle_def sub_reqs_def sent_frames_def)

lemma sent_frames_update:
  assumes "set (cc_sent k') \<subseteq> X \<union> set (cc_sent (cl_conns c ! k))"
  shows "sent_frames (c\<lparr>cl_conns := (cl_conns c)[k := k']\<rparr>) \<subseteq> X \<union> sent_frames c"
proof (cases "k < length (cl_conns c)")
  case True
  with assms show ?thesis
    unfolding sent_frames_def using set_update_subset_insert [of "cl_conns c" k k'] nth_mem [OF True] by fastforce
qed (simp add: list_update_beyond)

lemma sent_frames_write:
  "sent_frames (c\<lparr>cl_conns := (cl_conns c)[k := (cl_conns c ! k)\<lparr>cc_sent := cc_sent (cl_conns c ! k) @ [f]\<rparr>]\<rparr>) \<subseteq>
   insert f (sent_frames c)"
  using sent_frames_update [of "(cl_conns c ! k)\<lparr>cc_sent := cc_sent (cl_conns c ! k) @ [f]\<rparr>" "{f}" c k] by simp

lemma net_frame_conn:
  "cc_sent k' = cc_sent (cl_conns c ! k) \<Longrightarrow> net_frame c (c\<lparr>cl_conns := (cl_conns c)[k := k']\<rparr>)"
  using sent_frames_update [of k' "{}" c k] by (auto simp: net_frame_def sub_reqs_def)

lemma holds_close [simp]: "holds (se_close h) = holds h"
  by (simp add: holds_def se_close_def)

lemma selector_simps [simp]:
  "cs_selector (se_close h) = cs_selector h" "cs_selector (se_push d h) = cs_selector h"
  "cs_selector (note_ack ts h) = cs_selector h" "holds (note_ack ts h) = holds h"
  by (simp_all add: se_close_def se_push_def note_ack_def holds_def)

lemma net_frame_close_handles [simp]: "net_frame c (close_handles c)"
proof -
  have "handles_shrink hs (fold (\<lambda>(k, a) hs. hs[a := se_close (hs ! a)]) ps hs)" for ps :: "(string, nat) dict" and hs
  proof (induction ps arbitrary: hs)
    case (Cons q ps)
    have "handles_shrink hs (hs[a := se_close (hs ! a)])" for a by (rule handles_shrink_update) simp_all
    from handles_shrink_trans [OF this Cons.IH] show ?case by (cases q) simp
  qed simp
  then show ?thesis by (simp add: net_frame_def close_handles_def sub_reqs_def sent_frames_def)
qed

lemma fail_each_futures: "futures_fail fs (fail_each e ps fs)"
  using fail_each_nth [of _ fs e ps] by (fastforce simp: futures_fail_def)

lemma net_frame_writer [simp]: "net_frame c (close_writer c)" "net_frame c (cancel_heartbeat c)"
  by (auto simp: close_writer_def cancel_heartbeat_def intro: net_frame_conn split: option.split)

lemma net_frame_fields [simp]:
  "net_frame c (c\<lparr>cl_results := x1\<rparr>)" "net_frame c (c\<lparr>cl_pending := x2\<rparr>)" "net_frame c (c\<lparr>cl_subs := x3\<rparr>)"
  "net_frame c (forget_request rq c)" "net_frame c (fail_pending e c)" "net_frame c (c\<lparr>cl_connected := x4, cl_by_server := []\<rparr>)"
  "net_frame c (c\<lparr>cl_by_server := dict_pop k (cl_by_server c)\<rparr>)"
  "net_frame c (c\<lparr>cl_subs := x3, cl_by_server := []\<rparr>)"
  by (simp_all add: net_frame_def sub_reqs_def sent_frames_def forget_request_def fail_pending_def fail_each_futures set_dict_pop)

lemma net_frame_drop_call [simp]: "net_frame c (drop_call i c)"
  using set_take_subset [of i "cl_calls c"] set_drop_subset [of "Suc i" "cl_calls c"]
  by (auto simp: net_frame_def drop_call_def sub_reqs_def sent_frames_def)

lemma net_frame_rc: "(\<And>n a rq as. t \<noteq> RcReply n a rq as) \<Longrightarrow> net_frame c (c\<lparr>cl_rc := t\<rparr>)"
  by (auto simp: net_frame_def sub_reqs_def sent_frames_def)

section \<open>Sending\<close>

text \<open>A frame goes to the socket of the writer only.\<close>

lemma raw_send_sent:
  assumes "raw_send lost f c = (r, c')"
  shows "sent_frames c' \<subseteq> insert f (sent_frames c)" "cl_handles c' = cl_handles c" "cl_by_server c' = cl_by_server c"
    "cl_calls c' = cl_calls c" "cl_rc c' = cl_rc c" "cl_futures c' = cl_futures c" "cl_next_rid c' = cl_next_rid c"
proof -
  show "sent_frames c' \<subseteq> insert f (sent_frames c)"
    using assms sent_frames_write [of c _ f, THEN subsetD]
    by (auto simp: raw_send_def Let_def split: option.splits sum.splits if_splits)
qed (use assms in \<open>auto simp: raw_send_def Let_def split: option.splits sum.splits if_splits\<close>)

lemma net_frame_raw_send:
  assumes "raw_send lost f c = (r, c')" "get_or_none f ''rid'' = MNone"
  shows "net_frame c c'"
  using raw_send_sent [OF assms(1)] assms(2) by (auto simp: net_frame_def sub_reqs_def fresh_frames_def)

lemma rid_of_request [simp]: "get_or_none (dict_set (MStr ''rid'') v f) ''rid'' = v"
  by (simp add: get_or_none_def dict_simps)

lemma item_of_request [simp]: "k \<noteq> ''rid'' \<Longrightarrow> item (dict_set (MStr ''rid'') v f) k = item f k"
  by (simp add: item_def dict_simps)

lemma request_begin_net:
  assumes "request_begin lost f c = (r, c')"
  shows "net_frame c c' \<and> selectors c' = selectors c \<and> cl_rc c' = cl_rc c \<and> cl_handles c' = cl_handles c \<and>
    (\<forall>rq. r = Inr rq \<longrightarrow> rq = (cl_next_rid c, length (cl_futures c)) \<and> cl_futures c' = cl_futures c @ [None] \<and>
       sub_reqs c' = sub_reqs c \<and> cl_next_rid c' = cl_next_rid c + 1 \<and>
       sent_frames c' \<subseteq> insert (dict_set (MStr ''rid'') (MInt (cl_next_rid c)) f) (sent_frames c))"
proof (cases "cl_connected c")
  case False
  with assms show ?thesis by (auto simp: request_begin_def)
next
  case True
  let ?rid = "cl_next_rid c" and ?fut = "length (cl_futures c)"
  let ?c1 = "c\<lparr>cl_next_rid := ?rid + 1, cl_futures := cl_futures c @ [None], cl_pending := dict_set ?rid ?fut (cl_pending c)\<rparr>"
  obtain r1 c2 where send: "raw_send lost (dict_set (MStr ''rid'') (MInt ?rid) f) ?c1 = (r1, c2)" by fastforce
  note sent = raw_send_sent [OF send]
  have "sent_frames ?c1 = sent_frames c" by (simp add: sent_frames_def)
  with sent have c2: "net_frame c c2"
    by (auto simp: net_frame_def sub_reqs_def fresh_frames_def futures_fail_def nth_append)
  have "net_frame c (c2\<lparr>cl_pending := p\<rparr>)" for p using c2 by (rule net_frame_trans) simp
  with c2 sent assms True send \<open>sent_frames ?c1 = sent_frames c\<close> show ?thesis
    by (auto simp: request_begin_def Let_def sub_reqs_def selectors_def split: sum.splits)
qed

lemma net_inv_begin_call:
  assumes "net_inv st dn c" "\<And>rq a rq'. mk rq \<noteq> SubscribeCall a rq'"
  shows "net_inv st dn (begin_call mk failed (request_begin lost f c))"
proof -
  obtain r c' where rb: "request_begin lost f c = (r, c')" by fastforce
  have "net_frame c' (begin_call mk failed (r, c'))"
    using assms(2) by (auto simp: begin_call_def net_frame_def sub_reqs_def sent_frames_def split: sum.split) metis+
  then have "net_frame c (begin_call mk failed (r, c'))" using request_begin_net [OF rb] net_frame_trans by blast
  with net_frame_inv assms(1) rb show ?thesis by simp
qed

text \<open>A subscribe request that gets a handle waiting for it, in the list of calls or in the reconnect task.\<close>

lemma net_inv_add_request:
  assumes "net_inv st dn c" "request_begin lost (subscribe_frame sel policy) c = (Inr rq, c')"
    and "a < length (cl_handles c)" "cs_selector (cl_handles c ! a) = sel"
    and "sub_reqs c'' = insert (a, rq) (sub_reqs c')" "sent_frames c'' = sent_frames c'" "selectors c'' = selectors c'"
    and "cl_next_rid c'' = cl_next_rid c'" "cl_futures c'' = cl_futures c'" "cl_by_server c'' = cl_by_server c'"
    and "cl_handles c'' = cl_handles c'"
  shows "net_inv st dn c''"
proof -
  from request_begin_net [OF assms(2)]
  have rb: "net_frame c c'" "selectors c' = selectors c" "rq = (cl_next_rid c, length (cl_futures c))"
    "cl_futures c' = cl_futures c @ [None]" "sub_reqs c' = sub_reqs c"
    "sent_frames c' \<subseteq> insert (dict_set (MStr ''rid'') (MInt (cl_next_rid c)) (subscribe_frame sel policy)) (sent_frames c)"
    "cl_next_rid c' = cl_next_rid c + 1"
    by simp_all
  have c': "net_inv st dn c'" using net_frame_inv [OF rb(1) assms(1)] .
  have sel: "selectors c ! a = sel" using assms(3,4) by (simp add: selectors_def)
  have "asks_ok (selectors c'') (sent_frames c'') (sub_reqs c'')"
  proof (rule asks_okI)
    fix a' rq' G
    assume a: "(a', rq') \<in> sub_reqs c''" "G \<in> sent_frames c''" "get_or_none G ''rid'' = MInt (fst rq')"
    show "item G ''selector'' = Inr (MStr (selectors c'' ! a'))"
    proof (cases "(a', rq') \<in> sub_reqs c'")
      case True
      with a c' assms(6,7) show ?thesis by (auto simp: net_inv_def intro: asks_okD)
    next
      case False
      with a(1) assms(5) have rq': "a' = a" "rq' = rq" by auto
      have "G \<notin> sent_frames c"
        using assms(1) a(3) rb(3) rq'(2) by (auto simp: net_inv_def rids_ok_def)
      with a(2) assms(6) rb(6) have "G = dict_set (MStr ''rid'') (MInt (cl_next_rid c)) (subscribe_frame sel policy)" by auto
      then show ?thesis using sel rq'(1) rb(2) assms(7) by (simp add: subscribe_frame_def item_def)
    qed
  qed
  moreover have "grants_ok st (selectors c'') (cl_futures c'') (sub_reqs c'')"
  proof (rule grants_okI)
    fix a' rq' f sid
    assume a: "(a', rq') \<in> sub_reqs c''" "cl_futures c'' ! snd rq' = Some (Inr f)" "activates f sid"
    then have "rq' \<noteq> rq" using rb(3,4) assms(9) by auto
    with a assms(5) have "(a', rq') \<in> sub_reqs c'" by auto
    with a c' assms(7,9) show "subscribed st sid (selectors c'' ! a')" by (auto simp: net_inv_def intro: grants_okD)
  qed
  moreover have "issued_ok (cl_next_rid c'') (length (cl_futures c'')) (sub_reqs c'')"
    using c' assms(5,8,9) rb(3,4,7) by (simp add: net_inv_def issued_ok_def)
  ultimately show ?thesis using c' assms(6-11) by (simp add: net_inv_def)
qed

lemma net_inv_new_handle:
  assumes "net_inv st dn c" "sub_reqs c \<subseteq> {..< length (cl_handles c)} \<times> UNIV" "snd ` set (cl_by_server c) \<subseteq> {..< length (cl_handles c)}"
  shows "net_inv st dn (c\<lparr>cl_next_local := n, cl_handles := cl_handles c @ [new_handle i sel p], cl_subs := d\<rparr>)"
proof -
  let ?c = "c\<lparr>cl_next_local := n, cl_handles := cl_handles c @ [new_handle i sel p], cl_subs := d\<rparr>"
  have same: "sub_reqs ?c = sub_reqs c" "sent_frames ?c = sent_frames c" by (simp_all add: sub_reqs_def sent_frames_def)
  have sel: "selectors ?c ! a = selectors c ! a" if "a < length (cl_handles c)" for a
    using that by (simp add: selectors_def nth_append)
  have "asks_ok (selectors ?c) (sent_frames c) (sub_reqs c)"
  proof (rule asks_okI)
    fix a rq G
    assume a: "(a, rq) \<in> sub_reqs c" "G \<in> sent_frames c" "get_or_none G ''rid'' = MInt (fst rq)"
    have "asks_ok (selectors c) (sent_frames c) (sub_reqs c)" using assms(1) by (simp add: net_inv_def)
    moreover have "a < length (cl_handles c)" using a(1) assms(2) by auto
    ultimately show "item G ''selector'' = Inr (MStr (selectors ?c ! a))" using asks_okD [OF _ a] sel by simp
  qed
  moreover have "grants_ok st (selectors ?c) (cl_futures c) (sub_reqs c)"
  proof (rule grants_okI)
    fix a rq f sid
    assume a: "(a, rq) \<in> sub_reqs c" "cl_futures c ! snd rq = Some (Inr f)" "activates f sid"
    have "grants_ok st (selectors c) (cl_futures c) (sub_reqs c)" using assms(1) by (simp add: net_inv_def)
    moreover have "a < length (cl_handles c)" using a(1) assms(2) by auto
    ultimately show "subscribed st sid (selectors ?c ! a)" using grants_okD [OF _ a] sel by simp
  qed
  moreover have "routes_ok st (selectors ?c) (set (cl_by_server c))"
  proof (rule routes_okI)
    fix sid a
    assume "(sid, a) \<in> set (cl_by_server c)"
    then show "subscribed st sid (selectors ?c ! a)"
      using routes_okD [of st "selectors c" "set (cl_by_server c)" sid a] assms(1,3) sel by (force simp: net_inv_def)
  qed
  moreover have "handles_ok dn (cl_handles ?c)"
    using assms(1) by (auto simp: net_inv_def handles_ok_def holds_def new_handle_def)
  ultimately show ?thesis using assms(1) same by (simp add: net_inv_def)
qed

lemma refs_bounds:
  assumes "refs_inv c"
  shows "sub_reqs c \<subseteq> {..< length (cl_handles c)} \<times> UNIV" "snd ` set (cl_by_server c) \<subseteq> {..< length (cl_handles c)}"
proof -
  have held: "held c \<subseteq> {..< length (cl_handles c)}" using assms by (simp add: refs_inv_def)
  show "sub_reqs c \<subseteq> {..< length (cl_handles c)} \<times> UNIV" using held sub_reqs_held by fast
  show "snd ` set (cl_by_server c) \<subseteq> {..< length (cl_handles c)}" using held by (auto simp: held_def)
qed

lemma net_inv_subscribe_call:
  assumes "net_inv st dn c" "refs_inv c"
  shows "net_inv st dn (subscribe_call lost sel replay c)"
proof -
  let ?p = "case replay of None \<Rightarrow> FutureOnly | Some p \<Rightarrow> p" and ?local = "dec (cl_next_local c)" and ?a = "length (cl_handles c)"
  let ?c1 = "c\<lparr>cl_next_local := Suc (cl_next_local c), cl_handles := cl_handles c @ [new_handle ?local sel ?p],
      cl_subs := dict_set ?local ?a (cl_subs c)\<rparr>"
  have c1: "net_inv st dn ?c1" using net_inv_new_handle [OF assms(1) refs_bounds [OF assms(2)]] .
  obtain r c2 where rb: "request_begin lost (subscribe_frame sel ?p) ?c1 = (r, c2)" by fastforce
  have c2: "net_inv st dn c2" using request_begin_net [OF rb] net_frame_inv [OF _ c1] by blast
  show ?thesis
  proof (cases r)
    case (Inl e)
    with net_frame_inv [OF net_frame_fields(1) c2] show ?thesis
      by (simp add: subscribe_call_def client_subscribe_def Let_def rb)
  next
    case (Inr rq)
    have "net_inv st dn (c2\<lparr>cl_calls := cl_calls c2 @ [SubscribeCall ?a rq]\<rparr>)"
      by (rule net_inv_add_request [OF c1 rb [unfolded Inr], of ?a])
        (auto simp: nth_append new_handle_def sub_reqs_def sent_frames_def selectors_def)
    with Inr show ?thesis by (simp add: subscribe_call_def client_subscribe_def Let_def rb)
  qed
qed

section \<open>Replies\<close>

lemma net_inv_activate:
  assumes "net_inv st dn c" "\<And>sid. activates f sid \<Longrightarrow> subscribed st sid (selectors c ! a)" "activate_end a f c = (r, c')"
  shows "net_inv st dn c' \<and> selectors c' = selectors c"
proof (cases "bind_result (check_reply f) (\<lambda>_. item f ''subscription_id'')")
  case (Inl e)
  with assms show ?thesis by (auto simp: activate_end_def)
next
  case (Inr v)
  let ?c1 = "upd_handle a (\<lambda>h. h\<lparr>cs_server_sid := Some (mp_str v)\<rparr>) c"
  have f1: "net_frame c ?c1" by (rule net_frame_upd) (simp_all add: holds_def)
  then have sel: "selectors ?c1 = selectors c" by (simp add: net_frame_def shrink_selectors)
  have "net_inv st dn ?c1" using net_frame_inv [OF f1 assms(1)] .
  moreover have "activates f (mp_str v)"
    using Inr by (auto simp: activates_def check_reply_def bind_result_Inr_iff split: if_splits)
  then have "subscribed st (mp_str v) (selectors c ! a)" by (rule assms(2))
  then have "routes_ok st (selectors c) (set (dict_set (mp_str v) a (cl_by_server ?c1)))"
    if "routes_ok st (selectors c) (set (cl_by_server ?c1))"
    using that by (auto simp: routes_ok_def dest!: set_dict_setD)
  ultimately have "net_inv st dn (?c1\<lparr>cl_by_server := dict_set (mp_str v) a (cl_by_server ?c1)\<rparr>)"
    using sel by (simp add: net_inv_def sub_reqs_def sent_frames_def selectors_def)
  with assms(3) Inr sel show ?thesis by (auto simp: activate_end_def Let_def selectors_def)
qed

text \<open>The reply a request has got, if it activates its handle.\<close>

lemma granted_reply:
  assumes "net_inv st dn c" "(a, rq) \<in> sub_reqs c" "request_end rq c = Some (Inr f, c1)" "activates f sid"
  shows "subscribed st sid (selectors c1 ! a)"
proof -
  have "cl_futures c ! snd rq = Some (Inr f)" "selectors c1 = selectors c"
    using assms(3) by (auto simp: request_end_def forget_request_def selectors_def split: option.splits)
  with grants_okD [OF _ assms(2) _ assms(4)] assms(1) show ?thesis by (auto simp: net_inv_def)
qed

lemma request_end_net: "request_end rq c = Some (r, c1) \<Longrightarrow> net_frame c c1"
  by (auto simp: request_end_def split: option.splits)

lemma net_inv_resume_call:
  assumes "net_inv st dn c" "i < length (cl_calls c)"
  shows "net_inv st dn (resume_call i c)"
proof (cases "request_end (call_request (cl_calls c ! i)) c")
  case None
  with assms(1) show ?thesis by (simp add: resume_call_def)
next
  case (Some p)
  obtain r c1 where p: "p = (r, c1)" by fastforce
  obtain res c2 where e: "call_end (cl_calls c ! i) r c1 = (res, c2)" by fastforce
  have c1: "net_inv st dn c1" using net_frame_inv [OF request_end_net assms(1)] Some p by blast
  have "net_inv st dn c2"
  proof (cases "\<exists>a rq f. cl_calls c ! i = SubscribeCall a rq \<and> r = Inr f")
    case True
    then obtain a rq f where x: "cl_calls c ! i = SubscribeCall a rq" "r = Inr f" by blast
    then have rq: "(a, rq) \<in> sub_reqs c" using assms(2) nth_mem [of i "cl_calls c"] by (simp add: sub_reqs_def)
    obtain r2 where "activate_end a f c1 = (r2, c2)" using e x by (auto split: prod.splits sum.splits)
    with net_inv_activate [OF c1 granted_reply [OF assms(1) rq]] Some p x show ?thesis by auto
  next
    case False
    then have "c2 = c1" using e by (cases "cl_calls c ! i"; cases r) auto
    with c1 show ?thesis by simp
  qed
  then have "net_inv st dn (drop_call i (c2\<lparr>cl_results := cl_results c2 @ [res]\<rparr>))"
    using net_frame_inv net_frame_trans [OF net_frame_fields(1) net_frame_drop_call] by blast
  then show ?thesis using Some p e by (simp add: resume_call_def)
qed

section \<open>The reconnect task\<close>

lemma net_frame_open:
  assumes "open_connection outcome c = (r, c')"
  shows "net_frame c c'"
  using assms
  by (auto simp: open_connection_def net_frame_def sub_reqs_def sent_frames_def fresh_frames_def HELLO_FRAME_def
      get_or_none_def split: sum.splits)

lemma net_frame_give_up: "net_frame c (give_up c)"
proof -
  have "net_frame (close_handles c) ((close_handles c)\<lparr>cl_subs := []\<rparr>)" by simp
  moreover have "net_frame ((close_handles c)\<lparr>cl_subs := []\<rparr>) (give_up c)"
    using net_frame_rc [of RcNone "(close_handles c)\<lparr>cl_subs := []\<rparr>"] by (simp add: give_up_def)
  ultimately show ?thesis using net_frame_trans net_frame_close_handles by blast
qed

lemma net_frame_rc_test: "net_frame c (rc_test n c)"
  by (auto simp: rc_test_def net_frame_give_up net_frame_rc split: sum.split)

lemma net_frame_rc_open: "net_frame c (rc_open n outcome c)"
proof -
  obtain r c' where o: "open_connection outcome c = (r, c')" by fastforce
  with net_frame_trans [OF net_frame_open [OF o] net_frame_rc] show ?thesis
    by (simp add: rc_open_def split: sum.split)
qed

lemma net_frame_resume_failed: "net_frame c (resume_failed n e c)"
  by (simp add: resume_failed_def net_frame_rc)

lemma net_inv_rc_resume:
  assumes "net_inv st dn c" "refs_inv c" "cl_rc c = RcResume n as"
  shows "net_inv st dn (rc_resume lost n as c)"
proof (cases as)
  case Nil
  with net_frame_inv [OF net_frame_rc assms(1)] show ?thesis by simp
next
  case (Cons a as')
  have "a \<in> held c" using assms(3) Cons by (simp add: held_def)
  then have a: "a < length (cl_handles c)" using assms(2) by (auto simp: refs_inv_def)
  let ?h = "cl_handles c ! a"
  obtain r c' where rb: "request_begin lost (subscribe_frame (cs_selector ?h) (resume_policy ?h)) c = (r, c')" by fastforce
  have c': "net_frame c c'" "cl_rc c' = cl_rc c" using request_begin_net [OF rb] by simp_all
  show ?thesis
  proof (cases r)
    case (Inl e)
    with net_frame_inv [OF net_frame_trans [OF c'(1) net_frame_resume_failed] assms(1)] Cons rb show ?thesis
      by (simp add: Let_def)
  next
    case (Inr rq)
    have "net_inv st dn (c'\<lparr>cl_rc := RcReply n a rq as'\<rparr>)"
      by (rule net_inv_add_request [OF assms(1) rb [unfolded Inr] a refl])
        (use c'(2) assms(3) in \<open>auto simp: sub_reqs_def sent_frames_def selectors_def\<close>)
    with Cons rb Inr show ?thesis by (simp add: Let_def)
  qed
qed

lemma net_inv_rc_reply:
  assumes "net_inv st dn c" "cl_rc c = RcReply n a rq as"
  shows "net_inv st dn (rc_reply n a rq as c)"
proof (cases "request_end rq c")
  case None
  with assms(1) show ?thesis by (simp add: rc_reply_def)
next
  case (Some p)
  obtain r c1 where p: "p = (r, c1)" by fastforce
  have rq: "(a, rq) \<in> sub_reqs c" using assms(2) by (simp add: sub_reqs_def)
  have c1: "net_inv st dn c1" using net_frame_inv [OF request_end_net assms(1)] Some p by blast
  show ?thesis
  proof (cases r)
    case (Inl e)
    with Some p net_frame_inv [OF net_frame_resume_failed c1] show ?thesis by (simp add: rc_reply_def)
  next
    case (Inr f)
    obtain r2 c2 where act: "activate_end a f c1 = (r2, c2)" by fastforce
    have "net_inv st dn c2" using net_inv_activate [OF c1 granted_reply [OF assms(1) rq, of f c1] act] Some p Inr by simp
    then have "net_inv st dn (resume_failed n e c2)" "net_inv st dn (c2\<lparr>cl_rc := RcResume n as\<rparr>)" for e
      using net_frame_inv net_frame_resume_failed net_frame_rc by blast+
    then show ?thesis using Some p Inr act by (simp add: rc_reply_def split: sum.split)
  qed
qed

section \<open>Reading\<close>

lemma net_inv_resolve:
  assumes "net_inv st dn c" "req_inv c" "frame_ok st (sent_frames c) f"
    and "has_op f REGISTER_OK \<or> has_op f PUBLISH_RESULT \<or> has_op f SUBSCRIBE_OK \<or> has_op f ERROR"
  shows "net_inv st dn (resolve_reply f c)"
proof (cases "resolve_reply f c = c")
  case True
  with assms(1) show ?thesis by simp
next
  case False
  then obtain rid fut where res: "mp_rid (get_or_none f ''rid'') = Some rid" "dict_get (cl_pending c) rid = Some fut"
    "resolve_reply f c = c\<lparr>cl_futures := (cl_futures c)[fut := Some (Inr f)]\<rparr>"
    by (auto simp: resolve_reply_def split: option.splits if_splits)
  have rid: "rid = int fut + 1"
    using assms(2) res(2) keyedD(2) unfolding req_inv_def reqs_ok_def by blast
  have "grants_ok st (selectors c) ((cl_futures c)[fut := Some (Inr f)]) (sub_reqs c)"
  proof (rule grants_okI)
    fix a rq f' sid
    assume a: "(a, rq) \<in> sub_reqs c" "(cl_futures c)[fut := Some (Inr f)] ! snd rq = Some (Inr f')" "activates f' sid"
    show "subscribed st sid (selectors c ! a)"
    proof (cases "snd rq = fut")
      case False
      with a grants_okD [OF _ a(1) _ a(3)] assms(1) show ?thesis by (auto simp: net_inv_def)
    next
      case True
      have "rq \<in> set (requests c)" using a(1) by (force simp: sub_reqs_def requests_def)
      then have "fst rq = int (snd rq) + 1" using assms(2) by (simp add: req_inv_def reqs_ok_def waits_def)
      then have rq: "fst rq = rid" using True rid by simp
      have f': "f' = f" using a(2) True issuedD [OF assms(1) a(1)] by simp
      then obtain v where v: "\<not> has_op f ERROR" "item f ''subscription_id'' = Inr v" "sid = mp_str v"
        using a(3) by (auto simp: activates_def)
      with assms(3,4) have "granted st (sent_frames c) (get_or_none f ''rid'') v" by (auto simp: frame_ok_def)
      then obtain G sel sid' where G: "G \<in> sent_frames c" "get_or_none G ''rid'' = get_or_none f ''rid''"
        "item G ''selector'' = Inr (MStr sel)" "v = MStr sid'" "subscribed st sid' sel" by (auto simp: granted_def)
      have "get_or_none G ''rid'' = MInt rid"
        using bspec [OF _ G(1), of "\<lambda>G. get_or_none G ''rid'' = MNone \<or> (\<exists>n < cl_next_rid c. get_or_none G ''rid'' = MInt n)"]
          assms(1) G(2) res(1) by (auto simp: net_inv_def rids_ok_def)
      then have "item G ''selector'' = Inr (MStr (selectors c ! a))"
        using asks_okD [OF _ a(1) G(1)] assms(1) rq by (simp add: net_inv_def)
      with G v(3) show ?thesis by simp
    qed
  qed
  with assms(1) show ?thesis by (simp add: res(3) net_inv_def sub_reqs_def sent_frames_def selectors_def)
qed

lemma net_inv_route:
  assumes "net_inv st dn c" "distinct (map fst st)" "frame_ok st ups f \<and> f \<in> dn" "has_op f DELIVERY" "route_delivery f c = (r, c')"
    and "snd ` set (cl_by_server c) \<subseteq> {..< length (cl_handles c)}"
  shows "net_inv st dn c'"
proof -
  obtain d i where f: "f = delivery_to_wire d" "good_delivery st i d" using assms(3,4) by (auto simp: frame_ok_def)
  show ?thesis
  proof (cases "dict_get (cl_by_server c) (dl_sid d)")
    case None
    with assms(1,5) show ?thesis by (simp add: route_delivery_def f(1) delivery_wire_roundtrip)
  next
    case (Some a)
    then have in_table: "(dl_sid d, a) \<in> set (cl_by_server c)" by (rule map_of_SomeD)
    have c': "c' = upd_handle a (se_push d) c" using assms(5) Some by (simp add: route_delivery_def f(1) delivery_wire_roundtrip)
    have a: "a < length (cl_handles c)" using assms(6) in_table by force
    have "subscribed st (dl_sid d) (selectors c ! a)"
      using assms(1) in_table routes_okD by (auto simp: net_inv_def)
    from subscribed_unique [OF assms(2) this f(2)]
    have w: "wanted (cs_selector (cl_handles c ! a)) d" "delivery_to_wire d \<in> dn"
      using a assms(3) f(1) by (simp_all add: wanted_def selectors_def)
    have "handles_ok dn (cl_handles c')"
      using assms(1) a w set_update_subset_insert [of "cl_handles c" a "se_push d (cl_handles c ! a)"] nth_mem [OF a]
      by (fastforce simp: c' upd_handle_def net_inv_def handles_ok_def holds_def se_push_def)
    moreover have "selectors c' = selectors c"
      by (simp add: c' upd_handle_def selectors_def map_update_same)
    ultimately show ?thesis using assms(1) by (simp add: c' upd_handle_def net_inv_def sub_reqs_def sent_frames_def)
  qed
qed

lemma net_frame_close_one [simp]: "net_frame c (upd_handle a se_close c)"
  by (rule net_frame_upd) simp_all

lemma net_frame_sub_closed: "net_frame c (sub_closed f c)"
proof (cases "dict_get (cl_by_server c) (mp_str (get_or_none f ''subscription_id''))")
  case None
  then show ?thesis by (simp add: sub_closed_def)
next
  case (Some a)
  let ?c1 = "c\<lparr>cl_by_server := dict_pop (mp_str (get_or_none f ''subscription_id'')) (cl_by_server c)\<rparr>"
  have "net_frame c (?c1\<lparr>cl_subs := dict_pop (cs_local_id (cl_handles c ! a)) (cl_subs ?c1)\<rparr>)"
    by (rule net_frame_trans [OF net_frame_fields(7) net_frame_fields(3)])
  from net_frame_trans [OF this net_frame_close_one] Some show ?thesis by (simp add: sub_closed_def Let_def)
qed

lemma net_frame_on_disconnect: "net_frame c (on_disconnect c)"
proof -
  let ?c0 = "c\<lparr>cl_connected := False, cl_by_server := []\<rparr>"
  let ?c2 = "fail_pending (ConnectionError ''connection lost'') (close_writer (cancel_heartbeat ?c0))"
  have "net_frame c ?c0" "net_frame ?c0 (cancel_heartbeat ?c0)"
    "net_frame (cancel_heartbeat ?c0) (close_writer (cancel_heartbeat ?c0))"
    "net_frame (close_writer (cancel_heartbeat ?c0)) ?c2" by simp_all
  then have c2: "net_frame c ?c2" using net_frame_trans by blast
  have "net_frame c (close_handles ?c2)" "net_frame c (?c2\<lparr>cl_rc := RcTest 0\<rparr>)"
    using net_frame_trans [OF c2 net_frame_close_handles] net_frame_trans [OF c2 net_frame_rc] by simp_all
  with c2 show ?thesis by (simp add: on_disconnect_def Let_def)
qed

lemma net_inv_read_loop:
  assumes "net_inv st dn c" "client_inv c" "distinct (map fst st)"
    and "\<And>f. outcome = Inr f \<Longrightarrow> frame_ok st (sent_frames c) f \<and> f \<in> dn"
  shows "net_inv st dn (read_loop k outcome c)"
proof -
  have ended: "net_inv st dn (on_disconnect (c'\<lparr>cl_conns := (cl_conns c')[k := (cl_conns c' ! k)\<lparr>cc_reading := False\<rparr>]\<rparr>))"
    if "net_inv st dn c'" for c'
    using net_frame_inv [OF net_frame_trans [OF net_frame_conn net_frame_on_disconnect] that] by simp
  show ?thesis
  proof (cases outcome)
    case (Inl e)
    with ended [OF assms(1)] show ?thesis by (simp add: read_loop_def)
  next
    case (Inr f)
    obtain r c' where o: "on_frame f c = (r, c')" by fastforce
    have "net_inv st dn c'"
      using o net_inv_resolve [OF assms(1) _ assms(4) [OF Inr, THEN conjunct1]] net_inv_route [OF assms(1,3) assms(4) [OF Inr]]
        net_frame_inv [OF net_frame_sub_closed assms(1)] assms(1,2) refs_bounds(2) [of c]
      by (auto simp: on_frame_def client_inv_def split: if_splits)
    with ended o Inr show ?thesis by (simp add: read_loop_def split: sum.split)
  qed
qed

section \<open>Every action\<close>

lemma net_frame_client_ack: "net_frame c (snd (client_ack lost a d c))"
proof -
  let ?c1 = "upd_handle a (note_ack (msg_created_at (dl_message d))) c"
  obtain r c' where send: "raw_send lost [(MStr ''op'', MStr (op_str ACK)), (MStr ''delivery_id'', MStr (dl_id d))] ?c1 = (r, c')"
    by fastforce
  have "net_frame c ?c1" by (rule net_frame_upd) simp_all
  from net_frame_trans [OF this net_frame_raw_send [OF send]] send show ?thesis
    by (simp add: client_ack_def get_or_none_def)
qed

lemma net_frame_client_nack: "net_frame c (snd (client_nack lost a d c))"
proof -
  obtain r c' where send: "raw_send lost [(MStr ''op'', MStr (op_str NACK)), (MStr ''delivery_id'', MStr (dl_id d))] c = (r, c')"
    by fastforce
  from net_frame_raw_send [OF send] send show ?thesis by (simp add: client_nack_def get_or_none_def)
qed

lemma net_frame_client_unsubscribe: "net_frame c (snd (client_unsubscribe lost a c))"
proof -
  let ?c1 = "c\<lparr>cl_subs := dict_pop (cs_local_id (cl_handles c ! a)) (cl_subs c)\<rparr>"
  have c1: "net_frame c ?c1" by simp
  show ?thesis
  proof (cases "cs_server_sid (cl_handles c ! a)")
    case None
    with net_frame_trans [OF c1 net_frame_close_one] show ?thesis by (simp add: client_unsubscribe_def Let_def)
  next
    case (Some sid)
    let ?c2 = "?c1\<lparr>cl_by_server := dict_pop sid (cl_by_server ?c1)\<rparr>"
    let ?f = "[(MStr ''op'', MStr (op_str UNSUBSCRIBE)), (MStr ''subscription_id'', MStr sid)]"
    obtain r c3 where send: "raw_send lost ?f ?c2 = (r, c3)" by fastforce
    have "net_frame ?c2 c3" by (rule net_frame_raw_send [OF send]) (simp add: get_or_none_def)
    with c1 net_frame_fields(7) have c3: "net_frame c c3" using net_frame_trans by blast
    with net_frame_trans [OF c3 net_frame_close_one [where a = a]] Some send show ?thesis
      by (auto simp: client_unsubscribe_def Let_def split: sum.split)
  qed
qed

lemma net_frame_heartbeat: "net_frame c (client_heartbeat lost k c)"
proof -
  obtain r c' where send: "raw_send lost HEARTBEAT_FRAME c = (r, c')" by fastforce
  have c': "net_frame c c'" by (rule net_frame_raw_send [OF send]) (simp add: HEARTBEAT_FRAME_def get_or_none_def)
  have "net_frame c (c'\<lparr>cl_conns := (cl_conns c')[k := (cl_conns c' ! k)\<lparr>cc_heartbeat := False\<rparr>]\<rparr>)"
    by (rule net_frame_trans [OF c' net_frame_conn]) simp
  with c' send show ?thesis by (simp add: client_heartbeat_def split: sum.split)
qed

lemma net_frame_consume:
  assumes "consumer_action x"
  shows "net_frame c (upd_handle a (\<lambda>h. snd (se_act x h)) c)"
proof (rule net_frame_upd)
  show "cs_selector (snd (se_act x h)) = cs_selector h" "holds (snd (se_act x h)) \<subseteq> holds h" for h
    using assms
    by (cases x; auto simp: anext_begin_def get_runs_def anext_wakes_def anext_cancel_def holds_def
        split: get_task.split list.split)+
qed

lemma net_frame_close: "net_frame c (client_close c)"
proof -
  let ?c0 = "c\<lparr>cl_closed := True, cl_rc := RcNone\<rparr>"
  let ?c1 = "(close_handles (cancel_heartbeat ?c0))\<lparr>cl_subs := [], cl_by_server := []\<rparr>"
  let ?c2 = "fail_pending (ConnectionError ''client closed'') ?c1"
  have "net_frame c ?c0" by (auto simp: net_frame_def sub_reqs_def sent_frames_def)
  moreover have "net_frame ?c0 (cancel_heartbeat ?c0)" "net_frame (cancel_heartbeat ?c0) (close_handles (cancel_heartbeat ?c0))"
    "net_frame (close_handles (cancel_heartbeat ?c0)) ?c1" "net_frame ?c1 ?c2" "net_frame ?c2 (close_writer ?c2)" by simp_all
  ultimately have "net_frame c (close_writer ?c2)" using net_frame_trans by blast
  then show ?thesis by (simp add: client_close_def)
qed

lemma net_inv_act:
  assumes "net_inv st dn c" "client_inv c" "distinct (map fst st)"
    and "\<And>k f. x = ReadFrame k (Inr f) \<Longrightarrow> frame_ok st (sent_frames c) f \<and> f \<in> dn"
  shows "net_inv st dn (client_act x c)"
proof -
  have refs: "refs_inv c" using assms(2) by (simp add: client_inv_def)
  show ?thesis
  proof (cases x)
    case (ReadFrame k outcome)
    then show ?thesis using assms(1,4) net_inv_read_loop [OF assms(1-3)] by auto
  next
    case (RcTurn lost outcome)
    then show ?thesis
      using assms(1) net_frame_inv [OF net_frame_rc_test assms(1)] net_frame_inv [OF net_frame_rc_open assms(1)]
        net_inv_rc_resume [OF assms(1) refs] net_inv_rc_reply [OF assms(1)]
      by (simp split: rc_task.split)
  next
    case (CancelCall i)
    then show ?thesis
      using assms(1) net_frame_inv [OF net_frame_trans [OF net_frame_fields(4) net_frame_drop_call] assms(1)]
      by (simp add: cancel_call_def)
  qed (use assms(1) refs net_frame_inv [OF _ assms(1)] in
      \<open>auto simp: client_register_def client_publish_def net_frame_client_ack net_frame_client_nack
        net_frame_client_unsubscribe net_frame_heartbeat net_frame_consume net_frame_close
       intro: net_inv_begin_call net_inv_subscribe_call net_inv_resume_call\<close>)
qed

lemma net_inv_init: "net_inv st dn (client_init reconnect base cap limit packb)"
  by (simp add: net_inv_def client_init_def rids_ok_def asks_ok_def grants_ok_def routes_ok_def handles_ok_def
      issued_ok_def sent_frames_def sub_reqs_def)

section \<open>What was sent stays sent\<close>

text \<open>Without the network's help the client opens no socket, and what was written to one is only extended.\<close>

definition sockets_keep :: "cconn list \<Rightarrow> cconn list \<Rightarrow> bool" where
  "sockets_keep ks ks' \<longleftrightarrow>
     length ks' = length ks \<and> (\<forall>i < length ks. \<exists>fs. cc_sent (ks' ! i) = cc_sent (ks ! i) @ fs)"

lemma sockets_keep_refl [simp]: "sockets_keep ks ks"
  by (simp add: sockets_keep_def)

lemma sockets_keep_trans: "sockets_keep ks ls \<Longrightarrow> sockets_keep ls ms \<Longrightarrow> sockets_keep ks ms"
  unfolding sockets_keep_def by (metis append_assoc)

lemma sockets_keep_update: "cc_sent k' = cc_sent (ks ! i) @ fs \<Longrightarrow> sockets_keep ks (ks[i := k'])"
  by (cases "i < length ks") (auto simp: sockets_keep_def nth_list_update list_update_beyond)

lemma sockets_keep_sent:
  assumes "sockets_keep (cl_conns c) (cl_conns c')"
  shows "sent_frames c \<subseteq> sent_frames c'"
proof
  fix G
  assume "G \<in> sent_frames c"
  then obtain k where "k \<in> set (cl_conns c)" "G \<in> set (cc_sent k)" by (auto simp: sent_frames_def)
  then obtain i where i: "i < length (cl_conns c)" "G \<in> set (cc_sent (cl_conns c ! i))"
    by (auto simp: in_set_conv_nth [of k])
  with assms obtain fs where "i < length (cl_conns c')" "cc_sent (cl_conns c' ! i) = cc_sent (cl_conns c ! i) @ fs"
    by (auto simp: sockets_keep_def)
  with i(2) have "cl_conns c' ! i \<in> set (cl_conns c')" "G \<in> set (cc_sent (cl_conns c' ! i))" by auto
  then show "G \<in> sent_frames c'" unfolding sent_frames_def by blast
qed

lemma conns_same [simp]:
  "cl_conns (upd_handle a g c) = cl_conns c" "cl_conns (close_handles c) = cl_conns c"
  "cl_conns (fail_pending e c) = cl_conns c" "cl_conns (forget_request rq c) = cl_conns c"
  "cl_conns (drop_call i c) = cl_conns c" "cl_conns (resolve_reply f c) = cl_conns c" "cl_conns (sub_closed f c) = cl_conns c"
  "cl_conns (give_up c) = cl_conns c" "cl_conns (rc_test n c) = cl_conns c" "cl_conns (resume_failed n e c) = cl_conns c"
  by (auto simp: upd_handle_def close_handles_def fail_pending_def forget_request_def drop_call_def resolve_reply_def
      sub_closed_def give_up_def rc_test_def resume_failed_def Let_def split: option.split sum.split)

lemma keeps_raw_send: "raw_send lost f c = (r, c') \<Longrightarrow> sockets_keep (cl_conns c) (cl_conns c')"
  by (auto simp: raw_send_def Let_def sockets_keep_update [where fs = "[f]"] split: option.splits sum.splits if_splits)

lemma keeps_snd_raw_send: "sockets_keep (cl_conns c) (cl_conns (snd (raw_send lost f c)))"
  using keeps_raw_send by (metis prod.collapse)

lemma keeps_request_begin: "request_begin lost f c = (r, c') \<Longrightarrow> sockets_keep (cl_conns c) (cl_conns c')"
  by (auto simp: request_begin_def Let_def split: if_splits sum.splits prod.splits dest!: keeps_raw_send)

lemma keeps_writer [simp]:
  "sockets_keep (cl_conns c) (cl_conns (close_writer c))" "sockets_keep (cl_conns c) (cl_conns (cancel_heartbeat c))"
  by (auto simp: close_writer_def cancel_heartbeat_def split: option.split intro: sockets_keep_update [where fs = "[]"])

lemma keeps_activate: "activate_end a f c = (r, c') \<Longrightarrow> cl_conns c' = cl_conns c"
  by (auto simp: activate_end_def Let_def split: sum.splits)

lemma keeps_on_disconnect: "sockets_keep (cl_conns c) (cl_conns (on_disconnect c))"
proof -
  let ?c0 = "c\<lparr>cl_connected := False, cl_by_server := []\<rparr>"
  have "sockets_keep (cl_conns ?c0) (cl_conns (close_writer (cancel_heartbeat ?c0)))"
    using sockets_keep_trans [OF keeps_writer(2) keeps_writer(1)] .
  then show ?thesis by (simp add: on_disconnect_def Let_def)
qed

lemma on_frame_conns: "on_frame f c = (r, c') \<Longrightarrow> cl_conns c' = cl_conns c"
  by (auto simp: on_frame_def route_delivery_def split: if_splits sum.splits option.splits)

lemma keeps_read_loop: "sockets_keep (cl_conns c) (cl_conns (read_loop k outcome c))"
proof -
  have ended: "sockets_keep (cl_conns c) (cl_conns (on_disconnect (c'\<lparr>cl_conns := (cl_conns c')[k := (cl_conns c' ! k)\<lparr>cc_reading := False\<rparr>]\<rparr>)))"
    if "cl_conns c' = cl_conns c" for c'
    using that keeps_on_disconnect [of "c'\<lparr>cl_conns := (cl_conns c')[k := (cl_conns c' ! k)\<lparr>cc_reading := False\<rparr>]\<rparr>"]
      sockets_keep_update [of "(cl_conns c' ! k)\<lparr>cc_reading := False\<rparr>" "cl_conns c'" k "[]"]
    by (auto intro: sockets_keep_trans)
  show ?thesis
    using ended by (auto simp: read_loop_def Let_def split: sum.split prod.split dest: on_frame_conns)
qed

lemma keeps_close: "sockets_keep (cl_conns c) (cl_conns (client_close c))"
proof -
  let ?c0 = "c\<lparr>cl_closed := True, cl_rc := RcNone\<rparr>"
  let ?c1 = "fail_pending (ConnectionError ''client closed'') ((close_handles (cancel_heartbeat ?c0))\<lparr>cl_subs := [], cl_by_server := []\<rparr>)"
  have "sockets_keep (cl_conns ?c0) (cl_conns ?c1)" using keeps_writer(2) [of ?c0] by simp
  then have "sockets_keep (cl_conns c) (cl_conns (close_writer ?c1))" using sockets_keep_trans [OF _ keeps_writer(1)] by simp
  then show ?thesis by (simp add: client_close_def)
qed

lemma request_end_conns: "request_end rq c = Some (r, c1) \<Longrightarrow> cl_conns c1 = cl_conns c"
  by (auto simp: request_end_def split: option.splits)

lemma keeps_rc_reply: "sockets_keep (cl_conns c) (cl_conns (rc_reply n a rq as c))"
  by (auto simp: rc_reply_def split: option.split sum.split prod.split dest!: keeps_activate request_end_conns)

lemma keeps_call_end: "call_end x r c = (res, c') \<Longrightarrow> cl_conns c' = cl_conns c"
  by (cases "(x, r, c)" rule: call_end.cases) (auto split: prod.splits sum.splits dest: keeps_activate)

lemma keeps_resume_call: "sockets_keep (cl_conns c) (cl_conns (resume_call i c))"
  by (auto simp: resume_call_def split: option.split prod.split dest!: keeps_call_end request_end_conns)

lemma keeps_rc_resume: "sockets_keep (cl_conns c) (cl_conns (rc_resume lost n as c))"
  by (cases as) (auto simp: Let_def split: prod.split sum.split dest: keeps_request_begin)

lemma keeps_rc_open: "sockets_keep (cl_conns c) (cl_conns (rc_open n (Inl e) c))"
  by (simp add: rc_open_def open_connection_def)

lemma keeps_client_unsubscribe: "sockets_keep (cl_conns c) (cl_conns (snd (client_unsubscribe lost a c)))"
  by (auto simp: client_unsubscribe_def Let_def split: option.split sum.split prod.split dest: keeps_raw_send)

lemma keeps_heartbeat: "sockets_keep (cl_conns c) (cl_conns (client_heartbeat lost k c))"
proof -
  obtain r c' where send: "raw_send lost HEARTBEAT_FRAME c = (r, c')" by fastforce
  have "sockets_keep (cl_conns c') ((cl_conns c')[k := (cl_conns c' ! k)\<lparr>cc_heartbeat := False\<rparr>])"
    by (rule sockets_keep_update [where fs = "[]"]) simp
  with keeps_raw_send [OF send] send sockets_keep_trans show ?thesis
    by (auto simp: client_heartbeat_def split: sum.split)
qed

lemma keeps_act:
  assumes "\<And>lost w. x \<noteq> RcTurn lost (Inr w)"
  shows "sockets_keep (cl_conns c) (cl_conns (client_act x c))"
proof (cases x)
  case (Subscribe lost sel replay)
  then show ?thesis
    by (auto simp: subscribe_call_def client_subscribe_def Let_def split: prod.split sum.split dest!: keeps_request_begin)
next
  case (RcTurn lost outcome)
  then show ?thesis
    using assms by (cases outcome) (auto simp: keeps_rc_open keeps_rc_resume keeps_rc_reply split: rc_task.split)
qed (auto simp: client_register_def client_publish_def begin_call_def keeps_resume_call keeps_read_loop cancel_call_def
      client_ack_def client_nack_def keeps_snd_raw_send keeps_snd_raw_send [of "upd_handle _ _ c", simplified] keeps_client_unsubscribe keeps_heartbeat keeps_close
    split: prod.split sum.split dest!: keeps_request_begin dest: keeps_raw_send)

end
