(* ===== verification/Network.thy ===== *)
theory Network
  imports Net_Client Server_Props
begin

text \<open>
  One client and the server, joined by the frames that are on their way.  A link says which
  connection of the server a socket of the client is, and how much each side has read of what
  the other wrote: frames arrive complete and in order until a side sees the connection lost
  (\<open>frame_stream_roundtrip\<close> of \<open>Wire\<close> is why frames stand for their bytes).  The server's other
  connections send it whatever they like.
\<close>

section \<open>The network\<close>

record link =
  lk_conn :: nat
  lk_up :: nat
  lk_down :: nat

record 'd net =
  nt_client :: client
  nt_server :: "'d server"
  nt_links :: "link list"

definition net_start :: "client \<Rightarrow> 'd server \<Rightarrow> 'd net" where
  "net_start c sr = \<lparr>nt_client = c, nt_server = sr, nt_links = []\<rparr>"

text \<open>
  \<open>_open\<close> with both of its ends: the server accepts, reads the hello and answers, and the client
  goes on with the answer; \<open>connect\<close> opens the first socket, the reconnect task the others.
\<close>

definition may_open :: "client \<Rightarrow> bool" where
  "may_open c \<longleftrightarrow> (case cl_rc c of RcSleep n d \<Rightarrow> True | _ \<Rightarrow> cl_conns c = [])"

definition client_opens :: "frame result \<Rightarrow> client \<Rightarrow> client" where
  "client_opens answer c =
     (case cl_rc c of RcSleep n d \<Rightarrow> rc_open n answer c | _ \<Rightarrow> snd (open_connection answer c))"

definition open_link :: "(mpval \<Rightarrow> byte list result) \<Rightarrow> bool \<Rightarrow> real \<Rightarrow> 'd net \<Rightarrow> 'd net" where
  "open_link packb lost now n =
     (let i = length (sr_conns (nt_server n));
          sr = sr_run [Accept packb now, Frame i lost now (Inr HELLO_FRAME)] (nt_server n);
          answer = (case cn_sent (sr_conns sr ! i) of [] \<Rightarrow> Inl IncompleteReadError | F # _ \<Rightarrow> Inr F);
          c = client_opens answer (nt_client n)
      in n\<lparr>nt_client := c, nt_server := sr,
           nt_links := (if length (cl_conns (nt_client n)) < length (cl_conns c)
                        then nt_links n @ [\<lparr>lk_conn = i, lk_up = 1, lk_down = 1\<rparr>] else nt_links n)\<rparr>)"

definition upward :: "nat \<Rightarrow> bool \<Rightarrow> real \<Rightarrow> 'd net \<Rightarrow> 'd net" where
  "upward k lost now n =
     (let l = nt_links n ! k; fs = cc_sent (cl_conns (nt_client n) ! k) in
      if lk_up l < length fs \<and> cn_reader (sr_conns (nt_server n) ! lk_conn l) = Reading
      then n\<lparr>nt_server := sr_act (Frame (lk_conn l) lost now (Inr (fs ! lk_up l))) (nt_server n),
             nt_links := (nt_links n)[k := l\<lparr>lk_up := Suc (lk_up l)\<rparr>]\<rparr>
      else n)"

definition downward :: "nat \<Rightarrow> 'd net \<Rightarrow> 'd net" where
  "downward k n =
     (let l = nt_links n ! k; fs = cn_sent (sr_conns (nt_server n) ! lk_conn l) in
      if lk_down l < length fs \<and> cc_reading (cl_conns (nt_client n) ! k)
      then n\<lparr>nt_client := client_act (ReadFrame k (Inr (fs ! lk_down l))) (nt_client n),
             nt_links := (nt_links n)[k := l\<lparr>lk_down := Suc (lk_down l)\<rparr>]\<rparr>
      else n)"

text \<open>
  What a side can do on its own: everything but reading a frame of the other; reading may fail
  at any time.
\<close>

fun client_alone :: "client_action \<Rightarrow> bool" where
  "client_alone (ReadFrame k (Inr f)) = False"
| "client_alone (RcTurn lost (Inr w)) = False"
| "client_alone _ = True"

fun server_alone :: "link list \<Rightarrow> sr_action \<Rightarrow> bool" where
  "server_alone ls (Frame i lost now (Inr f)) = (\<forall>l\<in>set ls. lk_conn l \<noteq> i)"
| "server_alone ls _ = True"

datatype net_action =
    AtClient client_action
  | AtServer sr_action
  | Upward nat bool real
  | Downward nat
  | Connect "mpval \<Rightarrow> byte list result" bool real

fun net_act :: "net_action \<Rightarrow> 'd net \<Rightarrow> 'd net" where
  "net_act (AtClient x) n = (if client_alone x then n\<lparr>nt_client := client_act x (nt_client n)\<rparr> else n)"
| "net_act (AtServer x) n = (if server_alone (nt_links n) x then n\<lparr>nt_server := sr_act x (nt_server n)\<rparr> else n)"
| "net_act (Upward k lost now) n = (if k < length (nt_links n) then upward k lost now n else n)"
| "net_act (Downward k) n = (if k < length (nt_links n) then downward k n else n)"
| "net_act (Connect packb lost now) n = (if may_open (nt_client n) then open_link packb lost now n else n)"

definition net_run :: "net_action list \<Rightarrow> 'd net \<Rightarrow> 'd net" where
  "net_run xs n = fold net_act xs n"

section \<open>The invariant\<close>

text \<open>The frames the server has written to the client's connections.\<close>

definition came_down :: "'d net \<Rightarrow> frame set" where
  "came_down n = (\<Union>l\<in>set (nt_links n). set (cn_sent (sr_conns (nt_server n) ! lk_conn l)))"

definition links_ok :: "'d net \<Rightarrow> bool" where
  "links_ok n \<longleftrightarrow>
     length (nt_links n) = length (cl_conns (nt_client n)) \<and>
     (\<forall>l\<in>set (nt_links n).
        lk_conn l < length (sr_conns (nt_server n)) \<and>
        frames_ok (statics (sr_broker (nt_server n))) (sent_frames (nt_client n)) (cn_sent (sr_conns (nt_server n) ! lk_conn l)))"

definition net_ok :: "'d net \<Rightarrow> bool" where
  "net_ok n \<longleftrightarrow>
     (\<exists>s. server_rel s (nt_server n)) \<and> client_inv (nt_client n) \<and> links_ok n \<and>
     net_inv (statics (sr_broker (nt_server n))) (came_down n) (nt_client n)"

section \<open>What the server wrote stays written\<close>

definition wrote_more :: "conn \<Rightarrow> conn \<Rightarrow> bool" where
  "wrote_more c c' \<longleftrightarrow> set (cn_sent c) \<subseteq> set (cn_sent c')"

lemma wrote_more_refl [simp]: "wrote_more c c"
  by (simp add: wrote_more_def)

lemma wrote_more_same: "cn_sent c' = cn_sent c \<Longrightarrow> wrote_more c c'"
  by (simp add: wrote_more_def)

lemma wrote_more_send:
  "wrote_more c c1 \<Longrightarrow> wrote_more c (snd (conn_send lost F c1))"
  "wrote_more c c1 \<Longrightarrow> wrote_more c (snd (send_error lost t rid c1))"
  by (auto simp: wrote_more_def conn_send_def send_error_def split: sum.split prod.split)

lemma wrote_more_sent:
  "conn_send lost F c1 = (r, c') \<Longrightarrow> wrote_more c c1 \<Longrightarrow> wrote_more c c'"
  "send_error lost t rid c1 = (r, c') \<Longrightarrow> wrote_more c c1 \<Longrightarrow> wrote_more c c'"
  using wrote_more_send [of c c1 lost] by (metis snd_conv)+

lemma wrote_more_fields [simp]:
  "wrote_more c (c1\<lparr>cn_subs := ss\<rparr>) = wrote_more c c1" "wrote_more c (c1\<lparr>cn_inflight := fl\<rparr>) = wrote_more c c1"
  "wrote_more c (c1\<lparr>cn_reader := rd\<rparr>) = wrote_more c c1" "wrote_more c (c1\<lparr>cn_heartbeat := hb\<rparr>) = wrote_more c c1"
  "wrote_more c (c1\<lparr>cn_last_recv := now\<rparr>) = wrote_more c c1" "wrote_more c (stop_conn c1) = wrote_more c c1"
  "wrote_more c (c1\<lparr>cn_open := op\<rparr>) = wrote_more c c1" 
  "wrote_more c (fst (teardown c1 b)) = wrote_more c c1" "wrote_more c (fst (after_reader (r, c1, b))) = wrote_more c c1"
  by (simp_all add: wrote_more_def stop_conn_def)

lemma wrote_more_reply:
  "reply_published lost rid rb c1 = (r, c', b') \<Longrightarrow> wrote_more c c1 \<Longrightarrow> wrote_more c c'"
  by (auto simp: reply_published_def split: prod.splits sum.splits publish_outcome.splits dest: wrote_more_sent)

lemma wrote_more_register:
  "on_register lost f c1 b = (r, c', b') \<Longrightarrow> wrote_more c c1 \<Longrightarrow> wrote_more c c'"
  by (auto simp: on_register_def Let_def split: prod.splits sum.splits if_splits dest: wrote_more_sent)

lemma wrote_more_publish:
  "on_publish lost now f c1 b = (r, c', b') \<Longrightarrow> wrote_more c c1 \<Longrightarrow> wrote_more c c'"
  by (auto simp: on_publish_def Let_def split: sum.splits prod.splits dest: wrote_more_reply)

lemma wrote_more_subscribe:
  "on_subscribe lost f c1 b = (r, c', b') \<Longrightarrow> wrote_more c c1 \<Longrightarrow> wrote_more c c'"
  by (auto simp: on_subscribe_def Let_def split: sum.splits prod.splits if_splits dest: wrote_more_sent)

lemma wrote_more_settle:
  "settle act f c1 b = (r, c', b') \<Longrightarrow> wrote_more c c1 \<Longrightarrow> wrote_more c c'"
  "on_unsubscribe f c1 b = (r, c', b') \<Longrightarrow> wrote_more c c1 \<Longrightarrow> wrote_more c c'"
  using settle_sent on_unsubscribe_sent by (fastforce simp: wrote_more_def)+

lemma wrote_more_dispatch:
  assumes "dispatch lost now f c1 b = (r, c', b')" "wrote_more c c1"
  shows "wrote_more c c'"
  using assms
  by (auto simp: dispatch_def on_ack_def on_nack_def split: if_splits prod.splits
      dest: wrote_more_register wrote_more_publish wrote_more_subscribe wrote_more_sent wrote_more_settle)

lemma wrote_more_reader_turn: "wrote_more c (fst (reader_turn lost now outcome c b))"
proof (cases outcome)
  case (Inl e)
  then show ?thesis by (cases e) (simp_all add: reader_turn_def wrote_more_send)
next
  case (Inr f)
  obtain r c1 b1 where d: "dispatch lost now f (c\<lparr>cn_last_recv := now\<rparr>) b = (r, c1, b1)" by (metis surj_pair)
  with wrote_more_dispatch [OF d, of c] Inr show ?thesis by (simp add: reader_turn_def)
qed

lemma wrote_more_conn_act: "wrote_more c (fst (conn_act x timeout c b))"
proof (cases x)
  case (Frame i lost now outcome)
  then show ?thesis
    by (auto simp: wrote_more_reader_turn server_handshake_def wrote_more_send Let_def split: reader.split sum.split prod.split
        dest: wrote_more_sent [OF _ wrote_more_refl])
next
  case (GateTurn i lost)
  show ?thesis
  proof (cases "cn_reader c")
    case (AtGate rid m)
    obtain r c1 b1 where g: "gate_turn lost rid m c b = (r, c1, b1)" by (metis surj_pair)
    with wrote_more_reply [of lost rid _ c r c1 b1 c] AtGate GateTurn show ?thesis by (simp add: gate_turn_def)
  qed (use GateTurn in simp_all)
next
  case (PumpTurn i j lost)
  then show ?thesis
    by (auto simp: pump_turn_def wrote_more_send split: prod.split next_result.split sum.split
        dest!: wrote_more_sent(1) [where c = c])
next
  case (HeartbeatTurn i lost now)
  then show ?thesis by (auto simp: heartbeat_turn_def split: sum.split prod.split dest!: wrote_more_sent(1) [where c = c])
next
  case (AbortConn i)
  then show ?thesis by (simp add: abort_def split: reader.split)
qed simp_all

lemma sr_act_wrote:
  assumes "k < length (sr_conns sr)"
  shows "wrote_more (sr_conns sr ! k) (sr_conns (sr_act x sr) ! k)" "length (sr_conns sr) \<le> length (sr_conns (sr_act x sr))"
proof -
  have "wrote_more (sr_conns sr ! k) (sr_conns (sr_act x sr) ! k) \<and> length (sr_conns sr) \<le> length (sr_conns (sr_act x sr))"
  proof (cases "target x")
    case None
    with assms show ?thesis by (cases x) (auto simp: sr_act_def nth_append)
  next
    case (Some i)
    show ?thesis
      using assms wrote_more_conn_act [of "sr_conns sr ! i" x "sr_timeout sr" "sr_broker sr"]
      by (auto simp: sr_act_target [OF Some] put_conn_def nth_list_update simp del: conn_act.simps)
  qed
  then show "wrote_more (sr_conns sr ! k) (sr_conns (sr_act x sr) ! k)" "length (sr_conns sr) \<le> length (sr_conns (sr_act x sr))"
    by simp_all
qed

section \<open>Every action keeps the invariant\<close>

lemma came_downI: "l \<in> set (nt_links n) \<Longrightarrow> F \<in> set (cn_sent (sr_conns (nt_server n) ! lk_conn l)) \<Longrightarrow> F \<in> came_down n"
  by (auto simp: came_down_def)

lemma frame_came_down:
  assumes "links_ok n" "F \<in> came_down n"
  shows "frame_ok (statics (sr_broker (nt_server n))) (sent_frames (nt_client n)) F"
  using assms by (auto simp: came_down_def links_ok_def frames_ok_def)

text \<open>Only the connections matter of the links.\<close>

lemma net_ok_links:
  assumes "net_ok n" "map lk_conn ls = map lk_conn (nt_links n)"
  shows "net_ok (n\<lparr>nt_links := ls\<rparr>)"
proof -
  from assms(2) have len: "length ls = length (nt_links n)" and im: "lk_conn ` set ls = lk_conn ` set (nt_links n)"
    by (metis length_map) (metis assms(2) set_map)
  have came: "came_down m = \<Union> ((\<lambda>i. set (cn_sent (sr_conns (nt_server m) ! i))) ` (lk_conn ` set (nt_links m)))" for m :: "'a net"
    by (simp add: came_down_def image_image)
  have links: "links_ok m \<longleftrightarrow> length (nt_links m) = length (cl_conns (nt_client m)) \<and>
      (\<forall>i\<in>lk_conn ` set (nt_links m). i < length (sr_conns (nt_server m)) \<and>
        frames_ok (statics (sr_broker (nt_server m))) (sent_frames (nt_client m)) (cn_sent (sr_conns (nt_server m) ! i)))"
    for m :: "'a net" by (simp add: links_ok_def)
  let ?n = "n\<lparr>nt_links := ls\<rparr>"
  have fields: "nt_links ?n = ls" "nt_server ?n = nt_server n" "nt_client ?n = nt_client n" by simp_all
  have "came_down ?n = came_down n" by (simp only: came im fields)
  moreover have "links_ok ?n = links_ok n" by (simp only: links im len fields)
  ultimately show ?thesis using assms(1) by (simp add: net_ok_def)
qed

lemma net_ok_client:
  assumes "net_ok n" "\<And>lost w. x \<noteq> RcTurn lost (Inr w)" "\<And>k f. x = ReadFrame k (Inr f) \<Longrightarrow> f \<in> came_down n"
  shows "net_ok (n\<lparr>nt_client := client_act x (nt_client n)\<rparr>)"
proof -
  let ?c = "nt_client n" and ?st = "statics (sr_broker (nt_server n))"
  from assms(1) obtain s where s: "server_rel s (nt_server n)" and c: "client_inv ?c" "links_ok n" "net_inv ?st (came_down n) ?c"
    by (auto simp: net_ok_def)
  have keep: "sockets_keep (cl_conns ?c) (cl_conns (client_act x ?c))" using assms(2) by (rule keeps_act)
  have "distinct (map fst ?st)" using s sys_inv_core by (fastforce simp: server_rel_def core_inv_def sids_ok_def)
  with c(1,3) have "net_inv ?st (came_down n) (client_act x ?c)"
    using assms(3) frame_came_down [OF c(2)] by (intro net_inv_act) auto
  moreover have "client_inv (client_act x ?c)" using c(1) by (auto simp: client_inv_def req_inv_act refs_inv_act)
  moreover have "links_ok (n\<lparr>nt_client := client_act x ?c\<rparr>)"
    using c(2) keep frames_ok_mono [OF _ sockets_keep_sent [OF keep], of _ _ "[]"]
    by (simp add: links_ok_def sockets_keep_def)
  ultimately show ?thesis using s by (auto simp: net_ok_def came_down_def)
qed

lemma net_ok_server:
  assumes "net_ok n" "no_collision (sr_broker (sr_act x (nt_server n)))"
    and "\<And>l f. l \<in> set (nt_links n) \<Longrightarrow> target x = Some (lk_conn l) \<Longrightarrow> read_by x = Some f \<Longrightarrow> f \<in> sent_frames (nt_client n)"
  shows "net_ok (n\<lparr>nt_server := sr_act x (nt_server n)\<rparr>)"
proof -
  let ?sr = "nt_server n" and ?sr' = "sr_act x (nt_server n)" and ?c = "nt_client n"
  let ?n' = "n\<lparr>nt_server := ?sr'\<rparr>"
  from assms(1) obtain s where s: "server_rel s ?sr" and c: "client_inv ?c" "links_ok n"
    "net_inv (statics (sr_broker ?sr)) (came_down n) ?c" by (auto simp: net_ok_def)
  from server_rel_act [OF s assms(2)] obtain s' where s': "reaches s s'" "server_rel s' ?sr'" by blast
  then have "evolves (sr_broker ?sr) (sr_broker ?sr')" using s by (auto simp: server_rel_def reaches_def)
  then obtain us where us: "statics (sr_broker ?sr') = statics (sr_broker ?sr) @ us" by (auto simp: evolves_def)
  have link: "lk_conn l < length (sr_conns ?sr) \<and>
      frames_ok (statics (sr_broker ?sr)) (sent_frames ?c) (cn_sent (sr_conns ?sr ! lk_conn l))" if "l \<in> set (nt_links n)" for l
    using c(2) that by (simp add: links_ok_def)
  have "links_ok ?n'"
    using c(2) frames_sr_act [OF s assms(2), of _ "sent_frames ?c"] link assms(3)
    by (fastforce simp: links_ok_def)
  moreover have "came_down n \<subseteq> came_down ?n'"
    using sr_act_wrote(1) [of _ ?sr x] link by (fastforce simp: came_down_def wrote_more_def)
  then have "net_inv (statics (sr_broker ?sr')) (came_down ?n') ?c"
    using net_inv_sent [OF net_inv_mono [OF c(3)]] us by simp
  ultimately show ?thesis using s'(2) c(1) by (auto simp: net_ok_def)
qed

lemma client_opens_inv:
  assumes "client_inv c"
  shows "client_inv (client_opens answer c)"
proof (cases "\<exists>n d. cl_rc c = RcSleep n d")
  case True
  then have "client_opens answer c = client_act (RcTurn False answer) c" by (auto simp: client_opens_def)
  with assms show ?thesis by (simp add: client_inv_def req_inv_act refs_inv_act del: client_act.simps)
next
  case False
  then have "client_opens answer c = snd (open_connection answer c)" by (auto simp: client_opens_def split: rc_task.split)
  with assms req_inv_open [of c answer] refs_open [of c answer] show ?thesis
    by (cases "open_connection answer c") (simp add: client_inv_def)
qed

lemma client_opens_frame: "net_frame c (client_opens answer c)"
  using net_frame_rc_open net_frame_open [of answer c]
  by (cases "open_connection answer c") (simp add: client_opens_def split: rc_task.split)

lemma client_opens_conns:
  "cl_conns (client_opens answer c) = cl_conns c \<or>
   (\<exists>k. cc_sent k = [HELLO_FRAME] \<and> cl_conns (client_opens answer c) = cl_conns c @ [k])"
  by (auto simp: client_opens_def rc_open_def open_connection_def split: rc_task.split sum.split)

lemma net_ok_connect:
  assumes "net_ok n" "no_collision (sr_broker (nt_server (open_link packb lost now n)))"
  shows "net_ok (open_link packb lost now n)"
proof -
  let ?i = "length (sr_conns (nt_server n))" and ?x = "Accept packb now"
  let ?y = "Frame ?i lost now (Inr HELLO_FRAME)"
  define sr1 where "sr1 = sr_act ?x (nt_server n)"
  define sr where "sr = sr_act ?y sr1"
  define answer where "answer = (case cn_sent (sr_conns sr ! ?i) of [] \<Rightarrow> Inl IncompleteReadError | F # _ \<Rightarrow> Inr F)"
  define c where "c = client_opens answer (nt_client n)"
  define ls where "ls = (if length (cl_conns (nt_client n)) < length (cl_conns c)
    then nt_links n @ [\<lparr>lk_conn = ?i, lk_up = 1, lk_down = 1\<rparr>] else nt_links n)"
  have n': "open_link packb lost now n = n\<lparr>nt_client := c, nt_server := sr, nt_links := ls\<rparr>"
    by (simp add: open_link_def Let_def sr_run_def c_def answer_def sr_def sr1_def ls_def)
  then have free: "no_collision (sr_broker sr)" using assms(2) by simp
  then have free1: "no_collision (sr_broker sr1)" using later_sr_act [of sr1 ?y] later_no_collision sr_def by metis
  have links: "lk_conn l < ?i" if "l \<in> set (nt_links n)" for l using assms(1) that by (simp add: net_ok_def links_ok_def)
  have ok1: "net_ok (n\<lparr>nt_server := sr1\<rparr>)"
    using net_ok_server [OF assms(1), of ?x] free1 by (simp add: sr1_def)
  have "net_ok ((n\<lparr>nt_server := sr1\<rparr>)\<lparr>nt_server := sr_act ?y (nt_server (n\<lparr>nt_server := sr1\<rparr>))\<rparr>)"
    by (rule net_ok_server [OF ok1]) (use free links in \<open>auto simp: sr_def\<close>)
  then have ok: "net_ok (n\<lparr>nt_server := sr\<rparr>)" by (simp add: sr_def)
  from ok1 obtain s1 where s1: "server_rel s1 sr1" by (auto simp: net_ok_def)
  have new: "length (sr_conns sr1) = Suc ?i" "cn_sent (sr_conns sr1 ! ?i) = []"
    by (simp_all add: sr1_def sr_act_def new_conn_def nth_append)
  have fr: "frames_ok (statics (sr_broker sr)) {HELLO_FRAME} (cn_sent (sr_conns sr ! ?i))" "?i < length (sr_conns sr)"
    using frames_sr_act [OF s1, of ?y ?i "{HELLO_FRAME}"] free new by (auto simp: sr_def)
  let ?c0 = "nt_client n" and ?st = "statics (sr_broker sr)"
  have c0: "client_inv ?c0" "net_inv ?st (came_down (n\<lparr>nt_server := sr\<rparr>)) ?c0" "links_ok (n\<lparr>nt_server := sr\<rparr>)"
    using ok by (simp_all add: net_ok_def)
  have "came_down (n\<lparr>nt_server := sr\<rparr>) \<subseteq> came_down (open_link packb lost now n)"
    by (auto simp: came_down_def n' ls_def)
  then have inv: "net_inv ?st (came_down (open_link packb lost now n)) c"
    using net_inv_sent [OF net_frame_inv [OF client_opens_frame c0(2)]] by (simp add: c_def)
  have more: "sent_frames ?c0 \<subseteq> sent_frames c" "length (cl_conns ?c0) < length (cl_conns c) \<Longrightarrow> HELLO_FRAME \<in> sent_frames c"
    using client_opens_conns [of answer ?c0] by (auto simp: c_def sent_frames_def)
  have len: "length ls = length (cl_conns c)"
    using client_opens_conns [of answer ?c0] c0(3) by (auto simp: ls_def c_def links_ok_def)
  have "lk_conn l < length (sr_conns sr) \<and> frames_ok ?st (sent_frames c) (cn_sent (sr_conns sr ! lk_conn l))"
    if "l \<in> set ls" for l
  proof (cases "l \<in> set (nt_links n)")
    case True
    with c0(3) frames_ok_mono [OF _ more(1), of _ _ "[]"] show ?thesis by (simp add: links_ok_def)
  next
    case False
    with that have "lk_conn l = ?i" "{HELLO_FRAME} \<subseteq> sent_frames c" using more(2) by (auto simp: ls_def split: if_splits)
    with fr frames_ok_mono [OF fr(1), of "sent_frames c" "[]"] show ?thesis by simp
  qed
  with len have "links_ok (open_link packb lost now n)" by (simp add: links_ok_def n')
  moreover have "client_inv c" unfolding c_def using c0(1) by (rule client_opens_inv)
  moreover have "\<exists>s. server_rel s sr" using ok by (simp add: net_ok_def)
  ultimately show ?thesis using inv by (simp add: net_ok_def n')
qed

lemma net_ok_act:
  assumes "net_ok n" "no_collision (sr_broker (nt_server (net_act x n)))"
  shows "net_ok (net_act x n)"
proof (cases x)
  case (AtClient y)
  have "y \<noteq> RcTurn lost (Inr w)" "y \<noteq> ReadFrame k (Inr f)" if "client_alone y" for lost w k f using that by auto
  with AtClient assms(1) show ?thesis by (auto intro: net_ok_client)
next
  case (AtServer y)
  have "read_by y = None" if "server_alone (nt_links n) y" "l \<in> set (nt_links n)" "target y = Some (lk_conn l)" for l
    using that by (cases "(nt_links n, y)" rule: server_alone.cases) auto
  with AtServer assms show ?thesis using net_ok_server [OF assms(1), of y] by auto
next
  case (Upward k lost now)
  let ?l = "nt_links n ! k" and ?fs = "cc_sent (cl_conns (nt_client n) ! k)"
  let ?y = "Frame (lk_conn ?l) lost now (Inr (?fs ! lk_up ?l))"
  show ?thesis
  proof (cases "k < length (nt_links n) \<and> lk_up ?l < length ?fs \<and> cn_reader (sr_conns (nt_server n) ! lk_conn ?l) = Reading")
    case True
    let ?n = "n\<lparr>nt_server := sr_act ?y (nt_server n)\<rparr>" and ?ls = "(nt_links n)[k := ?l\<lparr>lk_up := Suc (lk_up ?l)\<rparr>]"
    have act: "net_act x n = ?n\<lparr>nt_links := ?ls\<rparr>" using True Upward by (simp add: upward_def Let_def)
    have "k < length (cl_conns (nt_client n))" using True assms(1) by (simp add: net_ok_def links_ok_def)
    then have "?fs ! lk_up ?l \<in> sent_frames (nt_client n)"
      using True nth_mem [of k "cl_conns (nt_client n)"] by (auto simp: sent_frames_def intro!: bexI [of _ "cl_conns (nt_client n) ! k"])
    then have "net_ok ?n" using assms act by (intro net_ok_server) auto
    moreover have "map lk_conn ?ls = map lk_conn (nt_links ?n)" using True by (simp add: map_update list_update_same_conv)
    ultimately show ?thesis using net_ok_links act by metis
  qed (use Upward assms(1) in \<open>auto simp: upward_def Let_def\<close>)
next
  case (Downward k)
  let ?l = "nt_links n ! k"
  let ?fs = "cn_sent (sr_conns (nt_server n) ! lk_conn ?l)"
  let ?y = "ReadFrame k (Inr (?fs ! lk_down ?l))"
  show ?thesis
  proof (cases "k < length (nt_links n) \<and> lk_down ?l < length ?fs \<and> cc_reading (cl_conns (nt_client n) ! k)")
    case True
    let ?n = "n\<lparr>nt_client := client_act ?y (nt_client n)\<rparr>" and ?ls = "(nt_links n)[k := ?l\<lparr>lk_down := Suc (lk_down ?l)\<rparr>]"
    have act: "net_act x n = ?n\<lparr>nt_links := ?ls\<rparr>" using True Downward by (simp add: downward_def Let_def del: client_act.simps)
    have "?fs ! lk_down ?l \<in> came_down n" using True by (intro came_downI [of ?l]) auto
    then have "net_ok ?n" using assms(1) by (intro net_ok_client) auto
    moreover have "map lk_conn ?ls = map lk_conn (nt_links ?n)" using True by (simp add: map_update list_update_same_conv)
    ultimately show ?thesis using net_ok_links act by metis
  qed (use Downward assms(1) in \<open>auto simp: downward_def Let_def simp del: client_act.simps\<close>)
next
  case (Connect packb lost now)
  with assms net_ok_connect show ?thesis by auto
qed

lemma later_net_act: "later (sr_broker (nt_server n)) (sr_broker (nt_server (net_act x n)))"
proof (cases x)
  case (Connect packb lost now)
  then show ?thesis by (simp add: open_link_def Let_def later_sr_run)
qed (auto simp: upward_def downward_def Let_def later_sr_act)

lemma later_net_run: "later (sr_broker (nt_server n)) (sr_broker (nt_server (net_run xs n)))"
  unfolding net_run_def
proof (induction xs arbitrary: n)
  case (Cons x xs)
  from later_trans [OF later_net_act Cons.IH] show ?case by simp
qed simp

lemma net_ok_run:
  assumes "net_ok n" "no_collision (sr_broker (nt_server (net_run xs n)))"
  shows "net_ok (net_run xs n)"
  using assms
proof (induction xs arbitrary: n)
  case Nil
  then show ?case by (simp add: net_run_def)
next
  case (Cons x xs)
  have run: "net_run (x # xs) n = net_run xs (net_act x n)" by (simp add: net_run_def)
  have "no_collision (sr_broker (nt_server (net_act x n)))"
    using Cons.prems(2) run later_no_collision [OF later_net_run] by metis
  from Cons.IH [OF net_ok_act [OF Cons.prems(1) this]] Cons.prems(2) run show ?case by simp
qed

lemma net_ok_start:
  assumes "server_rel s sr"
  shows "net_ok (net_start (client_init reconnect base cap limit packb) sr)"
proof -
  let ?c = "client_init reconnect base cap limit packb"
  have "client_inv ?c"
    by (simp add: client_inv_def client_init_def req_inv_def refs_inv_def requests_def reqs_ok_def futures_keyed_def
        held_def entered_def writer_ok_def)
  with assms net_inv_init show ?thesis
    by (auto simp: net_ok_def net_start_def links_ok_def) (simp add: client_init_def)
qed

section \<open>From the selector to the consumer\<close>

text \<open>
  C7. One client over a server with any other connections: however the client's calls, both
  sides' tasks, reconnects and the frames on their way interleave, a delivery that waits in a
  subscription handle or is in the hand of its consumer is of a topic that the selector the
  consumer asked for matches, and the server wrote it to one of this client's connections.
\<close>

theorem consumers_get_what_they_asked_for:
  assumes "server_rel s sr"
    and "n = net_run xs (net_start (client_init reconnect base cap limit packb) sr)"
    and "no_collision (sr_broker (nt_server n))"
    and "h \<in> set (cl_handles (nt_client n))" "d \<in> holds h"
  shows "matches (cs_selector h) (msg_topic (dl_message d)) = Inr True \<and> delivery_to_wire d \<in> came_down n"
proof -
  have "net_ok n" unfolding assms(2) by (rule net_ok_run [OF net_ok_start [OF assms(1)]]) (use assms(2,3) in simp)
  then show ?thesis using assms(4,5) by (auto simp: net_ok_def net_inv_def handles_ok_def wanted_def)
qed

definition demo_net :: "mem_store net" where
  "demo_net = net_run
     [Connect any_pack False 0, AtClient (Subscribe False ''a'' None), Upward 0 False 1, Downward 0,
      AtClient (ResumeCall 0), AtClient (Publish False ''a'' MNone None), Upward 0 False 2,
      AtServer (PumpTurn 0 0 False), Downward 0, Downward 0]
     (net_start (client_init True (1 / 2) 30 None any_pack) fresh_server)"

theorem consumers_get_what_they_asked_for_witness:
  "\<exists>h d. cl_handles (nt_client demo_net) = [h] \<and> se_queue h = [d] \<and> cs_selector h = ''a'' \<and>
     matches ''a'' (msg_topic (dl_message d)) = Inr True \<and> delivery_to_wire d \<in> came_down demo_net"
proof -
  have "draws_distinct (sr_broker (sr_run [] fresh_server))" by code_simp
  then obtain s where "server_rel s (sr_run [] fresh_server)" by (rule fresh_server_rel)
  then have s: "server_rel s fresh_server" by (simp add: sr_run_def)
  have "draws_distinct (sr_broker (nt_server demo_net))" by code_simp
  then have free: "no_collision (sr_broker (nt_server demo_net))" by (simp add: draws_distinct)
  have "case cl_handles (nt_client demo_net) of
      [h] \<Rightarrow> cs_selector h = ''a'' \<and> (case se_queue h of [d] \<Rightarrow> True | _ \<Rightarrow> False) | _ \<Rightarrow> False" by code_simp
  then obtain h d where h: "cl_handles (nt_client demo_net) = [h]" "cs_selector h = ''a''" "se_queue h = [d]"
    by (auto split: list.splits)
  then have "h \<in> set (cl_handles (nt_client demo_net))" "d \<in> holds h" by (simp_all add: holds_def)
  from consumers_get_what_they_asked_for [OF s demo_net_def free this] h show ?thesis by simp
qed

end
