(* ===== verification/Arrival.thy ===== *)
theory Arrival
  imports EndToEnd Network
begin

text \<open>
  From a publish to a consumer over the network: the broker's fanout, the pump of the
  subscriber's connection, the frame, and the read loop of the subscriber's client.
\<close>

section \<open>What an accepted publish does\<close>

lemma publish_accepted:
  assumes "core_inv b" "publish topic payload extras now b = (Inr (Published r), b')" "pr_accepted r"
  obtains m b0 ts where "publish_fanout m b0 = (Inr r, b')" "core_inv b0" "split_subject topic = Inr ts"
    "bk_regs b0 = bk_regs b" "bk_queues b0 = bk_queues b" "bk_router b0 = bk_router b"
    "msg_topic m = topic" "msg_payload m = payload" "msg_created_at m = now"
    "msg_extras m = (case extras of None \<Rightarrow> [] | Some d \<Rightarrow> d)" "pr_message_id r = Some (msg_id m)"
proof -
  obtain m b1 where p: "publish_begin topic payload extras now b = (Inr (Inr m), b1)"
    and res: "publish_resume m b1 = (Inr (Published r), b')"
    and m: "msg_topic m = topic" "msg_payload m = payload" "msg_created_at m = now"
      "msg_extras m = (case extras of None \<Rightarrow> [] | Some d \<Rightarrow> d)"
    using assms(2,3)
    by (auto simp: publish_def publish_begin_def publish_rejected_def mint_def Let_def
        split: prod.splits sum.splits py_exn.splits)
  have b1: "core_inv b1" "bk_regs b1 = bk_regs b" "bk_queues b1 = bk_queues b" "bk_router b1 = bk_router b"
    using publish_begin_safe [OF assms(1), of topic payload extras now] p
    by (auto simp: publish_begin_def mint_def Let_def split: sum.splits py_exn.splits)
  obtain ts where ts: "split_subject topic = Inr ts"
    using p by (auto simp: publish_begin_def validate_subject_def bind_result_Inr_iff Let_def
        split: sum.splits py_exn.splits prod.splits)
  have "gate_pass b1 = (True, b1)" using res by (auto simp: publish_resume_def gate_pass_def split: if_splits)
  then obtain b0 where st: "publish_store m b1 = (Inr (), b0)" and f: "publish_fanout m b0 = (Inr r, b')"
    using res by (auto simp: publish_resume_def split: prod.splits sum.splits)
  have "core_inv b0" "bk_regs b0 = bk_regs b1" "bk_queues b0 = bk_queues b1" "bk_router b0 = bk_router b1"
    using publish_store_safe [OF b1(1), of m] st by (auto simp: publish_store_def split: prod.splits)
  moreover have "pr_message_id r = Some (msg_id m)" using f by (auto simp: publish_fanout_def split: sum.splits prod.splits)
  ultimately show ?thesis using that [OF f _ ts] b1 m by simp
qed

text \<open>The one delivery of a live subscription whose queue was empty.\<close>

lemma publish_offers:
  assumes "core_inv b" "publish topic payload extras now b = (Inr (Published r), b')" "pr_accepted r"
    and "a \<in> snd ` set (bk_router b)" "matches_tokens (reg_tokens (bk_regs b ! a)) topic = Inr True"
    and "\<not> reg_replaying (bk_regs b ! a)" "q_items (bk_queues b ! a) = []"
  shows "\<exists>m did. q_items (bk_queues b' ! a) = [make_delivery (bk_regs b ! a) m 1 did] \<and>
           msg_topic m = topic \<and> msg_payload m = payload \<and> msg_created_at m = now \<and>
           msg_extras m = (case extras of None \<Rightarrow> [] | Some d \<Rightarrow> d) \<and> pr_message_id r = Some (msg_id m)"
proof -
  from publish_accepted [OF assms(1-3)] obtain m b0 ts
    where f: "publish_fanout m b0 = (Inr r, b')" "core_inv b0" "split_subject topic = Inr ts"
      and same: "bk_regs b0 = bk_regs b" "bk_queues b0 = bk_queues b" "bk_router b0 = bk_router b"
      and m: "msg_topic m = topic" "msg_payload m = payload" "msg_created_at m = now"
        "msg_extras m = (case extras of None \<Rightarrow> [] | Some d \<Rightarrow> d)" "pr_message_id r = Some (msg_id m)" .
  have a: "a < length (bk_regs b0)" using assms(4) core_routerD [OF f(2)] same by fastforce
  have "wf_pattern (reg_tokens (bk_regs b0 ! a))" using core_heapD(5) [OF f(2) a] .
  from matches_tokens_correct [OF this f(3)] assms(5) have "subject_match (reg_tokens (bk_regs b0 ! a)) ts"
    by (simp add: same)
  then have "a \<in> targets b0 ts" using assms(4) by (simp add: targets_def same)
  with publish_fanout_effect [OF f(2) _ f(1), of ts a] f(3) m(1)
  have rec: "receives m (bk_regs b ! a) (bk_queues b ! a) (bk_regs b' ! a) (bk_queues b' ! a)" by (simp add: same)
  have "0 < q_maxsize (bk_queues b ! a)"
    using core_queueD [OF f(2) a] by (simp add: queue_good_def DEFAULT_QUEUE_BOUND_def same)
  from receives_live [OF rec assms(6) this] assms(7) this m show ?thesis by auto
qed

text \<open>A delivery frame is pushed into the handle its subscription is routed to.\<close>

lemma delivery_read:
  assumes "k < length (cl_conns cl)" "cc_reading (cl_conns cl ! k)" "dict_get (cl_by_server cl) (dl_sid d) = Some h"
  shows "client_act (ReadFrame k (Inr (delivery_to_wire d))) cl = upd_handle h (se_push d) cl"
proof -
  have "has_op (delivery_to_wire d) DELIVERY \<and> \<not> has_op (delivery_to_wire d) REGISTER_OK \<and>
      \<not> has_op (delivery_to_wire d) PUBLISH_RESULT \<and> \<not> has_op (delivery_to_wire d) SUBSCRIBE_OK \<and>
      \<not> has_op (delivery_to_wire d) ERROR"
    by (simp add: has_op_def get_or_none_def delivery_to_wire_def)
  then show ?thesis
    using assms by (simp add: read_loop_def on_frame_def route_delivery_def delivery_wire_roundtrip)
qed

section \<open>From the publish to the consumer\<close>

text \<open>
  C6. A published message reaches its consumer: over any state of the server, when the broker
  accepts a publish - from whoever calls it - and a connection serves a live subscription that
  matches the topic and has nothing queued, the next turn of the subscription's pump, if it
  writes a frame, hands the client a delivery with exactly the topic, payload, extras, time
  and id of the message.  When MessagePack round-trips on well-formed values and the payload and the extras
  are such values (string keys in every map, no key twice; the decoder refuses others), the client, reading
  what it decodes from the bytes of that frame, appends the delivery to the handle the subscription
  belongs to and changes nothing else, and the connection remembers it for the ack.
\<close>

theorem published_message_reaches_consumer:
  assumes "server_rel s sr" "i < length (sr_conns sr)" "c = sr_conns sr ! i"
    and "j < length (cn_subs c)" "cn_subs c ! j = (sid, a, Running)" "a \<in> snd ` set (bk_router (sr_broker sr))"
    and "matches_tokens (reg_tokens (bk_regs (sr_broker sr) ! a)) topic = Inr True"
    and "\<not> reg_replaying (bk_regs (sr_broker sr) ! a)" "q_items (bk_queues (sr_broker sr) ! a) = []"
    and "publish topic payload extras now (sr_broker sr) = (Inr (Published res), b1)" "pr_accepted res"
    and "pump_turn False j c b1 = (c1, b2)" "cn_sent c1 \<noteq> cn_sent c"
    and "k < length (cl_conns cl)" "cc_reading (cl_conns cl ! k)" "dict_get (cl_by_server cl) sid = Some h"
    and "msgpack_roundtrip (cn_packb c) unpackb" "mp_wf payload"
    and "mp_wf (MDict (str_keys (case extras of None \<Rightarrow> [] | Some d \<Rightarrow> d)))"
  shows "\<exists>d. client_act (ReadFrame k (over_wire (cn_packb c) unpackb (last (cn_sent c1)))) cl = upd_handle h (se_push d) cl \<and>
             msg_topic (dl_message d) = topic \<and> msg_payload (dl_message d) = payload \<and>
             msg_extras (dl_message d) = (case extras of None \<Rightarrow> [] | Some d \<Rightarrow> d) \<and>
             msg_created_at (dl_message d) = now \<and> pr_message_id res = Some (msg_id (dl_message d)) \<and>
             dl_sid d = sid \<and> dl_attempt d = 1 \<and> dict_get (cn_inflight c1) (dl_id d) = Some d"
proof -
  let ?b = "sr_broker sr"
  note rel = server_rel_conn [OF assms(1,2), folded assms(3)]
  have a: "a < length (bk_regs ?b)" "fst (statics ?b ! a) = sid" using subs_known_nth [OF rel(2) assms(4,5)] by simp_all
  from publish_offers [OF rel(1) assms(10,11,6-9)] obtain m did
    where q: "q_items (bk_queues b1 ! a) = [make_delivery (bk_regs ?b ! a) m 1 did]"
      and m: "msg_topic m = topic" "msg_payload m = payload" "msg_created_at m = now"
        "msg_extras m = (case extras of None \<Rightarrow> [] | Some d \<Rightarrow> d)" "pr_message_id res = Some (msg_id m)" by blast
  let ?d = "make_delivery (bk_regs ?b ! a) m 1 did"
  have sid: "dl_sid ?d = sid" using a by (simp add: make_delivery_def statics_nth reg_static_def)
  have core: "core_inv b1" "evolves ?b b1"
    using publish_safe [OF rel(1), of topic payload extras now] assms(10) by simp_all
  have "st_queue (bk_stream_heap b1 ! a) = a" using core_heapD [OF core(1)] a(1) evolves_length [OF core(2)] by simp
  then have nxt: "stream_next a b1 = (Next ?d, set_queue a ((bk_queues b1 ! a)\<lparr>q_items := []\<rparr>) b1)"
    using q by (simp add: stream_next_def get_ready_def Let_def)
  have c1: "cn_sent c1 = cn_sent c @ [delivery_to_wire ?d]" "dict_get (cn_inflight c1) (dl_id ?d) = Some ?d"
    and enc: "\<exists>bs. encode_frame (cn_packb c) (delivery_to_wire ?d) = Inr bs"
    using assms(5,12,13) nxt by (auto simp: pump_turn_def conn_send_def dict_simps split: sum.splits if_splits)
  have "mp_wf (MDict (delivery_to_wire ?d)) \<and> op_tagged (delivery_to_wire ?d)"
    using assms(18,19) m by (intro mp_wf_delivery) (simp_all add: make_delivery_def)
  with enc have "over_wire (cn_packb c) unpackb (delivery_to_wire ?d) = Inr (delivery_to_wire ?d)"
    using over_wire_same [OF assms(17)] by blast
  with delivery_read [OF assms(14,15)] assms(16) sid
  have "client_act (ReadFrame k (over_wire (cn_packb c) unpackb (delivery_to_wire ?d))) cl = upd_handle h (se_push ?d) cl"
    by simp
  with c1 sid m show ?thesis by (intro exI [of _ ?d]) (simp add: make_delivery_def)
qed

definition subscribed_net :: "mem_store net" where
  "subscribed_net = net_run
     [Connect any_pack False 0, AtClient (Subscribe False ''a'' None), Upward 0 False 1, Downward 0, AtClient (ResumeCall 0)]
     (net_start (client_init True (1 / 2) 30 None any_pack) fresh_server)"

definition published_broker :: "mem_store broker" where
  "published_broker = snd (publish ''a'' (MInt 7) None 5 (sr_broker (nt_server subscribed_net)))"

text \<open>The frame of the delivery, and the connection that can encode just this one.\<close>

definition pumped_frames :: "frame list" where
  "pumped_frames = [last (cn_sent (fst (pump_turn False 0 (sr_conns (nt_server subscribed_net) ! 0) published_broker)))]"

definition pumping_conn :: conn where
  "pumping_conn = sr_conns (with_pack (table_pack pumped_frames) (nt_server subscribed_net)) ! 0"

definition pumped_conn :: conn where
  "pumped_conn = fst (pump_turn False 0 pumping_conn published_broker)"

theorem published_message_reaches_consumer_witness:
  "\<exists>d. msg_payload (dl_message d) = MInt 7 \<and>
     client_act (ReadFrame 0 (over_wire (table_pack pumped_frames) (table_unpack pumped_frames) (last (cn_sent pumped_conn))))
       (nt_client subscribed_net) = upd_handle 0 (se_push d) (nt_client subscribed_net)"
proof -
  let ?plain = "nt_server subscribed_net" and ?cl = "nt_client subscribed_net" and ?P = "table_pack pumped_frames"
  let ?sr = "with_pack ?P (nt_server subscribed_net)" and ?old = "sr_conns (nt_server subscribed_net) ! 0"
  let ?b = "sr_broker ?sr"
  have "draws_distinct (sr_broker (sr_run [] fresh_server))" by code_simp
  then obtain s0 where "server_rel s0 (sr_run [] fresh_server)" by (rule fresh_server_rel)
  then have s0: "server_rel s0 fresh_server" by (simp add: sr_run_def)
  have "draws_distinct (sr_broker ?plain)" by code_simp
  then have "no_collision (sr_broker ?plain)" by (simp add: draws_distinct)
  then have "net_ok subscribed_net" unfolding subscribed_net_def by (intro net_ok_run net_ok_start [OF s0])
  then obtain s where "server_rel s ?plain" by (auto simp: net_ok_def)
  then have s: "server_rel s ?sr" by (rule server_rel_with_pack)
  have c0: "length (sr_conns ?plain) = 1" "length (cn_subs ?old) = 1" "fst (snd (cn_subs ?old ! 0)) = 0"
    "snd (snd (cn_subs ?old ! 0)) = Running" by code_simp+
  then obtain sid where "cn_subs ?old ! 0 = (sid, 0, Running)" by (metis prod.collapse)
  then have c: "0 < length (sr_conns ?sr)" "pumping_conn = sr_conns ?sr ! 0" "0 < length (cn_subs pumping_conn)"
    "cn_subs pumping_conn ! 0 = (sid, 0, Running)" "cn_packb pumping_conn = ?P"
    using c0 by (simp_all add: pumping_conn_def)
  have cl: "length (cl_conns ?cl) = 1" "cc_reading (cl_conns ?cl ! 0)" "map snd (cl_by_server ?cl) = [0]"
    "map fst (cl_by_server ?cl) = [fst (cn_subs ?old ! 0)]" by code_simp+
  then have conn: "0 < length (cl_conns ?cl)" and route: "dict_get (cl_by_server ?cl) sid = Some 0"
    using \<open>cn_subs ?old ! 0 = (sid, 0, Running)\<close> by (cases "cl_by_server ?cl"; auto)+
  have "map snd (bk_router (sr_broker ?plain)) = [0]" by code_simp
  then have router: "0 \<in> snd ` set (bk_router ?b)" unfolding with_pack_simps by (metis list.set_intros(1) list.set_map)
  have reg: "matches_tokens (reg_tokens (bk_regs ?b ! 0)) ''a'' = Inr True" "\<not> reg_replaying (bk_regs ?b ! 0)"
    "q_items (bk_queues ?b ! 0) = []" unfolding with_pack_simps by code_simp+
  have "case fst (publish ''a'' (MInt 7) None 5 (sr_broker ?plain)) of Inr (Published r) \<Rightarrow> pr_accepted r | _ \<Rightarrow> False" by code_simp
  then obtain res where p: "publish ''a'' (MInt 7) None 5 ?b = (Inr (Published res), published_broker)" "pr_accepted res"
    unfolding with_pack_simps published_broker_def
    by (cases "publish ''a'' (MInt 7) None 5 (sr_broker ?plain)") (auto split: sum.splits publish_outcome.splits)
  obtain b2 where pump: "pump_turn False 0 pumping_conn published_broker = (pumped_conn, b2)"
    unfolding pumped_conn_def by (metis prod.collapse)
  have "length (cn_sent pumped_conn) \<noteq> length (cn_sent pumping_conn)" by code_simp
  then have sent: "cn_sent pumped_conn \<noteq> cn_sent pumping_conn" by auto
  have "msgpack_roundtrip ?P (table_unpack pumped_frames)" by (rule table_roundtrip) (simp add: pumped_frames_def)
  then have rt: "msgpack_roundtrip (cn_packb pumping_conn) (table_unpack pumped_frames)" unfolding c(5) .
  have pay: "mp_wf (MInt 7)" "mp_wf (MDict (str_keys (case None of None \<Rightarrow> [] | Some d \<Rightarrow> d)))" by (simp_all add: str_keys_def)
  from published_message_reaches_consumer [OF s c(1-4) router reg p pump sent conn cl(2) route rt pay]
  show ?thesis unfolding c(5) by auto
qed

end
