(* ===== verification/Acks.thy ===== *)
theory Acks
  imports Arrival
begin

text \<open>
  The way back of a delivery: the pump's frame, the consumer that waits in \<open>__anext__\<close> and
  acknowledges what it got (\<open>_Subscription.ack\<close> of \<open>pubsub/transport/client.py\<close>), the frame this
  writes, and the server's turn on it (\<open>_on_ack\<close> of \<open>pubsub/transport/server.py\<close>) up to the broker.
\<close>

lemma ack_frame_simps [simp]:
  "get_or_none (ack_frame did) ''delivery_id'' = MStr did"
  "dispatch lost now (ack_frame did) c b = on_ack (ack_frame did) c b"
  by (simp_all add: ack_frame_def get_or_none_def dispatch_def has_op_def)

text \<open>An acknowledgement writes its frame, or it raises and writes nothing.\<close>

lemma client_ack_writes:
  assumes "cl_writer cl = Some k" "k < length (cl_conns cl)" "a < length (cl_handles cl)"
    and "cc_sent (cl_conns (client_act (AckIt False a d) cl) ! k) \<noteq> cc_sent (cl_conns cl ! k)"
  shows "last (cc_sent (cl_conns (client_act (AckIt False a d) cl) ! k)) = ack_frame (dl_id d)"
    "cl_handles (client_act (AckIt False a d) cl) =
       (cl_handles cl)[a := note_ack (msg_created_at (dl_message d)) (cl_handles cl ! a)]"
    "\<exists>bs. encode_frame (cl_packb cl) (ack_frame (dl_id d)) = Inr bs"
  using assms
  by (simp_all add: client_ack_def raw_send_def upd_handle_def ack_frame_def Let_def split: sum.splits if_splits)

text \<open>What a resubscription of the reconnect task writes.\<close>

lemma resume_writes:
  assumes "cl_writer cl = Some k" "k < length (cl_conns cl)"
    and "cc_sent (cl_conns (rc_resume lost n (h # hs) cl) ! k) \<noteq> cc_sent (cl_conns cl ! k)"
  shows "last (cc_sent (cl_conns (rc_resume lost n (h # hs) cl) ! k)) =
    with_rid (cl_next_rid cl) (subscribe_frame (cs_selector (cl_handles cl ! h)) (resume_policy (cl_handles cl ! h)))"
  using assms
  by (auto simp: request_begin_def raw_send_def resume_failed_def with_rid_def Let_def split: sum.splits if_splits)

lemma note_ack_resumes:
  assumes "cs_policy h = FromUnixTimestamp ts"
  shows "\<exists>t \<ge> now. resume_policy (note_ack now h) = FromUnixTimestamp t"
  using assms by (cases "cs_last_acked h") (auto simp: note_ack_def resume_policy_def)

lemma ack_frame_wf: "mp_wf (MDict (ack_frame did)) \<and> op_tagged (ack_frame did)"
  by (simp add: ack_frame_def op_tagged_def)

lemma ack_of_nothing:
  "dict_get (cn_inflight c) did = None \<Longrightarrow> reader_turn lost now (Inr (ack_frame did)) c b = (c\<lparr>cn_last_recv := now\<rparr>, b)"
  by (simp add: reader_turn_def after_reader_def on_ack_def settle_def lookup_key_def)

text \<open>A settled delivery is gone from the connection: the same frame again does nothing.\<close>

lemma ack_turn:
  assumes "dict_get (cn_inflight c) (dl_id d) = Some d" "dict_get (cn_subs c) (dl_sid d) = Some x"
    and "ack d b = (Inr u, b')"
  shows "reader_turn lost now (Inr (ack_frame (dl_id d))) c b =
    (c\<lparr>cn_last_recv := now, cn_inflight := dict_pop (dl_id d) (cn_inflight c)\<rparr>, b')"
  using assms
  by (simp add: reader_turn_def after_reader_def on_ack_def settle_def lookup_key_def Let_def)

text \<open>What a pump that writes leaves in its connection.\<close>

lemma pump_wrote:
  assumes "core_inv b" "subs_known b (cn_subs c)" "j < length (cn_subs c)" "cn_subs c ! j = (sid, a, Running)"
    and "stream_next a b = (Next d, b0)" "pump_turn False j c b = (c1, b1)" "cn_sent c1 \<noteq> cn_sent c"
  shows "dl_sid d = sid" "cn_sent c1 = cn_sent c @ [delivery_to_wire d]"
    "dict_get (cn_inflight c1) (dl_id d) = Some d" "dict_get (cn_subs c1) sid = Some (a, Running)"
    "\<exists>bs. encode_frame (cn_packb c) (delivery_to_wire d) = Inr bs"
proof -
  have entry: "a < length (bk_regs b)" "fst (statics b ! a) = sid" "dict_get (cn_subs c) sid = Some (a, Running)"
    using subs_known_nth [OF assms(2-4)] by simp_all
  show "dl_sid d = sid"
    using stream_next_safe [OF assms(1) entry(1) assms(5)] entry(2) by (simp add: good_delivery_def)
  show "cn_sent c1 = cn_sent c @ [delivery_to_wire d]" "dict_get (cn_inflight c1) (dl_id d) = Some d"
    "dict_get (cn_subs c1) sid = Some (a, Running)" "\<exists>bs. encode_frame (cn_packb c) (delivery_to_wire d) = Inr bs"
    using assms(4-7) entry(3) by (auto simp: pump_turn_def conn_send_def dict_simps split: sum.splits if_splits)
qed

text \<open>
  C12. An acknowledgement gets back to the broker: over any state of the server, when a pump writes
  a delivery whose payload and extras are well-formed for MessagePack, the client reads what it decodes
  from the bytes and a consumer that waits on the handle gets exactly that delivery; when it
  acknowledges and the frame can be written, the turn of the server's reader on what it decodes from the
  bytes of the ack is the broker's \<open>ack\<close> of that delivery, whatever happened to the broker meanwhile,
  provided the store records it; the delivery is then inflight neither at the connection nor at
  the broker, and the frame sent once more changes nothing but the time of the last frame.  A
  subscription that asked for history resumes no earlier than this message: what the reconnect task
  writes for the handle, if it writes, is a subscribe from a time that is at least the message's.
\<close>

theorem ack_end_to_end:
  assumes "server_rel s sr" "i < length (sr_conns sr)" "c = sr_conns sr ! i"
    and "j < length (cn_subs c)" "cn_subs c ! j = (sid, a, Running)" "stream_next a (sr_broker sr) = (Next d, b0)"
    and "pump_turn False j c (sr_broker sr) = (c1, b1)" "cn_sent c1 \<noteq> cn_sent c"
    and "k < length (cl_conns cl)" "cc_reading (cl_conns cl ! k)" "cl_writer cl = Some k"
    and "dict_get (cl_by_server cl) sid = Some h" "h < length (cl_handles cl)"
    and "se_queue (cl_handles cl ! h) = []" "se_get (cl_handles cl ! h) = Getting"
    and "msgpack_roundtrip (cn_packb c) unpackb" "msgpack_roundtrip (cl_packb cl) unpackb"
    and "mp_wf (msg_payload (dl_message d))" "mp_wf (MDict (str_keys (msg_extras (dl_message d))))"
    and "cl1 = client_run [ReadFrame k (over_wire (cn_packb c) unpackb (last (cn_sent c1))), Consume h TaskRuns] cl"
    and "cl2 = client_run [Consume h Wakes, AckIt False h d] cl1"
    and "cc_sent (cl_conns cl2 ! k) \<noteq> cc_sent (cl_conns cl ! k)"
    and "ack d b2 = (Inr u, b3)" "F = over_wire (cl_packb cl) unpackb (last (cc_sent (cl_conns cl2 ! k)))"
    and "reader_turn lost now F c1 b2 = (c2, b2')"
  shows "fst (se_act Wakes (cl_handles cl1 ! h)) = Some (Yield d) \<and> b2' = b3 \<and>
         dict_get (cn_inflight c2) (dl_id d) = None \<and> dict_get (bk_inflight b3) (dl_id d) = None \<and>
         reader_turn lost' now' F c2 b4 = (c2\<lparr>cn_last_recv := now'\<rparr>, b4) \<and>
         (\<forall>ts cl3 k3 n hs lost3. cs_policy (cl_handles cl ! h) = FromUnixTimestamp ts \<and>
            cl_handles cl3 ! h = cl_handles cl2 ! h \<and> cl_writer cl3 = Some k3 \<and> k3 < length (cl_conns cl3) \<and>
            cc_sent (cl_conns (rc_resume lost3 n (h # hs) cl3) ! k3) \<noteq> cc_sent (cl_conns cl3 ! k3) \<longrightarrow>
            (\<exists>t \<ge> msg_created_at (dl_message d). last (cc_sent (cl_conns (rc_resume lost3 n (h # hs) cl3) ! k3)) =
               with_rid (cl_next_rid cl3) (subscribe_frame (cs_selector (cl_handles cl ! h)) (FromUnixTimestamp t))))"
proof -
  note rel = server_rel_conn [OF assms(1,2), folded assms(3)]
  note wrote = pump_wrote [OF rel assms(4-8)]
  have "over_wire (cn_packb c) unpackb (delivery_to_wire d) = Inr (delivery_to_wire d)"
    using over_wire_same [OF assms(16)] wrote(5) mp_wf_delivery [OF assms(18,19)] by blast
  then have read: "client_act (ReadFrame k (over_wire (cn_packb c) unpackb (last (cn_sent c1)))) cl = upd_handle h (se_push d) cl"
    using delivery_read [OF assms(9,10)] assms(12) wrote(1,2) by simp
  have cl1: "cl1 = cl\<lparr>cl_handles := (cl_handles cl)[h := (cl_handles cl ! h)\<lparr>se_queue := [], se_get := Got d\<rparr>]\<rparr>"
    using assms(13-15,20) read by (simp add: client_run_def upd_handle_def se_push_def get_runs_def)
  let ?cl = "client_act (Consume h Wakes) cl1"
  have cl: "cl_conns ?cl = cl_conns cl" "cl_writer ?cl = Some k" "h < length (cl_handles ?cl)" "cl_packb ?cl = cl_packb cl"
    and handle: "cs_policy (cl_handles ?cl ! h) = cs_policy (cl_handles cl ! h)"
      "cs_selector (cl_handles ?cl ! h) = cs_selector (cl_handles cl ! h)"
    using assms(11,13) by (simp_all add: cl1 upd_handle_def anext_wakes_def)
  have cl2: "cl2 = client_act (AckIt False h d) ?cl" using assms(21) by (simp add: client_run_def)
  have grew: "cc_sent (cl_conns (client_act (AckIt False h d) ?cl) ! k) \<noteq> cc_sent (cl_conns ?cl ! k)"
    using assms(22) unfolding cl2 cl(1) .
  have k: "k < length (cl_conns ?cl)" using assms(9) cl(1) by simp
  note written = client_ack_writes [OF cl(2) k cl(3) grew, folded cl2]
  obtain bs where "encode_frame (cl_packb cl) (ack_frame (dl_id d)) = Inr bs" using written(3) unfolding cl(4) by blast
  then have F: "F = Inr (ack_frame (dl_id d))"
    using over_wire_same [OF assms(17)] ack_frame_wf unfolding assms(24) written(1) by blast
  have "dict_get (cn_subs c1) (dl_sid d) = Some (a, Running)" using wrote(1,4) by simp
  from ack_turn [OF wrote(3) this assms(23)] assms(25)
  have turn: "c2 = c1\<lparr>cn_last_recv := now, cn_inflight := dict_pop (dl_id d) (cn_inflight c1)\<rparr>" "b2' = b3"
    by (simp_all add: F)
  then have gone: "dict_get (cn_inflight c2) (dl_id d) = None" by (simp add: dict_simps)
  have "dict_get (bk_inflight (snd (ack d b2))) (dl_id d) = None"
    by (simp add: ack_def Let_def frame_simps dict_simps split: prod.split)
  then have inflight: "dict_get (bk_inflight b3) (dl_id d) = None" using assms(23) by simp
  have yields: "fst (se_act Wakes (cl_handles cl1 ! h)) = Some (Yield d)"
    using assms(13) by (simp add: cl1 anext_wakes_def)
  have resumes: "\<exists>t \<ge> msg_created_at (dl_message d). last (cc_sent (cl_conns (rc_resume lost3 n (h # hs) cl3) ! k3)) =
      with_rid (cl_next_rid cl3) (subscribe_frame (cs_selector (cl_handles cl ! h)) (FromUnixTimestamp t))"
    if pol: "cs_policy (cl_handles cl ! h) = FromUnixTimestamp ts" and same: "cl_handles cl3 ! h = cl_handles cl2 ! h"
      and w: "cl_writer cl3 = Some k3" "k3 < length (cl_conns cl3)"
        "cc_sent (cl_conns (rc_resume lost3 n (h # hs) cl3) ! k3) \<noteq> cc_sent (cl_conns cl3 ! k3)" for ts cl3 k3 n hs lost3
  proof -
    have "cl_handles cl3 ! h = note_ack (msg_created_at (dl_message d)) (cl_handles ?cl ! h)"
      using cl(3) by (simp add: same written(2))
    moreover obtain t where "msg_created_at (dl_message d) \<le> t"
      "resume_policy (note_ack (msg_created_at (dl_message d)) (cl_handles ?cl ! h)) = FromUnixTimestamp t"
      using note_ack_resumes [OF trans [OF handle(1) pol]] by blast
    moreover have "cs_selector (note_ack ts' hh) = cs_selector hh" for ts' hh by (simp add: note_ack_def)
    ultimately show ?thesis unfolding resume_writes [OF w] handle(2) [symmetric] by auto
  qed
  have again: "reader_turn lost' now' F c2 b4 = (c2\<lparr>cn_last_recv := now'\<rparr>, b4)" unfolding F by (rule ack_of_nothing [OF gone])
  show ?thesis
    by (intro conjI allI impI yields turn(2) gone inflight again, elim conjE) (rule resumes)
qed

text \<open>The net of \<open>Arrival\<close> after a publish of the client, which is also the consumer and waits.\<close>

definition waiting_net :: "mem_store net" where
  "waiting_net = net_run
     [Connect any_pack False 0, AtClient (Subscribe False ''a'' None), Upward 0 False 1, Downward 0, AtClient (ResumeCall 0),
      AtClient (Publish False ''a'' (MInt 7) None), Upward 0 False 5, AtClient (Consume 0 Begin)]
     (net_start (client_init True (1 / 2) 30 None any_pack) fresh_server)"

text \<open>The frames of the delivery and of its ack, and both sides with the MessagePack for just these.\<close>

definition acked_frames :: "frame list" where
  "acked_frames =
     (case fst (stream_next 0 (sr_broker (nt_server waiting_net))) of
        Next d \<Rightarrow> [delivery_to_wire d, ack_frame (dl_id d)] | _ \<Rightarrow> [])"

definition waiting_conn :: conn where
  "waiting_conn = sr_conns (with_pack (table_pack acked_frames) (nt_server waiting_net)) ! 0"

definition waiting_client :: client where
  "waiting_client = (nt_client waiting_net)\<lparr>cl_packb := table_pack acked_frames\<rparr>"

definition waiting_read :: client where
  "waiting_read = client_run
     [ReadFrame 0 (over_wire (table_pack acked_frames) (table_unpack acked_frames)
        (last (cn_sent (fst (pump_turn False 0 waiting_conn (sr_broker (nt_server waiting_net))))))),
      Consume 0 TaskRuns] waiting_client"

lemma pump_writes:
  assumes "cn_subs c ! j = (sid, a, Running)" "stream_next a b = (Next d, b0)" "cn_open c"
    and "encode_frame (cn_packb c) (delivery_to_wire d) = Inr bs"
  shows "cn_sent (fst (pump_turn False j c b)) = cn_sent c @ [delivery_to_wire d]"
  using assms by (simp add: pump_turn_def conn_send_def)

lemma consume_keeps [simp]:
  "cl_conns (client_act (Consume h x) cl) = cl_conns cl" "cl_writer (client_act (Consume h x) cl) = cl_writer cl"
  "cl_packb (client_act (Consume h x) cl) = cl_packb cl"
  "length (cl_handles (client_act (Consume h x) cl)) = length (cl_handles cl)"
  by (simp_all add: upd_handle_def)

lemma ack_grows:
  assumes "cl_writer cl = Some k" "k < length (cl_conns cl)" "cc_open (cl_conns cl ! k)" "a < length (cl_handles cl)"
    and "encode_frame (cl_packb cl) (ack_frame (dl_id d)) = Inr bs"
  shows "cc_sent (cl_conns (client_act (AckIt False a d) cl) ! k) = cc_sent (cl_conns cl ! k) @ [ack_frame (dl_id d)]"
  using assms by (simp add: client_ack_def raw_send_def upd_handle_def ack_frame_def Let_def)

theorem ack_end_to_end_witness:
  "\<exists>d. fst (stream_next 0 (sr_broker (nt_server waiting_net))) = Next d \<and>
     fst (se_act Wakes (cl_handles waiting_read ! 0)) = Some (Yield d) \<and>
     snd (reader_turn False 9 (over_wire (table_pack acked_frames) (table_unpack acked_frames)
         (last (cc_sent (cl_conns (client_run [Consume 0 Wakes, AckIt False 0 d] waiting_read) ! 0))))
       (fst (pump_turn False 0 waiting_conn (sr_broker (nt_server waiting_net)))) (sr_broker (nt_server waiting_net))) =
     snd (ack d (sr_broker (nt_server waiting_net)))"
proof -
  let ?plain = "nt_server waiting_net" and ?cl = waiting_client and ?P = "table_pack acked_frames"
  let ?sr = "with_pack ?P (nt_server waiting_net)" and ?b = "sr_broker (nt_server waiting_net)"
  let ?old = "sr_conns (nt_server waiting_net) ! 0" and ?U = "table_unpack acked_frames"
  have "draws_distinct (sr_broker (sr_run [] fresh_server))" by code_simp
  then obtain s0 where "server_rel s0 (sr_run [] fresh_server)" by (rule fresh_server_rel)
  then have s0: "server_rel s0 fresh_server" by (simp add: sr_run_def)
  have "draws_distinct ?b" by code_simp
  then have "no_collision ?b" by (simp add: draws_distinct)
  then have "net_ok waiting_net" unfolding waiting_net_def by (intro net_ok_run net_ok_start [OF s0])
  then obtain s where "server_rel s ?plain" by (auto simp: net_ok_def)
  then have s: "server_rel s ?sr" by (rule server_rel_with_pack)
  have old: "length (sr_conns ?plain) = 1" "length (cn_subs ?old) = 1" "fst (snd (cn_subs ?old ! 0)) = 0"
    "snd (snd (cn_subs ?old ! 0)) = Running" "cn_open ?old" by code_simp+
  then obtain sid where sid: "cn_subs ?old ! 0 = (sid, 0, Running)" by (metis prod.collapse)
  then have c: "0 < length (sr_conns ?sr)" "waiting_conn = sr_conns ?sr ! 0" "0 < length (cn_subs waiting_conn)"
    "cn_subs waiting_conn ! 0 = (sid, 0, Running)" "cn_packb waiting_conn = ?P" "cn_open waiting_conn"
    using old by (simp_all add: waiting_conn_def)
  have "case fst (stream_next 0 ?b) of
      Next d \<Rightarrow> mp_wf (msg_payload (dl_message d)) \<and> msg_extras (dl_message d) = [] \<and> is_ok (fst (ack d ?b))
    | _ \<Rightarrow> False" by code_simp
  then obtain d b0 where d: "stream_next 0 ?b = (Next d, b0)" and facts: "mp_wf (msg_payload (dl_message d)) \<and>
      msg_extras (dl_message d) = [] \<and> is_ok (fst (ack d ?b))"
    by (rule pumpable)
  have fs: "acked_frames = [delivery_to_wire d, ack_frame (dl_id d)]" by (simp add: acked_frames_def d)
  have table: "delivery_to_wire d \<in> set acked_frames" "ack_frame (dl_id d) \<in> set acked_frames" unfolding fs by simp_all
  obtain bs1 where bs1: "encode_frame ?P (delivery_to_wire d) = Inr bs1" using table_encodes [OF table(1)] by blast
  obtain bs2 where bs2: "encode_frame ?P (ack_frame (dl_id d)) = Inr bs2" using table_encodes [OF table(2)] by blast
  have d': "stream_next 0 (sr_broker ?sr) = (Next d, b0)" using d by simp
  obtain c1 b1 where pump: "pump_turn False 0 waiting_conn (sr_broker ?sr) = (c1, b1)" by fastforce
  then have c1: "fst (pump_turn False 0 waiting_conn ?b) = c1" by simp
  from pump_writes [OF c(4) d c(6) bs1 [folded c(5)]] have wrote: "cn_sent c1 = cn_sent waiting_conn @ [delivery_to_wire d]"
    by (simp only: c1)
  then have sent: "cn_sent c1 \<noteq> cn_sent waiting_conn" by simp
  let ?orig = "nt_client waiting_net"
  have cl0: "length (cl_conns ?orig) = 1" "cc_reading (cl_conns ?orig ! 0)" "cc_open (cl_conns ?orig ! 0)" "cl_writer ?orig = Some 0"
    "map snd (cl_by_server ?orig) = [0]" "map fst (cl_by_server ?orig) = [fst (cn_subs ?old ! 0)]"
    "length (cl_handles ?orig) = 1" "se_queue (cl_handles ?orig ! 0) = []" by code_simp+
  then have cl: "0 < length (cl_conns ?cl)" "cc_reading (cl_conns ?cl ! 0)" "cl_writer ?cl = Some 0"
    "0 < length (cl_handles ?cl)" "se_queue (cl_handles ?cl ! 0) = []" "cc_open (cl_conns ?cl ! 0)"
    by (simp_all add: waiting_client_def)
  have route: "dict_get (cl_by_server ?cl) sid = Some 0"
    using sid cl0(5,6) by (cases "cl_by_server ?orig") (auto simp: waiting_client_def)
  have "case se_get (cl_handles ?orig ! 0) of Getting \<Rightarrow> True | _ \<Rightarrow> False" by code_simp
  then have get: "se_get (cl_handles ?cl ! 0) = Getting" by (auto simp: waiting_client_def split: get_task.splits)
  have packs: "cl_packb ?cl = ?P" by (simp add: waiting_client_def)
  have rt: "msgpack_roundtrip ?P ?U" by (rule table_roundtrip) (simp add: fs)
  have rts: "msgpack_roundtrip (cn_packb waiting_conn) ?U" "msgpack_roundtrip (cl_packb ?cl) ?U" unfolding c(5) packs by (rule rt)+
  have pay: "mp_wf (msg_payload (dl_message d))" "mp_wf (MDict (str_keys (msg_extras (dl_message d))))"
    using facts by (simp_all add: str_keys_def)
  have read: "waiting_read = client_run [ReadFrame 0 (over_wire (cn_packb waiting_conn) ?U (last (cn_sent c1))), Consume 0 TaskRuns] ?cl"
    by (simp only: waiting_read_def c(5) c1)
  let ?cl2 = "client_run [Consume 0 Wakes, AckIt False 0 d] waiting_read"
  let ?F = "over_wire (cl_packb ?cl) ?U (last (cc_sent (cl_conns ?cl2 ! 0)))"
  have "dl_sid d = sid"
    using pump_wrote(1) [OF server_rel_conn [OF s c(1), folded c(2)] c(3,4) d' pump sent] .
  then have "client_act (ReadFrame 0 (over_wire (cn_packb waiting_conn) ?U (last (cn_sent c1)))) ?cl = upd_handle 0 (se_push d) ?cl"
    using over_wire_same [OF rt bs1] mp_wf_delivery [OF pay] delivery_read [OF cl(1,2), of d 0] route
    by (simp only: c(5) wrote last_snoc simp_thms)
  then have same: "cl_conns waiting_read = cl_conns ?cl" "cl_writer waiting_read = Some 0" "cl_packb waiting_read = ?P"
    "length (cl_handles waiting_read) = length (cl_handles ?cl)"
    using cl(3) packs by (simp_all add: read client_run_def upd_handle_def del: client_act.simps)
  have "cc_sent (cl_conns ?cl2 ! 0) = cc_sent (cl_conns ?cl ! 0) @ [ack_frame (dl_id d)]"
    using ack_grows [where cl = "client_act (Consume 0 Wakes) waiting_read" and k = 0 and d = d and bs = bs2 and a = 0] same cl(1,4,6) bs2
    by (simp add: client_run_def del: client_act.simps)
  then have grew: "cc_sent (cl_conns ?cl2 ! 0) \<noteq> cc_sent (cl_conns ?cl ! 0)" by simp
  obtain u b3 where acked: "ack d ?b = (Inr u, b3)" using facts by (cases "ack d ?b") (auto elim!: is_ok.elims(2))
  obtain c2 b2' where turn: "reader_turn False 9 ?F c1 ?b = (c2, b2')" by fastforce
  have "fst (se_act Wakes (cl_handles waiting_read ! 0)) = Some (Yield d) \<and> b2' = b3"
    using ack_end_to_end [OF s c(1-4) d' pump sent cl(1-3) route cl(4,5) get rts pay read refl grew acked refl turn]
    by blast
  with d turn acked show ?thesis unfolding packs c1 by simp
qed

end
