(* ===== verification/DeadLetters.thy ===== *)
theory DeadLetters
  imports Broker_Effects SQLite LogHandlers
begin

text \<open>
  The retry engine with its log: \<open>_to_dlq\<close> of \<open>pubsub/server/retry.py\<close> stores the dead letter and
  then logs it at ERROR, which the package's logger hands to the durable handler
  (\<open>pubsub/server/log.py\<close>).  A contract that joins that of the durability and that of the log
  handler is met by the two pairs that the server process builds.
\<close>

section \<open>The code\<close>

definition ERROR_LEVEL :: int where "ERROR_LEVEL = 40"

text \<open>The record of \<open>_log.error(..., extra=...)\<close>: \<open>extra\<close> adds attributes to it.  \<open>path\<close> is the file of the module.\<close>

record dlq_log_record = log_record +
  lx_extra :: "(string, mpval) dict"

definition dlq_log :: "string \<Rightarrow> real \<Rightarrow> delivery \<Rightarrow> int \<Rightarrow> dlq_log_record" where
  "dlq_log path now d attempts =
     \<lparr>lr_created = now, lr_levelno = ERROR_LEVEL, lr_name = ''pubsub.server.retry'', lr_pathname = path,
      lr_lineno = 163, lr_text = Inr ''delivery exhausted; routed to DLQ'',
      lx_extra = [(''message_id'', MStr (msg_id (dl_message d))), (''topic'', MStr (msg_topic (dl_message d))),
                  (''attempt_count'', MInt attempts)]\<rparr>"

text \<open>A logger drops what is below its level (the larger of its own and the handler's); the handlers of \<open>log.py\<close> look at the fields every record has.\<close>

definition log_at ::
    "(log_record \<Rightarrow> 'h \<Rightarrow> unit result \<times> 'h) \<Rightarrow> int \<Rightarrow> dlq_log_record \<Rightarrow> 'h \<Rightarrow> unit result \<times> 'h" where
  "log_at handle level r h = (if level \<le> lr_levelno r then handle (log_record.truncate r) h else (Inr (), h))"

definition schedule_logged ::
    "(log_record \<Rightarrow> 'h \<Rightarrow> unit result \<times> 'h) \<Rightarrow> int \<Rightarrow> string \<Rightarrow> real \<Rightarrow> nat \<Rightarrow> delivery \<Rightarrow>
     'd broker \<times> 'h \<Rightarrow> unit result \<times> 'd broker \<times> 'h" where
  "schedule_logged handle level path now queue d bh =
     (case bh of (b, h) \<Rightarrow>
        case schedule_decision (bk_policy b) queue d of
          ToDlq e \<Rightarrow>
            (case to_dlq e b of
               (Inl x, b') \<Rightarrow> (Inl x, b', h)
             | (Inr _, b') \<Rightarrow>
                 (case log_at handle level (dlq_log path now d (dq_attempts e)) h of
                    (Inl x, h') \<Rightarrow> (Inl x, b', h')
                  | (Inr _, h') \<Rightarrow> (Inr (), on_exhausted (dl_sid d) b', h')))
        | Spawn t \<Rightarrow> (Inr (), b\<lparr>bk_tasks := bk_tasks b @ [t]\<rparr>, h))"

text \<open>Deliveries that come back one after the other, each with the time and its queue.\<close>

fun schedule_each ::
    "(log_record \<Rightarrow> 'h \<Rightarrow> unit result \<times> 'h) \<Rightarrow> int \<Rightarrow> string \<Rightarrow> (real \<times> nat \<times> delivery) list \<Rightarrow>
     'd broker \<times> 'h \<Rightarrow> unit result \<times> 'd broker \<times> 'h" where
  "schedule_each handle level path [] bh = (Inr (), bh)"
| "schedule_each handle level path ((now, q, d) # xs) bh =
     (case schedule_logged handle level path now q d bh of
        (Inl x, bh') \<Rightarrow> (Inl x, bh')
      | (Inr _, bh') \<Rightarrow> schedule_each handle level path xs bh')"

text \<open>The log does not change what the engine does.\<close>

lemma schedule_logged_schedule:
  assumes "schedule_logged handle level path now q d (b, h) = (Inr u, b', h')"
  shows "schedule q d b = (Inr u, b')"
  using assms
  by (auto simp: schedule_logged_def schedule_def split: schedule_decision.splits sum.splits prod.splits)

section \<open>The contract\<close>

text \<open>The dead letters of a list of deliveries, and the entries of the log for them.\<close>

definition spent :: "retry_policy \<Rightarrow> real \<times> nat \<times> delivery \<Rightarrow> bool" where
  "spent p x \<longleftrightarrow> exhausted p (dl_attempt (snd (snd x)) + 1)"

definition dead_letter :: "real \<times> nat \<times> delivery \<Rightarrow> dlq_entry" where
  "dead_letter x = dlq_entry_of (snd (snd x)) (dl_attempt (snd (snd x)) + 1)"

definition dead_letter_line :: "real \<times> nat \<times> delivery \<Rightarrow> log_entry" where
  "dead_letter_line x = (fst x, ERROR_LEVEL, ''pubsub.server.retry'', ''delivery exhausted; routed to DLQ'')"

definition dead_letter_lines :: "int \<Rightarrow> retry_policy \<Rightarrow> (real \<times> nat \<times> delivery) list \<Rightarrow> log_entry list" where
  "dead_letter_lines level p xs = (if level \<le> ERROR_LEVEL then map dead_letter_line (filter (spent p) xs) else [])"

lemma dead_letter_lines_Cons: "dead_letter_lines level p (x # xs) = dead_letter_lines level p [x] @ dead_letter_lines level p xs"
  by (simp add: dead_letter_lines_def)

lemma view_dlq_log [simp]: "view_entry (log_record.truncate (dlq_log path now d n)) = dead_letter_line (now, q, d)"
  by (simp add: view_entry_def log_entry_of_def dlq_log_def log_record.truncate_def dead_letter_line_def)

locale dead_letter_log =
  store: retaining_backend be inv retained acked dead storable mode +
  log: durable_handler handle flush retrieve hinv stored buffered arrange
  for be :: "'d backend" and inv retained acked dead storable mode
    and handle :: "log_record \<Rightarrow> 'h \<Rightarrow> unit result \<times> 'h" and flush retrieve hinv stored buffered arrange
begin

lemma log_at_buffers:
  assumes "hinv h" "log_at handle level (dlq_log path now d n) h = (Inr u, h')" "spent p (now, q, d)"
  shows "hinv h' \<and> stored h' = stored h \<and> buffered h' = buffered h @ dead_letter_lines level p [(now, q, d)]"
proof (cases "level \<le> ERROR_LEVEL")
  case True
  with assms(2) have "handle (log_record.truncate (dlq_log path now d n)) h = (Inr u, h')"
    by (simp add: log_at_def dlq_log_def)
  from log.emit_buffers [OF assms(1) this] True assms(3) show ?thesis by (simp add: dead_letter_lines_def)
qed (use assms in \<open>auto simp: log_at_def dlq_log_def dead_letter_lines_def\<close>)

lemma scheduled_logged:
  assumes "bk_backend b = be" "inv (bk_dur b)" "hinv h" "storable (dl_message d)"
    and "schedule_logged handle level path now q d (b, h) = (Inr u, b', h')"
  shows "bk_backend b' = be \<and> bk_policy b' = bk_policy b \<and> inv (bk_dur b') \<and> hinv h' \<and> stored h' = stored h \<and>
         dead (bk_dur b') = dead (bk_dur b) @ map dead_letter (filter (spent (bk_policy b)) [(now, q, d)]) \<and>
         buffered h' = buffered h @ dead_letter_lines level (bk_policy b) [(now, q, d)]"
proof (cases "spent (bk_policy b) (now, q, d)")
  case False
  then have "schedule_decision (bk_policy b) q d = Spawn \<lparr>rt_queue = q, rt_delivery = d, rt_next_attempt = dl_attempt d + 1\<rparr>"
    by (simp add: schedule_decision_def spent_def Let_def)
  with False assms show ?thesis by (auto simp: schedule_logged_def dead_letter_lines_def)
next
  case True
  let ?e = "dlq_entry_of d (dl_attempt d + 1)"
  have dec: "schedule_decision (bk_policy b) q d = ToDlq ?e"
    using True by (simp add: schedule_decision_def spent_def Let_def)
  obtain r d' where put: "be_to_dlq be ?e (bk_dur b) = (r, d')" by fastforce
  obtain r2 h2 where lg: "log_at handle level (dlq_log path now d (dl_attempt d + 1)) h = (r2, h2)" by fastforce
  have ok: "r = Inr ()" "r2 = Inr ()" "h' = h2" "b' = on_exhausted (dl_sid d) (b\<lparr>bk_dur := d'\<rparr>)"
    using assms(1,5) dec put lg
    by (auto simp: schedule_logged_def to_dlq_def dlq_entry_of_def split: sum.splits)
  have st: "storable (dq_message ?e)" using assms(4) by (simp add: dlq_entry_of_def)
  note logged = log_at_buffers [OF assms(3) lg [unfolded ok(2)] True]
  have "inv d' \<and> dead d' = dead (bk_dur b) @ [?e]"
    using store.dlq_frame [OF assms(2) put] store.dlq_ok [OF assms(2) st put [unfolded ok(1)]] by blast
  with logged show ?thesis
    using True ok assms(1) by (simp add: frame_simps dead_letter_def)
qed

lemma schedule_each_logged:
  assumes "bk_backend b = be" "inv (bk_dur b)" "hinv h" "\<forall>x\<in>set xs. storable (dl_message (snd (snd x)))"
    and "schedule_each handle level path xs (b, h) = (Inr u, b', h')"
  shows "inv (bk_dur b') \<and> hinv h' \<and> stored h' = stored h \<and>
         dead (bk_dur b') = dead (bk_dur b) @ map dead_letter (filter (spent (bk_policy b)) xs) \<and>
         buffered h' = buffered h @ dead_letter_lines level (bk_policy b) xs"
  using assms
proof (induction xs arbitrary: b h)
  case Nil
  then show ?case by (simp add: dead_letter_lines_def)
next
  case (Cons x xs)
  obtain now q d where x: "x = (now, q, d)" by (cases x)
  obtain r b1 h1 where step: "schedule_logged handle level path now q d (b, h) = (r, b1, h1)" by (metis surj_pair)
  with Cons.prems(5) x have "r = Inr ()" and rest: "schedule_each handle level path xs (b1, h1) = (Inr u, b', h')"
    by (auto split: sum.splits)
  with step Cons.prems x have one: "bk_backend b1 = be \<and> bk_policy b1 = bk_policy b \<and> inv (bk_dur b1) \<and> hinv h1 \<and>
      stored h1 = stored h \<and>
      dead (bk_dur b1) = dead (bk_dur b) @ map dead_letter (filter (spent (bk_policy b)) [x]) \<and>
      buffered h1 = buffered h @ dead_letter_lines level (bk_policy b) [x]"
    using scheduled_logged [of b h d level path now q "()" b1 h1] by simp
  with Cons.IH [of b1 h1] Cons.prems(4) rest dead_letter_lines_Cons [of level _ x xs] show ?case
    by (auto split: if_splits)
qed

text \<open>After the next flush a query finds what was logged before and a line for each dead letter, and no other.\<close>

lemma dead_letters_found:
  assumes "bk_backend b = be" "inv (bk_dur b)" "hinv h" "\<forall>x\<in>set xs. storable (dl_message (snd (snd x)))"
    and "schedule_each handle level path xs (b, h) = (Inr u, b', h')" "flush h' = (Inr v, h1)"
    and "retrieve least since h1 = (Inr rs, h2)"
  shows "dead (bk_dur b') = dead (bk_dur b) @ map dead_letter (filter (spent (bk_policy b)) xs) \<and>
         mset (map view_entry rs) =
           mset (filter (entry_matches least since) (stored h @ buffered h @ dead_letter_lines level (bk_policy b) xs))"
proof -
  note kept = schedule_each_logged [OF assms(1-5)]
  then have "hinv h1 \<and> stored h1 = stored h' @ buffered h' \<and> buffered h1 = []"
    using log.flush_stores [OF _ assms(6)] by blast
  with log.retrieve_mset [OF _ assms(7)] kept show ?thesis by simp
qed

end

section \<open>The pairs that the server process builds\<close>

interpretation mem_logged: dead_letter_log memory_backend "\<lambda>_. True" ms_history "\<lambda>s. dict_get (ms_acks s)" ms_dlq
  "\<lambda>_. True" mem_mode mlog_emit mlog_flush mlog_retrieve mlog_inv "\<lambda>s. map view_entry (ml_store s)"
  "\<lambda>s. map view_entry (ml_buffer s)" "\<lambda>es. es"
  by unfold_locales


section \<open>Properties\<close>


text \<open>The same with the pair for \<open>--durability memory\<close>, in the order of the log.\<close>

lemma dead_letters_logged_in_memory:
  assumes "bk_backend b = memory_backend"
    and "schedule_each mlog_emit level path xs (b, h) = (Inr u, b', h')"
  shows "ms_dlq (bk_dur b') = ms_dlq (bk_dur b) @ map dead_letter (filter (spent (bk_policy b)) xs) \<and>
         map view_entry (ml_buffer h') = map view_entry (ml_buffer h) @ dead_letter_lines level (bk_policy b) xs"
  using mem_logged.schedule_each_logged [OF assms(1) _ _ _ assms(2)] by (simp add: mlog_inv_def)








end
