(* ===== verification/RWLock.thy ===== *)
theory RWLock
  imports Prelude
begin

text \<open>
  The phase-fair read/write lock \<open>_RWLock\<close> of \<open>pubsub/server/_asqlite.py\<close> with the tasks that
  use it.  The lock's five fields are a record.  The queue holds the tasks suspended in
  \<open>self._cond.wait()\<close>, in order, each with whether it was notified; the body between two
  suspensions never gives up the loop, so it is one function.  As in \<open>asyncio.Condition\<close>,
  \<open>notify_all\<close> marks every waiter, a waiter that runs and has to wait again goes to the end
  of the queue, and a waiter cancelled in \<open>wait\<close> passes one notification on.
\<close>

record rwlock =
  rw_readers :: int
  rw_writer_active :: bool
  rw_waiting_writers :: int
  rw_waiting_readers :: int
  rw_reader_turn :: bool

datatype rw_kind = Reader | Writer

type_synonym waiter = "rw_kind \<times> bool"

text \<open>The lock, the condition's waiters, and how many tasks are between acquire and release.\<close>

record rw_sys =
  rs_lock :: rwlock
  rs_queue :: "waiter list"
  rs_reading :: nat
  rs_writing :: nat

definition rwlock_init :: rwlock where
  "rwlock_init = \<lparr>rw_readers = 0, rw_writer_active = False, rw_waiting_writers = 0,
     rw_waiting_readers = 0, rw_reader_turn = False\<rparr>"

section \<open>The code\<close>

text \<open>The two loop conditions.\<close>

definition read_blocked :: "rwlock \<Rightarrow> bool" where
  "read_blocked l \<longleftrightarrow> rw_writer_active l \<or> (0 < rw_waiting_writers l \<and> \<not> rw_reader_turn l)"

definition write_blocked :: "rwlock \<Rightarrow> bool" where
  "write_blocked l \<longleftrightarrow>
     rw_writer_active l \<or> 0 < rw_readers l \<or> (rw_reader_turn l \<and> 0 < rw_waiting_readers l)"

definition notify_all :: "waiter list \<Rightarrow> waiter list" where
  "notify_all q = map (\<lambda>(k, _). (k, True)) q"

fun notify_one :: "waiter list \<Rightarrow> waiter list" where
  "notify_one [] = []"
| "notify_one ((k, n) # q) = (if n then (k, n) # notify_one q else (k, True) # q)"

text \<open>One turn of the loop of \<open>acquire_read\<close>: in, or (back) to the end of the queue.\<close>

definition try_read :: "rw_sys \<Rightarrow> rw_sys" where
  "try_read s =
     (if read_blocked (rs_lock s) then s\<lparr>rs_queue := rs_queue s @ [(Reader, False)]\<rparr>
      else s\<lparr>rs_lock := (rs_lock s)\<lparr>rw_waiting_readers := rw_waiting_readers (rs_lock s) - 1,
                                   rw_readers := rw_readers (rs_lock s) + 1\<rparr>,
             rs_reading := Suc (rs_reading s)\<rparr>)"

definition acquire_read :: "rw_sys \<Rightarrow> rw_sys" where
  "acquire_read s =
     try_read (s\<lparr>rs_lock := (rs_lock s)\<lparr>rw_waiting_readers := rw_waiting_readers (rs_lock s) + 1\<rparr>\<rparr>)"

definition release_read :: "rw_sys \<Rightarrow> rw_sys" where
  "release_read s =
     (let l = (rs_lock s)\<lparr>rw_readers := rw_readers (rs_lock s) - 1\<rparr>;
          s1 = s\<lparr>rs_reading := rs_reading s - 1\<rparr>
      in if rw_readers l = 0
         then s1\<lparr>rs_lock := l\<lparr>rw_reader_turn := False\<rparr>, rs_queue := notify_all (rs_queue s)\<rparr>
         else s1\<lparr>rs_lock := l\<rparr>)"

definition try_write :: "rw_sys \<Rightarrow> rw_sys" where
  "try_write s =
     (if write_blocked (rs_lock s) then s\<lparr>rs_queue := rs_queue s @ [(Writer, False)]\<rparr>
      else s\<lparr>rs_lock := (rs_lock s)\<lparr>rw_waiting_writers := rw_waiting_writers (rs_lock s) - 1,
                                   rw_writer_active := True\<rparr>,
             rs_writing := Suc (rs_writing s)\<rparr>)"

definition acquire_write :: "rw_sys \<Rightarrow> rw_sys" where
  "acquire_write s =
     try_write (s\<lparr>rs_lock := (rs_lock s)\<lparr>rw_waiting_writers := rw_waiting_writers (rs_lock s) + 1\<rparr>\<rparr>)"

definition release_write :: "rw_sys \<Rightarrow> rw_sys" where
  "release_write s =
     s\<lparr>rs_lock := (rs_lock s)\<lparr>rw_writer_active := False,
                             rw_reader_turn := 0 < rw_waiting_readers (rs_lock s)\<rparr>,
       rs_queue := notify_all (rs_queue s), rs_writing := rs_writing s - 1\<rparr>"

text \<open>The waiter at position \<open>i\<close> leaves the queue, to run again or because it was cancelled.\<close>

definition drop_waiter :: "nat \<Rightarrow> rw_sys \<Rightarrow> rw_sys" where
  "drop_waiter i s = s\<lparr>rs_queue := take i (rs_queue s) @ drop (Suc i) (rs_queue s)\<rparr>"

definition wake_waiter :: "nat \<Rightarrow> rw_sys \<Rightarrow> rw_sys" where
  "wake_waiter i s =
     (case fst (rs_queue s ! i) of
        Reader \<Rightarrow> try_read (drop_waiter i s)
      | Writer \<Rightarrow> try_write (drop_waiter i s))"

text \<open>The \<open>finally\<close> of the two loops when the wait is cancelled.\<close>

definition cancel_waiter :: "nat \<Rightarrow> rw_sys \<Rightarrow> rw_sys" where
  "cancel_waiter i s =
     (let s1 = drop_waiter i s; l = rs_lock s in
      s1\<lparr>rs_queue := notify_one (rs_queue s1),
         rs_lock := (case fst (rs_queue s ! i) of
            Reader \<Rightarrow> l\<lparr>rw_waiting_readers := rw_waiting_readers l - 1\<rparr>
          | Writer \<Rightarrow> l\<lparr>rw_waiting_writers := rw_waiting_writers l - 1\<rparr>)\<rparr>)"

inductive rw_step :: "rw_sys \<Rightarrow> rw_sys \<Rightarrow> bool" where
  rw_acquire_read: "rw_step s (acquire_read s)"
| rw_acquire_write: "rw_step s (acquire_write s)"
| rw_release_read: "0 < rs_reading s \<Longrightarrow> rw_step s (release_read s)"
| rw_release_write: "0 < rs_writing s \<Longrightarrow> rw_step s (release_write s)"
| rw_wake: "i < length (rs_queue s) \<Longrightarrow> snd (rs_queue s ! i) \<Longrightarrow> rw_step s (wake_waiter i s)"
| rw_cancel: "i < length (rs_queue s) \<Longrightarrow> rw_step s (cancel_waiter i s)"

inductive_cases rw_stepE: "rw_step s t"

definition rw_start :: "rw_sys \<Rightarrow> bool" where
  "rw_start s \<longleftrightarrow> s = \<lparr>rs_lock = rwlock_init, rs_queue = [], rs_reading = 0, rs_writing = 0\<rparr>"

section \<open>The invariant\<close>

definition waiting :: "rw_kind \<Rightarrow> waiter list \<Rightarrow> nat" where
  "waiting k q = length (filter (\<lambda>w. fst w = k) q)"

definition all_notified :: "rw_kind \<Rightarrow> waiter list \<Rightarrow> bool" where
  "all_notified k q \<longleftrightarrow> (k, False) \<notin> set q"

definition counts_ok :: "rw_sys \<Rightarrow> bool" where
  "counts_ok s \<longleftrightarrow>
     rw_readers (rs_lock s) = int (rs_reading s) \<and>
     rs_writing s = (if rw_writer_active (rs_lock s) then 1 else 0) \<and>
     (rw_writer_active (rs_lock s) \<longrightarrow> rs_reading s = 0) \<and>
     rw_waiting_readers (rs_lock s) = int (waiting Reader (rs_queue s)) \<and>
     rw_waiting_writers (rs_lock s) = int (waiting Writer (rs_queue s))"

text \<open>
  Who must have been notified: in a reader turn all readers; without a holder and outside a
  reader turn all writers, and a reader if no writer waits; in a reader turn without readers
  some writer.
\<close>

definition wakeups_ok :: "rwlock \<Rightarrow> waiter list \<Rightarrow> bool" where
  "wakeups_ok l q \<longleftrightarrow>
     (rw_reader_turn l \<and> \<not> rw_writer_active l \<longrightarrow> all_notified Reader q) \<and>
     (\<not> rw_writer_active l \<and> rw_readers l = 0 \<longrightarrow>
        (\<not> rw_reader_turn l \<longrightarrow> all_notified Writer q) \<and>
        (rw_reader_turn l \<and> waiting Reader q = 0 \<and> q \<noteq> [] \<longrightarrow> (Writer, True) \<in> set q) \<and>
        (waiting Writer q = 0 \<and> q \<noteq> [] \<longrightarrow> (Reader, True) \<in> set q))"

definition rw_inv :: "rw_sys \<Rightarrow> bool" where
  "rw_inv s \<longleftrightarrow> counts_ok s \<and> wakeups_ok (rs_lock s) (rs_queue s)"

lemma waiting_simps [simp]:
  "waiting k [] = 0" "waiting k (w # q) = (if fst w = k then 1 else 0) + waiting k q"
  "waiting k (q @ r) = waiting k q + waiting k r"
  by (simp_all add: waiting_def)

lemma waiting_notify_all [simp]: "waiting k (notify_all q) = waiting k q"
  by (induction q) (auto simp: notify_all_def waiting_def split: prod.split)

lemma waiting_notify_one [simp]: "waiting k (notify_one q) = waiting k q"
  by (induction q rule: notify_one.induct) auto

lemma all_notified_all [simp]: "all_notified k (notify_all q)"
  by (auto simp: all_notified_def notify_all_def)

lemma all_notified_simps [simp]:
  "all_notified k []" "all_notified k (w # q) \<longleftrightarrow> w \<noteq> (k, False) \<and> all_notified k q"
  "all_notified k (q @ r) \<longleftrightarrow> all_notified k q \<and> all_notified k r"
  by (auto simp: all_notified_def)

lemma waiting_zero: "waiting k q = 0 \<longleftrightarrow> (\<forall>n. (k, n) \<notin> set q)"
  by (induction q) auto

lemma kind_cases: "fst w = Reader \<or> fst w = Writer"
  by (cases "fst w") simp_all

lemma some_waiter: "q \<noteq> [] \<Longrightarrow> 0 < waiting Reader q \<or> 0 < waiting Writer q"
  by (cases q; cases "fst (hd q)") auto

lemma notified_member: "all_notified k q \<Longrightarrow> 0 < waiting k q \<Longrightarrow> (k, True) \<in> set q"
  by (induction q) (auto simp: all_notified_def split: if_splits)

lemma notify_one_mono: "all_notified k q \<Longrightarrow> all_notified k (notify_one q)"
  by (induction q rule: notify_one.induct) (auto simp: all_notified_def)

lemma notify_one_keeps: "(k, True) \<in> set q \<Longrightarrow> (k, True) \<in> set (notify_one q)"
  by (induction q rule: notify_one.induct) auto

text \<open>With waiters of one kind only, passing a notification on reaches one of them.\<close>

lemma notify_one_only:
  "q \<noteq> [] \<Longrightarrow> \<forall>w\<in>set q. fst w = k \<Longrightarrow> (k, True) \<in> set (notify_one q)"
  by (induction q rule: notify_one.induct) auto

lemma notify_one_other:
  assumes "q \<noteq> []" "waiting k q = 0" "k \<noteq> k'"
  shows "(k', True) \<in> set (notify_one q)"
proof (rule notify_one_only [OF assms(1)])
  show "\<forall>w\<in>set q. fst w = k'"
    using assms(2,3) by (auto simp: waiting_zero) (metis rw_kind.exhaust)
qed

lemma notify_one_Nil [simp]: "notify_one q = [] \<longleftrightarrow> q = []"
  by (cases q rule: notify_one.cases) auto

text \<open>Taking one waiter out.\<close>

lemma queue_split: "i < length q \<Longrightarrow> q = take i q @ q ! i # drop (Suc i) q"
  by (simp add: id_take_nth_drop)

lemma waiting_split:
  "i < length q \<Longrightarrow> waiting k q = (if fst (q ! i) = k then 1 else 0) + waiting k (take i q @ drop (Suc i) q)"
  by (subst queue_split [of i q]) simp_all

lemma all_notified_split: "all_notified k q \<Longrightarrow> all_notified k (take i q @ drop (Suc i) q)"
  by (auto simp: all_notified_def dest: in_set_takeD in_set_dropD)

section \<open>Every step keeps the invariant\<close>

lemma wakeups_wait:
  assumes "wakeups_ok l q" "read_blocked l" "rw_waiting_writers l = int (waiting Writer q)"
  shows "wakeups_ok l (q @ [(Reader, False)])"
  using assms by (auto simp: wakeups_ok_def read_blocked_def)

lemma wakeups_wait_writer:
  assumes "wakeups_ok l q" "write_blocked l" "0 \<le> rw_readers l"
    and "rw_waiting_readers l = int (waiting Reader q)"
  shows "wakeups_ok l (q @ [(Writer, False)])"
  using assms by (auto simp: wakeups_ok_def write_blocked_def)

lemma wakeups_counters [simp]:
  "wakeups_ok (l\<lparr>rw_waiting_readers := n\<rparr>) q = wakeups_ok l q"
  "wakeups_ok (l\<lparr>rw_waiting_writers := n\<rparr>) q = wakeups_ok l q"
  by (simp_all add: wakeups_ok_def)

lemma blocked_counters [simp]:
  "read_blocked (l\<lparr>rw_waiting_readers := n\<rparr>) = read_blocked l"
  "write_blocked (l\<lparr>rw_waiting_writers := n\<rparr>) = write_blocked l"
  by (simp_all add: read_blocked_def write_blocked_def)

lemma inv_acquire_read: "rw_inv s \<Longrightarrow> rw_inv (acquire_read s)"
  unfolding rw_inv_def acquire_read_def try_read_def
  by (cases "read_blocked (rs_lock s)")
    (auto simp: counts_ok_def wakeups_wait wakeups_ok_def read_blocked_def split: if_splits)

lemma inv_acquire_write: "rw_inv s \<Longrightarrow> rw_inv (acquire_write s)"
  unfolding rw_inv_def acquire_write_def try_write_def
  by (cases "write_blocked (rs_lock s)")
    (auto simp: counts_ok_def wakeups_wait_writer wakeups_ok_def write_blocked_def split: if_splits)

lemma inv_release_write: "rw_inv s \<Longrightarrow> 0 < rs_writing s \<Longrightarrow> rw_inv (release_write s)"
  by (auto simp: rw_inv_def release_write_def counts_ok_def wakeups_ok_def notified_member
      dest: some_waiter split: if_splits)

lemma inv_release_read:
  assumes "rw_inv s" "0 < rs_reading s"
  shows "rw_inv (release_read s)"
proof (cases "rs_reading s = 1")
  case True
  have "(Reader, True) \<in> set (notify_all (rs_queue s))"
    if "waiting Writer (rs_queue s) = 0" "notify_all (rs_queue s) \<noteq> []"
  proof (rule notified_member [OF all_notified_all])
    show "0 < waiting Reader (notify_all (rs_queue s))" using some_waiter that by fastforce
  qed
  with assms True show ?thesis
    by (auto simp: rw_inv_def release_read_def counts_ok_def wakeups_ok_def Let_def split: if_splits)
next
  case False
  with assms show ?thesis
    by (auto simp: rw_inv_def release_read_def counts_ok_def wakeups_ok_def Let_def of_nat_diff split: if_splits)
qed

lemma notified_drop:
  "i < length q \<Longrightarrow> snd (q ! i) \<Longrightarrow> all_notified k q = all_notified k (take i q @ drop (Suc i) q)"
  by (subst (1) queue_split [of i q]) (auto simp: all_notified_simps)

text \<open>A waiter that runs: the counter still has it, the queue no longer.\<close>

lemma inv_wake:
  assumes "rw_inv s" "i < length (rs_queue s)" "snd (rs_queue s ! i)"
  shows "rw_inv (wake_waiter i s)"
proof -
  let ?q = "take i (rs_queue s) @ drop (Suc i) (rs_queue s)" and ?l = "rs_lock s"
  have n: "all_notified k (rs_queue s) = all_notified k ?q" for k
    using notified_drop [OF assms(2,3)] .
  note w = waiting_split [OF assms(2)]
  have c: "rw_readers ?l = int (rs_reading s)" "rs_writing s = (if rw_writer_active ?l then 1 else 0)"
    "rw_writer_active ?l \<Longrightarrow> rs_reading s = 0"
    "rw_waiting_readers ?l = int (waiting Reader (rs_queue s))"
    "rw_waiting_writers ?l = int (waiting Writer (rs_queue s))"
    using assms(1) by (simp_all add: rw_inv_def counts_ok_def)
  have k: "rw_reader_turn ?l \<Longrightarrow> \<not> rw_writer_active ?l \<Longrightarrow> all_notified Reader ?q"
    "\<not> rw_writer_active ?l \<Longrightarrow> rw_readers ?l = 0 \<Longrightarrow> \<not> rw_reader_turn ?l \<Longrightarrow> all_notified Writer ?q"
    using assms(1) n by (simp_all add: rw_inv_def wakeups_ok_def)
  show ?thesis
  proof (cases "fst (rs_queue s ! i)")
    case Reader
    then have w': "waiting Reader (rs_queue s) = Suc (waiting Reader ?q)" "waiting Writer (rs_queue s) = waiting Writer ?q"
      using w [of Reader] w [of Writer] by simp_all
    then show ?thesis
      using Reader c k
      by (cases "read_blocked ?l")
        (auto simp: wake_waiter_def drop_waiter_def try_read_def rw_inv_def counts_ok_def wakeups_ok_def
          read_blocked_def)
  next
    case Writer
    then have w': "waiting Writer (rs_queue s) = Suc (waiting Writer ?q)" "waiting Reader (rs_queue s) = waiting Reader ?q"
      using w [of Reader] w [of Writer] by simp_all
    then show ?thesis
      using Writer c k
      by (cases "write_blocked ?l")
        (auto simp: wake_waiter_def drop_waiter_def try_write_def rw_inv_def counts_ok_def wakeups_ok_def
          write_blocked_def)
  qed
qed

lemma wakeups_cancel:
  assumes "wakeups_ok l q" "i < length q"
  shows "wakeups_ok l (notify_one (take i q @ drop (Suc i) q))"
  using assms(1) notify_one_other [of "take i q @ drop (Suc i) q"]
  unfolding wakeups_ok_def
  by (auto intro: notify_one_mono dest: all_notified_split [of _ q i] simp del: all_notified_simps)

lemma inv_cancel:
  assumes "rw_inv s" "i < length (rs_queue s)"
  shows "rw_inv (cancel_waiter i s)"
proof -
  let ?q = "take i (rs_queue s) @ drop (Suc i) (rs_queue s)"
  have "wakeups_ok (rs_lock s) (notify_one ?q)"
    using assms(1) by (simp only: rw_inv_def wakeups_cancel assms(2))
  moreover have "waiting k (rs_queue s) = (if fst (rs_queue s ! i) = k then 1 else 0) + waiting k ?q" for k
    by (rule waiting_split [OF assms(2)])
  ultimately show ?thesis
    using assms(1)
    by (cases "fst (rs_queue s ! i)")
      (simp_all add: rw_inv_def counts_ok_def cancel_waiter_def drop_waiter_def Let_def)
qed

lemma rw_inv_step: "rw_inv s \<Longrightarrow> rw_step s t \<Longrightarrow> rw_inv t"
  by (erule rw_stepE)
    (simp_all add: inv_acquire_read inv_acquire_write inv_release_read inv_release_write inv_wake inv_cancel)

lemma rw_inv_start: "rw_start s \<Longrightarrow> rw_inv s"
  by (simp add: rw_start_def rw_inv_def counts_ok_def wakeups_ok_def rwlock_init_def)

interpretation rw: invariant_system rw_start rw_step rw_inv
  by unfold_locales (blast intro: rw_inv_start rw_inv_step)+

abbreviation reachable_rw :: "rw_sys \<Rightarrow> bool" where
  "reachable_rw \<equiv> reach rw_start rw_step"

section \<open>Properties\<close>

text \<open>
  C27. Mutual exclusion: in every reachable state of the read/write lock at most one task is
  between \<open>acquire_write\<close> and \<open>release_write\<close>, no task reads meanwhile, and the counters of the
  lock are exactly the numbers of reading, waiting and writing tasks - also after cancelled
  waits.
\<close>

theorem rwlock_mutual_exclusion:
  assumes "reachable_rw s"
  shows "rs_writing s \<le> 1 \<and> (rs_writing s = 1 \<longrightarrow> rs_reading s = 0) \<and>
         rw_writer_active (rs_lock s) = (rs_writing s = 1) \<and>
         rw_readers (rs_lock s) = int (rs_reading s) \<and>
         rw_waiting_readers (rs_lock s) = int (waiting Reader (rs_queue s)) \<and>
         rw_waiting_writers (rs_lock s) = int (waiting Writer (rs_queue s))"
  using rw.reachable_inv [OF assms] by (auto simp: rw_inv_def counts_ok_def split: if_splits)

definition rw_init :: rw_sys where
  "rw_init = \<lparr>rs_lock = rwlock_init, rs_queue = [], rs_reading = 0, rs_writing = 0\<rparr>"

text \<open>A writer holds the lock, a reader and a second writer wait; then the first releases.\<close>

definition rw_demo :: rw_sys where
  "rw_demo = release_write (acquire_write (acquire_read (acquire_write rw_init)))"

lemma rw_demo_reachable: "reachable_rw rw_demo"
proof -
  note step = reach_step [of rw_start rw_step]
  have "reachable_rw rw_init" by (rule reach_init) (simp add: rw_start_def rw_init_def)
  note 1 = step [OF this rw_acquire_write]
  note 2 = step [OF step [OF 1 rw_acquire_read] rw_acquire_write]
  have "0 < rs_writing (acquire_write (acquire_read (acquire_write rw_init)))" by code_simp
  from step [OF 2 rw_release_write [OF this]] show ?thesis by (simp only: rw_demo_def)
qed

theorem rwlock_mutual_exclusion_witness: "rs_writing rw_demo \<le> 1"
  using rwlock_mutual_exclusion [OF rw_demo_reachable] by blast

text \<open>
  C28. No lost wakeup in the lock: in every reachable state, cancellations included, where no
  task holds the lock but tasks wait for it, some waiter has been notified that gets the lock
  as soon as it runs.
\<close>

theorem rwlock_no_lost_wakeup:
  assumes "reachable_rw s" "rs_reading s = 0" "rs_writing s = 0" "rs_queue s \<noteq> []"
  shows "\<exists>i < length (rs_queue s). snd (rs_queue s ! i) \<and>
           rs_reading (wake_waiter i s) + rs_writing (wake_waiter i s) = 1"
proof -
  let ?l = "rs_lock s" and ?q = "rs_queue s"
  have inv: "counts_ok s" "wakeups_ok ?l ?q" using rw.reachable_inv [OF assms(1)] by (simp_all add: rw_inv_def)
  then have idle: "\<not> rw_writer_active ?l" "rw_readers ?l = 0"
    using assms(2,3) by (auto simp: counts_ok_def split: if_splits)
  have "\<exists>k. (k, True) \<in> set ?q \<and> (k = Reader \<longrightarrow> \<not> read_blocked ?l) \<and> (k = Writer \<longrightarrow> \<not> write_blocked ?l)"
  proof (cases "waiting Reader ?q = 0")
    case True
    then have "0 < waiting Writer ?q" using some_waiter [OF assms(4)] by simp
    then have "(Writer, True) \<in> set ?q"
      using inv(2) idle True assms(4) notified_member [of Writer ?q] by (auto simp: wakeups_ok_def)
    moreover have "\<not> write_blocked ?l" using inv(1) idle True by (simp add: write_blocked_def counts_ok_def)
    ultimately show ?thesis by blast
  next
    case False
    show ?thesis
    proof (cases "rw_reader_turn ?l \<or> waiting Writer ?q = 0")
      case True
      then have "(Reader, True) \<in> set ?q"
        using inv(2) idle False assms(4) notified_member [of Reader ?q] by (auto simp: wakeups_ok_def)
      moreover have "\<not> read_blocked ?l" using inv(1) idle True by (auto simp: read_blocked_def counts_ok_def)
      ultimately show ?thesis by blast
    next
      case False
      then have "(Writer, True) \<in> set ?q"
        using inv(2) idle notified_member [of Writer ?q] by (auto simp: wakeups_ok_def)
      moreover have "\<not> write_blocked ?l" using idle False by (simp add: write_blocked_def)
      ultimately show ?thesis by blast
    qed
  qed
  then obtain i k where "i < length ?q" "?q ! i = (k, True)"
    "k = Reader \<longrightarrow> \<not> read_blocked ?l" "k = Writer \<longrightarrow> \<not> write_blocked ?l"
    by (auto simp: in_set_conv_nth)
  then show ?thesis
    using assms(2,3)
    by (intro exI [of _ i]) (cases k; simp add: wake_waiter_def try_read_def try_write_def drop_waiter_def)
qed

theorem rwlock_no_lost_wakeup_witness:
  "\<exists>i. snd (rs_queue rw_demo ! i) \<and> rs_reading (wake_waiter i rw_demo) + rs_writing (wake_waiter i rw_demo) = 1"
proof -
  have "rs_reading rw_demo = 0" "rs_writing rw_demo = 0" "length (rs_queue rw_demo) = 2" by code_simp+
  then show ?thesis using rwlock_no_lost_wakeup [OF rw_demo_reachable] by fastforce
qed

text \<open>
  Phase fairness: releasing a write with readers waiting gives them the turn, and while it is
  theirs and one of them still waits no step lets a writer in; and outside a reader turn a
  new reader does not overtake a waiting writer.
\<close>

theorem rwlock_phase_fair:
  assumes "reachable_rw s" "rw_step s t"
  shows "(rw_reader_turn (rs_lock s) \<and> 0 < waiting Reader (rs_queue s) \<longrightarrow> rs_writing t \<le> rs_writing s) \<and>
         (0 < rs_writing s \<and> 0 < waiting Reader (rs_queue s) \<longrightarrow> rw_reader_turn (rs_lock (release_write s))) \<and>
         (\<not> rw_reader_turn (rs_lock s) \<and> 0 < waiting Writer (rs_queue s) \<longrightarrow>
            rs_reading (acquire_read s) = rs_reading s)"
proof -
  have c: "rw_waiting_readers (rs_lock s) = int (waiting Reader (rs_queue s))"
    "rw_waiting_writers (rs_lock s) = int (waiting Writer (rs_queue s))"
    using rw.reachable_inv [OF assms(1)] by (simp_all add: rw_inv_def counts_ok_def)
  have "rs_writing t \<le> rs_writing s" if "rw_reader_turn (rs_lock s)" "0 < waiting Reader (rs_queue s)"
    using assms(2)
  proof cases
    case rw_acquire_write
    with that c show ?thesis by (simp add: acquire_write_def try_write_def write_blocked_def)
  next
    case (rw_wake i)
    with that c show ?thesis
      by (cases "fst (rs_queue s ! i)")
        (simp_all add: wake_waiter_def try_read_def try_write_def drop_waiter_def write_blocked_def)
  qed (simp_all add: acquire_read_def try_read_def release_read_def release_write_def cancel_waiter_def
      drop_waiter_def Let_def)
  with c show ?thesis
    by (auto simp: release_write_def acquire_read_def try_read_def read_blocked_def)
qed

theorem rwlock_phase_fair_witness: "rw_reader_turn (rs_lock rw_demo) \<and> rs_writing (acquire_write rw_demo) = 0"
proof -
  have "rw_reader_turn (rs_lock rw_demo)" "waiting Reader (rs_queue rw_demo) = 1" "rs_writing rw_demo = 0"
    by code_simp+
  with rwlock_phase_fair [OF rw_demo_reachable rw_acquire_write] show ?thesis by simp
qed

end
