(* ===== verification/Engine.thy ===== *)
theory Engine
  imports RWLock
begin

text \<open>
  \<open>AsyncSQLite\<close> of \<open>pubsub/server/_asqlite.py\<close> as a whole: the read/write lock of \<open>RWLock\<close>, the
  owner of the write lock, the database as the writer's worker sees it, and any number of tasks
  that read, write and open transactions, each with the place where it is suspended.  A step is
  what runs between two suspensions.  A statement is a function on the database; that SQLite
  shows a read the committed database, and the writer connection its own open transaction, is
  the documented behaviour of the engine.

  Where the wait for the worker ends with an exception (\<open>eng_raise\<close>) the statement had no
  effect: it failed, or its task was cancelled before the worker started it.  A statement that
  is abandoned while it runs is the subject of \<open>Writer\<close>, the connections of the readers of
  \<open>ReadPool\<close>.
\<close>

section \<open>State\<close>

text \<open>What the code gives the writer's worker to do.\<close>

datatype 'd ejob = Statement "'d \<Rightarrow> 'd" | Script "'d \<Rightarrow> 'd" | CommitOpen | RollbackOpen

text \<open>
  Where a task is: in the body of a transaction; waiting for the lock; or waiting for the worker,
  to read (with the number of commits at the time it got the lock), to write under the lock, to
  write inside its own transaction, to begin, or to end a transaction.
\<close>

datatype 'd ecall =
    Body
  | WantRead | WantWrite "'d ejob" | WantTx
  | Reads nat | Writes "'d ejob" | Runs "'d ejob" | Begins | Ends bool

text \<open>
  \<open>en_at\<close> has the tasks that are inside a call or a transaction, with the number of bodies
  around the call.  \<open>en_waiters\<close> are the tasks of the lock's queue.  \<open>en_open\<close> is the database
  inside the open transaction.  The last three fields observe the run: what was committed, each
  transaction with its statements and their tasks, what the open transaction has run so far, and
  what each read saw.
\<close>

record 'd engine =
  en_lock :: rw_sys
  en_waiters :: "nat list"
  en_owner :: "nat option"
  en_pooled :: bool
  en_at :: "(nat, nat \<times> 'd ecall) dict"
  en_committed :: 'd
  en_open :: "'d option"
  en_done :: "(nat \<times> ('d \<Rightarrow> 'd)) list list"
  en_pend :: "(nat \<times> ('d \<Rightarrow> 'd)) list"
  en_seen :: "(nat \<times> nat \<times> 'd) list"

definition engine_init :: "bool \<Rightarrow> 'd \<Rightarrow> 'd engine" where
  "engine_init pooled d =
     \<lparr>en_lock = rw_init, en_waiters = [], en_owner = None, en_pooled = pooled, en_at = [],
      en_committed = d, en_open = None, en_done = [], en_pend = [], en_seen = []\<rparr>"

section \<open>The worker\<close>

definition commit_open :: "'d engine \<Rightarrow> 'd engine" where
  "commit_open e =
     (case en_open e of
        None \<Rightarrow> e
      | Some d \<Rightarrow> e\<lparr>en_committed := d, en_open := None, en_done := en_done e @ [en_pend e], en_pend := []\<rparr>)"

text \<open>A statement outside a transaction commits itself.\<close>

definition run_statement :: "nat \<Rightarrow> ('d \<Rightarrow> 'd) \<Rightarrow> 'd engine \<Rightarrow> 'd engine" where
  "run_statement t f e =
     (case en_open e of
        None \<Rightarrow> e\<lparr>en_committed := f (en_committed e), en_done := en_done e @ [[(t, f)]]\<rparr>
      | Some d \<Rightarrow> e\<lparr>en_open := Some (f d), en_pend := en_pend e @ [(t, f)]\<rparr>)"

text \<open>\<open>executescript\<close> first commits the open transaction; without one, commit and rollback do nothing.\<close>

fun run_job :: "nat \<Rightarrow> 'd ejob \<Rightarrow> 'd engine \<Rightarrow> 'd engine" where
  "run_job t (Statement f) e = run_statement t f e"
| "run_job t (Script f) e = run_statement t f (commit_open e)"
| "run_job t CommitOpen e = commit_open e"
| "run_job t RollbackOpen e = e\<lparr>en_open := None, en_pend := []\<rparr>"

text \<open>What a read sees: with a pool the committed database, else what the writer connection has.\<close>

definition visible :: "'d engine \<Rightarrow> 'd" where
  "visible e = (if en_pooled e then en_committed e else (case en_open e of None \<Rightarrow> en_committed e | Some d \<Rightarrow> d))"

section \<open>The calls of a task\<close>

definition at_call :: "nat \<Rightarrow> nat \<Rightarrow> 'd ecall \<Rightarrow> 'd engine \<Rightarrow> 'd engine" where
  "at_call t n c e = e\<lparr>en_at := dict_set t (n, c) (en_at e)\<rparr>"

text \<open>A call returns or raises: into the body around it, or out of the engine.\<close>

definition leave_call :: "nat \<Rightarrow> nat \<Rightarrow> 'd engine \<Rightarrow> 'd engine" where
  "leave_call t n e = (if n = 0 then e\<lparr>en_at := dict_pop t (en_at e)\<rparr> else at_call t n Body e)"

definition owns_write :: "nat \<Rightarrow> 'd engine \<Rightarrow> bool" where
  "owns_write t e \<longleftrightarrow> en_owner e = Some t"

fun lock_kind :: "'d ecall \<Rightarrow> rw_kind" where
  "lock_kind WantRead = Reader"
| "lock_kind _ = Writer"

definition lock_blocked :: "rw_kind \<Rightarrow> 'd engine \<Rightarrow> bool" where
  "lock_blocked k e = (if k = Reader then read_blocked (rs_lock (en_lock e)) else write_blocked (rs_lock (en_lock e)))"

text \<open>With the lock: read, write, or set the owner and begin.\<close>

definition with_lock :: "nat \<Rightarrow> nat \<Rightarrow> 'd ecall \<Rightarrow> 'd engine \<Rightarrow> 'd engine" where
  "with_lock t n c e =
     (case c of
        WantRead \<Rightarrow> at_call t n (Reads (length (en_done e))) e
      | WantWrite j \<Rightarrow> at_call t n (Writes j) e
      | WantTx \<Rightarrow> at_call t n Begins (e\<lparr>en_owner := Some t\<rparr>)
      | _ \<Rightarrow> e)"

definition queue_or_go :: "nat \<Rightarrow> nat \<Rightarrow> 'd ecall \<Rightarrow> bool \<Rightarrow> 'd engine \<Rightarrow> 'd engine" where
  "queue_or_go t n c blocked e =
     (if blocked then at_call t n c (e\<lparr>en_waiters := en_waiters e @ [t]\<rparr>) else with_lock t n c e)"

definition take_lock :: "nat \<Rightarrow> nat \<Rightarrow> 'd ecall \<Rightarrow> 'd engine \<Rightarrow> 'd engine" where
  "take_lock t n c e =
     queue_or_go t n c (lock_blocked (lock_kind c) e)
       (e\<lparr>en_lock := (if lock_kind c = Reader then acquire_read (en_lock e) else acquire_write (en_lock e))\<rparr>)"

text \<open>\<open>_read\<close>, \<open>_write\<close> and \<open>_Transaction.__aenter__\<close>, called at depth \<open>n\<close>.\<close>

definition eng_read :: "nat \<Rightarrow> nat \<Rightarrow> 'd engine \<Rightarrow> 'd engine" where
  "eng_read t n e = take_lock t n WantRead e"

definition eng_write :: "'d ejob \<Rightarrow> nat \<Rightarrow> nat \<Rightarrow> 'd engine \<Rightarrow> 'd engine" where
  "eng_write j t n e = (if owns_write t e then at_call t n (Runs j) e else take_lock t n (WantWrite j) e)"

definition eng_enter :: "nat \<Rightarrow> nat \<Rightarrow> 'd engine \<Rightarrow> 'd engine" where
  "eng_enter t n e = take_lock t n WantTx e"

text \<open>The public methods that only write.\<close>

definition eng_execute :: "('d \<Rightarrow> 'd) \<Rightarrow> nat \<Rightarrow> nat \<Rightarrow> 'd engine \<Rightarrow> 'd engine" where
  "eng_execute f = eng_write (Statement f)"

definition eng_executemany :: "('p \<Rightarrow> 'd \<Rightarrow> 'd) \<Rightarrow> 'p list \<Rightarrow> nat \<Rightarrow> nat \<Rightarrow> 'd engine \<Rightarrow> 'd engine" where
  "eng_executemany f params = eng_write (Statement (fold f params))"

definition eng_executescript :: "('d \<Rightarrow> 'd) \<Rightarrow> nat \<Rightarrow> nat \<Rightarrow> 'd engine \<Rightarrow> 'd engine" where
  "eng_executescript f = eng_write (Script f)"

definition eng_commit :: "nat \<Rightarrow> nat \<Rightarrow> 'd engine \<Rightarrow> 'd engine" where
  "eng_commit = eng_write CommitOpen"

definition eng_rollback :: "nat \<Rightarrow> nat \<Rightarrow> 'd engine \<Rightarrow> 'd engine" where
  "eng_rollback = eng_write RollbackOpen"

text \<open>\<open>_Transaction.__aexit__\<close> up to its wait.\<close>

definition eng_exit :: "bool \<Rightarrow> nat \<Rightarrow> nat \<Rightarrow> 'd engine \<Rightarrow> 'd engine" where
  "eng_exit ok t n e = at_call t n (Ends ok) e"

section \<open>After the waits\<close>

definition drop_read :: "'d engine \<Rightarrow> 'd engine" where
  "drop_read e = e\<lparr>en_lock := release_read (en_lock e)\<rparr>"

definition drop_write :: "'d engine \<Rightarrow> 'd engine" where
  "drop_write e = e\<lparr>en_lock := release_write (en_lock e)\<rparr>"

definition drop_owned :: "'d engine \<Rightarrow> 'd engine" where
  "drop_owned e = drop_write (e\<lparr>en_owner := None\<rparr>)"

text \<open>The worker has done what the task waits for; a BEGIN inside a transaction fails.\<close>

definition eng_finish :: "nat \<Rightarrow> 'd engine \<Rightarrow> 'd engine" where
  "eng_finish t e =
     (case dict_get (en_at e) t of
        Some (n, Reads k) \<Rightarrow> leave_call t n (drop_read (e\<lparr>en_seen := en_seen e @ [(t, k, visible e)]\<rparr>))
      | Some (n, Runs j) \<Rightarrow> leave_call t n (run_job t j e)
      | Some (n, Writes j) \<Rightarrow> leave_call t n (drop_write (run_job t j e))
      | Some (n, Begins) \<Rightarrow>
          (if en_open e = None then at_call t (Suc n) Body (e\<lparr>en_open := Some (en_committed e)\<rparr>)
           else leave_call t n (drop_owned e))
      | Some (n, Ends ok) \<Rightarrow>
          leave_call t (n - 1) (drop_owned (run_job t (if ok then CommitOpen else RollbackOpen) e))
      | _ \<Rightarrow> e)"

definition eng_raise :: "nat \<Rightarrow> 'd engine \<Rightarrow> 'd engine" where
  "eng_raise t e =
     (case dict_get (en_at e) t of
        Some (n, Reads k) \<Rightarrow> leave_call t n (drop_read e)
      | Some (n, Runs j) \<Rightarrow> leave_call t n e
      | Some (n, Writes j) \<Rightarrow> leave_call t n (drop_write e)
      | Some (n, Begins) \<Rightarrow> leave_call t n (drop_owned e)
      | Some (n, Ends ok) \<Rightarrow> leave_call t (n - 1) (drop_owned e)
      | _ \<Rightarrow> e)"

text \<open>The waiter at position \<open>i\<close> of the lock's queue runs again, or is cancelled.\<close>

definition drop_nth :: "nat \<Rightarrow> 'a list \<Rightarrow> 'a list" where
  "drop_nth i xs = take i xs @ drop (Suc i) xs"

definition eng_wake :: "nat \<Rightarrow> 'd engine \<Rightarrow> 'd engine" where
  "eng_wake i e =
     (case dict_get (en_at e) (en_waiters e ! i) of
        None \<Rightarrow> e
      | Some (n, c) \<Rightarrow>
          queue_or_go (en_waiters e ! i) n c (lock_blocked (lock_kind c) e)
            (e\<lparr>en_lock := wake_waiter i (en_lock e), en_waiters := drop_nth i (en_waiters e)\<rparr>))"

definition eng_cancel :: "nat \<Rightarrow> 'd engine \<Rightarrow> 'd engine" where
  "eng_cancel i e =
     (case dict_get (en_at e) (en_waiters e ! i) of
        None \<Rightarrow> e
      | Some (n, c) \<Rightarrow>
          leave_call (en_waiters e ! i) n
            (e\<lparr>en_lock := cancel_waiter i (en_lock e), en_waiters := drop_nth i (en_waiters e)\<rparr>))"

section \<open>Runs\<close>

text \<open>A task calls the engine from outside or from the body of a transaction.\<close>

definition call_depth :: "nat \<Rightarrow> 'd engine \<Rightarrow> nat option" where
  "call_depth t e =
     (case dict_get (en_at e) t of None \<Rightarrow> Some 0 | Some (n, Body) \<Rightarrow> Some n | Some _ \<Rightarrow> None)"

datatype 'd eaction =
    CallRead nat
  | CallWrite nat "'d ejob"
  | CallEnter nat
  | CallExit nat bool
  | Finish nat
  | Raise nat
  | WakeAt nat
  | CancelAt nat

fun eng_act :: "'d eaction \<Rightarrow> 'd engine \<Rightarrow> 'd engine" where
  "eng_act (CallRead t) e = (case call_depth t e of None \<Rightarrow> e | Some n \<Rightarrow> eng_read t n e)"
| "eng_act (CallWrite t j) e = (case call_depth t e of None \<Rightarrow> e | Some n \<Rightarrow> eng_write j t n e)"
| "eng_act (CallEnter t) e = (case call_depth t e of None \<Rightarrow> e | Some n \<Rightarrow> eng_enter t n e)"
| "eng_act (CallExit t ok) e =
     (case call_depth t e of Some (Suc n) \<Rightarrow> eng_exit ok t (Suc n) e | _ \<Rightarrow> e)"
| "eng_act (Finish t) e = eng_finish t e"
| "eng_act (Raise t) e = eng_raise t e"
| "eng_act (WakeAt i) e =
     (if i < length (en_waiters e) \<and> snd (rs_queue (en_lock e) ! i) then eng_wake i e else e)"
| "eng_act (CancelAt i) e = (if i < length (en_waiters e) then eng_cancel i e else e)"

text \<open>A COMMIT or ROLLBACK that does not run leaves a transaction open; everything else may fail.\<close>

definition ends_cleanly :: "'d eaction \<Rightarrow> 'd engine \<Rightarrow> bool" where
  "ends_cleanly x e \<longleftrightarrow>
     (case x of
        Raise t \<Rightarrow> (case dict_get (en_at e) t of Some (n, Ends ok) \<Rightarrow> False | _ \<Rightarrow> True)
      | _ \<Rightarrow> True)"

definition eng_step :: "'d engine \<Rightarrow> 'd engine \<Rightarrow> bool" where
  "eng_step e e' \<longleftrightarrow> (\<exists>x. ends_cleanly x e \<and> e' = eng_act x e)"

definition eng_run :: "'d eaction list \<Rightarrow> 'd engine \<Rightarrow> 'd engine" where
  "eng_run xs e = fold eng_act xs e"


section \<open>The invariant\<close>

fun wants :: "'d ecall \<Rightarrow> bool" where
  "wants WantRead = True"
| "wants (WantWrite j) = True"
| "wants WantTx = True"
| "wants _ = False"

fun reading_at :: "nat \<times> 'd ecall \<Rightarrow> bool" where
  "reading_at (n, Reads k) = True"
| "reading_at _ = False"

text \<open>The places of the owner of the write lock, and of whoever holds it.\<close>

fun owner_at :: "nat \<times> 'd ecall \<Rightarrow> bool" where
  "owner_at (n, c) = (0 < n \<or> c = Begins)"

fun holding_at :: "nat \<times> 'd ecall \<Rightarrow> bool" where
  "holding_at (n, Writes j) = True"
| "holding_at p = owner_at p"

text \<open>Transactions do not nest, the body of one neither reads nor locks, and only it runs statements unlocked.\<close>

fun well_placed :: "nat \<times> 'd ecall \<Rightarrow> bool" where
  "well_placed (n, Body) = (n = 1)"
| "well_placed (n, Runs j) = (n = 1)"
| "well_placed (n, Ends ok) = (n = 1)"
| "well_placed (n, Reads k) = (n = 0)"
| "well_placed (n, Writes j) = (n = 0)"
| "well_placed (n, Begins) = (n = 0)"
| "well_placed (n, c) = (n \<le> 1)"

definition waits_as :: "(nat, nat \<times> 'd ecall) dict \<Rightarrow> nat \<Rightarrow> rw_kind \<Rightarrow> bool" where
  "waits_as a t k \<longleftrightarrow> (case dict_get a t of None \<Rightarrow> False | Some (n, c) \<Rightarrow> wants c \<and> lock_kind c = k)"

text \<open>The lock's counters are the numbers of tasks that read and that hold it; its queue is that of the waiting tasks.\<close>

definition lock_part :: "rw_sys \<Rightarrow> nat list \<Rightarrow> (nat, nat \<times> 'd ecall) dict \<Rightarrow> bool" where
  "lock_part l ws a \<longleftrightarrow>
     rw_inv l \<and> dict_wf a \<and> distinct ws \<and> list_all2 (waits_as a) ws (map fst (rs_queue l)) \<and>
     rs_reading l = dict_count reading_at a \<and> rs_writing l = dict_count holding_at a \<and>
     (\<forall>t p. dict_get a t = Some p \<longrightarrow> well_placed p)"

lemma queue_kinds [simp]:
  "map fst (notify_all q) = map fst q" "map fst (notify_one q) = map fst q"
  "map fst (rs_queue (release_read l)) = map fst (rs_queue l)"
  "map fst (rs_queue (release_write l)) = map fst (rs_queue l)"
  "map fst (rs_queue (cancel_waiter i l)) = drop_nth i (map fst (rs_queue l))"
proof -
  show *: "map fst (notify_all q) = map fst q" for q by (auto simp: notify_all_def)
  show **: "map fst (notify_one q) = map fst q" for q by (induction q rule: notify_one.induct) auto
  show "map fst (rs_queue (release_read l)) = map fst (rs_queue l)" "map fst (rs_queue (release_write l)) = map fst (rs_queue l)"
    "map fst (rs_queue (cancel_waiter i l)) = drop_nth i (map fst (rs_queue l))"
    by (simp_all add: * ** release_read_def release_write_def cancel_waiter_def drop_waiter_def drop_nth_def
        take_map drop_map Let_def)
qed

lemma lock_counters [simp]:
  "rs_reading (release_read l) = rs_reading l - 1" "rs_writing (release_read l) = rs_writing l"
  "rs_reading (release_write l) = rs_reading l" "rs_writing (release_write l) = rs_writing l - 1"
  "rs_reading (cancel_waiter i l) = rs_reading l" "rs_writing (cancel_waiter i l) = rs_writing l"
  by (simp_all add: release_read_def release_write_def cancel_waiter_def drop_waiter_def Let_def)

text \<open>Getting the lock, at once or when a waiter runs again; or waiting at the end of the queue.\<close>

definition got_lock :: "rw_kind \<Rightarrow> rw_sys \<Rightarrow> rw_sys \<Rightarrow> bool" where
  "got_lock k l l' \<longleftrightarrow>
     rs_reading l' = rs_reading l + of_bool (k = Reader) \<and> rs_writing l' = rs_writing l + of_bool (k = Writer)"

lemma acquire_read_kinds:
  "\<not> read_blocked (rs_lock l) \<Longrightarrow> got_lock Reader l (acquire_read l) \<and> rs_queue (acquire_read l) = rs_queue l"
  "read_blocked (rs_lock l) \<Longrightarrow> rs_queue (acquire_read l) = rs_queue l @ [(Reader, False)] \<and>
     rs_reading (acquire_read l) = rs_reading l \<and> rs_writing (acquire_read l) = rs_writing l"
  by (simp_all add: acquire_read_def try_read_def got_lock_def)

lemma acquire_write_kinds:
  "\<not> write_blocked (rs_lock l) \<Longrightarrow> got_lock Writer l (acquire_write l) \<and> rs_queue (acquire_write l) = rs_queue l"
  "write_blocked (rs_lock l) \<Longrightarrow> rs_queue (acquire_write l) = rs_queue l @ [(Writer, False)] \<and>
     rs_reading (acquire_write l) = rs_reading l \<and> rs_writing (acquire_write l) = rs_writing l"
  by (simp_all add: acquire_write_def try_write_def got_lock_def)

text \<open>The lock as a whole: for whom it is free, and who is in its queue.\<close>

definition k_blocked :: "rw_kind \<Rightarrow> rw_sys \<Rightarrow> bool" where
  "k_blocked k l = (if k = Reader then read_blocked (rs_lock l) else write_blocked (rs_lock l))"

definition k_acquire :: "rw_kind \<Rightarrow> rw_sys \<Rightarrow> rw_sys" where
  "k_acquire k l = (if k = Reader then acquire_read l else acquire_write l)"

lemma not_Reader [simp]: "k \<noteq> Reader \<longleftrightarrow> k = Writer"
  by (cases k) simp_all

lemma k_acquire:
  "rw_inv l \<Longrightarrow> rw_inv (k_acquire k l)"
  "\<not> k_blocked k l \<Longrightarrow> got_lock k l (k_acquire k l) \<and> map fst (rs_queue (k_acquire k l)) = map fst (rs_queue l)"
  "k_blocked k l \<Longrightarrow> map fst (rs_queue (k_acquire k l)) = map fst (rs_queue l) @ [k] \<and>
     rs_reading (k_acquire k l) = rs_reading l \<and> rs_writing (k_acquire k l) = rs_writing l"
  by (cases k; simp add: k_acquire_def k_blocked_def inv_acquire_read inv_acquire_write acquire_read_kinds acquire_write_kinds)+

lemma k_wake:
  assumes "i < length (rs_queue l)" "fst (rs_queue l ! i) = k"
  shows "\<not> k_blocked k l \<Longrightarrow>
      got_lock k l (wake_waiter i l) \<and> map fst (rs_queue (wake_waiter i l)) = drop_nth i (map fst (rs_queue l))"
    "k_blocked k l \<Longrightarrow> map fst (rs_queue (wake_waiter i l)) = drop_nth i (map fst (rs_queue l)) @ [k] \<and>
      rs_reading (wake_waiter i l) = rs_reading l \<and> rs_writing (wake_waiter i l) = rs_writing l"
  using assms
  by (cases k; simp add: wake_waiter_def try_read_def try_write_def drop_waiter_def k_blocked_def got_lock_def
      drop_nth_def take_map drop_map)+

text \<open>A free lock: no writer, and for a writer no reader either.\<close>

lemma free_lock:
  assumes "rw_inv l" "\<not> k_blocked k l"
  shows "rs_writing l = 0" "k = Writer \<Longrightarrow> rs_reading l = 0"
  using assms by (cases k; auto simp: rw_inv_def counts_ok_def k_blocked_def read_blocked_def write_blocked_def split: if_splits)+

lemma one_writer:
  assumes "rw_inv l" "0 < rs_writing l"
  shows "rs_writing l = 1" "rs_reading l = 0" "k_blocked k l"
  using assms by (cases k; auto simp: rw_inv_def counts_ok_def k_blocked_def read_blocked_def write_blocked_def split: if_splits)+


subsection \<open>The lock and the tasks\<close>

definition entry_is :: "(nat \<times> 'd ecall \<Rightarrow> bool) \<Rightarrow> nat \<Rightarrow> (nat, nat \<times> 'd ecall) dict \<Rightarrow> bool" where
  "entry_is P t a \<longleftrightarrow> (case dict_get a t of None \<Rightarrow> False | Some p \<Rightarrow> P p)"

lemma entry_count_set: "dict_count P (dict_set t p a) + of_bool (entry_is P t a) = dict_count P a + of_bool (P p)"
  by (cases "dict_get a t") (simp_all add: entry_is_def dict_count_set_new dict_count_set)

lemma entry_count_pop: "dict_wf a \<Longrightarrow> dict_count P (dict_pop t a) + of_bool (entry_is P t a) = dict_count P a"
  by (cases "dict_get a t") (simp_all add: entry_is_def dict_count_pop dict_pop_absent flip: dict_get_None_iff)

lemma entry_is_count: "entry_is P t a \<Longrightarrow> 0 < dict_count P a"
  by (auto simp: entry_is_def dest: dict_count_zero split: option.splits intro: ccontr)

lemma waits_set [simp]: "t \<notin> set ws \<Longrightarrow> list_all2 (waits_as (dict_set t p a)) ws ks = list_all2 (waits_as a) ws ks"
  by (induction ws arbitrary: ks) (auto simp: list_all2_Cons1 waits_as_def dict_simps)

lemma waits_pop [simp]: "t \<notin> set ws \<Longrightarrow> list_all2 (waits_as (dict_pop t a)) ws ks = list_all2 (waits_as a) ws ks"
  by (induction ws arbitrary: ks) (auto simp: list_all2_Cons1 waits_as_def dict_simps)

lemma waits_in: "list_all2 (waits_as a) ws ks \<Longrightarrow> t \<in> set ws \<Longrightarrow> \<exists>n c. dict_get a t = Some (n, c) \<and> wants c"
  by (induction ws ks rule: list_all2_induct) (auto simp: waits_as_def split: option.splits)

lemma waits_nth:
  "list_all2 (waits_as a) ws ks \<Longrightarrow> i < length ws \<Longrightarrow>
   \<exists>n c. dict_get a (ws ! i) = Some (n, c) \<and> wants c \<and> lock_kind c = ks ! i"
  by (drule (1) list_all2_nthD) (auto simp: waits_as_def split: option.splits)

lemma drop_nth_simps:
  "list_all2 P xs ys \<Longrightarrow> list_all2 P (drop_nth i xs) (drop_nth i ys)"
  "distinct xs \<Longrightarrow> distinct (drop_nth i xs)"
  "distinct xs \<Longrightarrow> i < length xs \<Longrightarrow> xs ! i \<notin> set (drop_nth i xs)"
proof -
  show "list_all2 P xs ys \<Longrightarrow> list_all2 P (drop_nth i xs) (drop_nth i ys)"
    by (simp add: drop_nth_def list_all2_appendI list_all2_takeI list_all2_dropI)
  show "distinct xs \<Longrightarrow> distinct (drop_nth i xs)"
    unfolding drop_nth_def by (simp add: set_take_disj_set_drop_if_distinct)
  assume *: "distinct xs" "i < length xs"
  from *(2) have "xs = take i xs @ xs ! i # drop (Suc i) xs" by (rule id_take_nth_drop)
  with *(1) show "xs ! i \<notin> set (drop_nth i xs)"
    unfolding drop_nth_def by (metis distinct_append not_distinct_conv_prefix set_append Un_iff append_assoc
        distinct.simps(2) disjoint_iff list.set_intros(1))
qed

lemma lock_part_set:
  assumes "lock_part l ws a" "rw_inv l'" "distinct ws'" "well_placed p"
    and "list_all2 (waits_as (dict_set t p a)) ws' (map fst (rs_queue l'))"
    and "rs_reading l' + of_bool (entry_is reading_at t a) = rs_reading l + of_bool (reading_at p)"
    and "rs_writing l' + of_bool (entry_is holding_at t a) = rs_writing l + of_bool (holding_at p)"
  shows "lock_part l' ws' (dict_set t p a)"
  using assms entry_count_set [of reading_at t p a] entry_count_set [of holding_at t p a]
  by (auto simp: lock_part_def dict_simps)

lemma lock_part_pop:
  assumes "lock_part l ws a" "rw_inv l'" "distinct ws'"
    and "list_all2 (waits_as (dict_pop t a)) ws' (map fst (rs_queue l'))"
    and "rs_reading l' + of_bool (entry_is reading_at t a) = rs_reading l"
    and "rs_writing l' + of_bool (entry_is holding_at t a) = rs_writing l"
  shows "lock_part l' ws' (dict_pop t a)"
  using assms entry_count_pop [of a reading_at t] entry_count_pop [of a holding_at t]
  by (auto simp: lock_part_def dict_simps)

text \<open>The task that returns at depth \<open>n\<close>, into the body around it or out.\<close>

definition left_at :: "nat \<Rightarrow> nat \<Rightarrow> (nat, nat \<times> 'd ecall) dict \<Rightarrow> (nat, nat \<times> 'd ecall) dict" where
  "left_at t n a = (if n = 0 then dict_pop t a else dict_set t (n, Body) a)"

lemma lock_part_left:
  assumes "lock_part l ws a" "rw_inv l'" "distinct ws'" "t \<notin> set ws'" "n \<le> 1"
    and "list_all2 (waits_as a) ws' (map fst (rs_queue l'))"
    and "rs_reading l' + of_bool (entry_is reading_at t a) = rs_reading l"
    and "rs_writing l' + of_bool (entry_is holding_at t a) = rs_writing l + of_bool (0 < n)"
  shows "lock_part l' ws' (left_at t n a)"
  using assms by (auto simp: left_at_def intro!: lock_part_pop [OF assms(1)] lock_part_set [OF assms(1)])

lemma entry_isI: "dict_get a t = Some p \<Longrightarrow> entry_is P t a = P p"
  by (simp add: entry_is_def)

lemma lock_partD:
  assumes "lock_part l ws a"
  shows "rw_inv l" "dict_wf a" "distinct ws" "list_all2 (waits_as a) ws (map fst (rs_queue l))"
    "rs_reading l = dict_count reading_at a" "rs_writing l = dict_count holding_at a"
    "dict_get a t = Some p \<Longrightarrow> well_placed p" "length ws = length (rs_queue l)"
  using assms by (cases p; auto simp: lock_part_def dest: list_all2_lengthD)+

lemma not_waiting:
  assumes "lock_part l ws a" "dict_get a t = None \<or> (\<exists>n c. dict_get a t = Some (n, c) \<and> \<not> wants c)"
  shows "t \<notin> set ws"
  using assms(2) waits_in [OF lock_partD(4) [OF assms(1)]] by force

text \<open>While a task is in a transaction, begins one or writes, it is the only one, and nobody reads.\<close>

lemma holder_alone:
  assumes "lock_part l ws a" "dict_get a t = Some p" "holding_at p"
  shows "rs_writing l = 1" "rs_reading l = 0" "k_blocked k l"
    "dict_get a t' = Some p' \<Longrightarrow> holding_at p' \<Longrightarrow> t' = t"
    "dict_get a t' = Some p' \<Longrightarrow> \<not> reading_at p'"
proof -
  have pos: "0 < rs_writing l"
    using entry_is_count [of holding_at t a] assms lock_partD(6) [OF assms(1)] by (simp add: entry_isI)
  note one = one_writer [OF lock_partD(1) [OF assms(1)] pos]
  show "rs_writing l = 1" "rs_reading l = 0" "k_blocked k l" by (fact one)+
  show "t' = t" if "dict_get a t' = Some p'" "holding_at p'"
    using dict_count_unique [of holding_at a t p t' p'] one(1) lock_partD(6) [OF assms(1)] assms(2,3) that by simp
  show "\<not> reading_at p'" if "dict_get a t' = Some p'"
    using dict_count_zero [of reading_at a t' p'] one(2) lock_partD(5) [OF assms(1)] that by simp
qed

lemma reader_counted:
  assumes "lock_part l ws a" "dict_get a t = Some p" "reading_at p"
  shows "0 < rs_reading l" "rs_writing l = 0" "dict_get a t' = Some p' \<Longrightarrow> \<not> holding_at p'"
proof -
  show *: "0 < rs_reading l"
    using entry_is_count [of reading_at t a] assms lock_partD(5) [OF assms(1)] by (simp add: entry_isI)
  then show "\<not> holding_at p'" if "dict_get a t' = Some p'"
    using holder_alone(2) [OF assms(1) that] by auto
  show "rs_writing l = 0"
    using one_writer(2) [OF lock_partD(1) [OF assms(1)]] * by (metis gr0I less_irrefl)
qed

text \<open>Whoever gets the lock is in no transaction.\<close>

lemma free_for:
  assumes "lock_part l ws a" "\<not> k_blocked k l" "dict_get a t' = Some p"
  shows "\<not> holding_at p" "k = Writer \<Longrightarrow> \<not> reading_at p"
proof -
  show "\<not> holding_at p" using holder_alone(3) [OF assms(1,3)] assms(2) by blast
  show "\<not> reading_at p" if "k = Writer"
    using free_lock(2) [OF lock_partD(1) [OF assms(1)] assms(2) that] dict_count_zero [OF _ assms(3)]
      lock_partD(5) [OF assms(1)] by simp
qed


subsection \<open>The owner and the data\<close>

fun in_body :: "nat \<times> 'd ecall \<Rightarrow> bool" where
  "in_body (n, c) = (0 < n)"

definition owner_part :: "nat option \<Rightarrow> bool \<Rightarrow> (nat, nat \<times> 'd ecall) dict \<Rightarrow> bool" where
  "owner_part ow opened a \<longleftrightarrow>
     (\<forall>t. entry_is owner_at t a \<longleftrightarrow> ow = Some t) \<and>
     (opened \<longrightarrow> (\<exists>t. ow = Some t \<and> entry_is in_body t a))"

text \<open>The statements of one transaction, and one transaction after the other.\<close>

definition run_all :: "(nat \<times> ('d \<Rightarrow> 'd)) list \<Rightarrow> 'd \<Rightarrow> 'd" where
  "run_all fs d = fold snd fs d"

definition replayed :: "(nat \<times> ('d \<Rightarrow> 'd)) list list \<Rightarrow> 'd \<Rightarrow> 'd" where
  "replayed gs d = fold run_all gs d"

definition one_task :: "(nat \<times> ('d \<Rightarrow> 'd)) list \<Rightarrow> bool" where
  "one_task g \<longleftrightarrow> (case g of [] \<Rightarrow> True | (t, f) # fs \<Rightarrow> list_all (\<lambda>x. fst x = t) fs)"

definition data_part :: "'d \<Rightarrow> 'd engine \<Rightarrow> bool" where
  "data_part d0 e \<longleftrightarrow>
     en_committed e = replayed (en_done e) d0 \<and>
     (case en_open e of None \<Rightarrow> en_pend e = [] | Some d \<Rightarrow> d = run_all (en_pend e) (en_committed e)) \<and>
     (\<forall>x\<in>set (en_pend e). en_owner e = Some (fst x)) \<and> (\<forall>g\<in>set (en_done e). one_task g) \<and>
     (\<forall>(t, k, d)\<in>set (en_seen e). k \<le> length (en_done e) \<and> d = replayed (take k (en_done e)) d0) \<and>
     (\<forall>t n k. dict_get (en_at e) t = Some (n, Reads k) \<longrightarrow> k = length (en_done e))"

definition eng_inv :: "'d \<Rightarrow> 'd engine \<Rightarrow> bool" where
  "eng_inv d0 e \<longleftrightarrow>
     lock_part (en_lock e) (en_waiters e) (en_at e) \<and>
     owner_part (en_owner e) (en_open e \<noteq> None) (en_at e) \<and> data_part d0 e"

lemma replayed_snoc [simp]: "replayed (gs @ [g]) d = run_all g (replayed gs d)"
  by (simp add: replayed_def)

lemma run_all_snoc [simp]: "run_all (fs @ [(t, f)]) d = f (run_all fs d)" "run_all [] d = d"
  by (simp_all add: run_all_def)

lemma one_task_owned: "\<forall>x\<in>set g. ow = Some (fst x) \<Longrightarrow> one_task g"
  by (cases g) (auto simp: one_task_def list_all_iff)

lemma one_task_single [simp]: "one_task [x]"
  by (simp add: one_task_def split: prod.split)

text \<open>A statement changes the database and the record of the run only.\<close>

lemma commit_open_frame [simp]:
  "en_lock (commit_open e) = en_lock e" "en_waiters (commit_open e) = en_waiters e"
  "en_owner (commit_open e) = en_owner e" "en_at (commit_open e) = en_at e" "en_seen (commit_open e) = en_seen e"
  "en_open (commit_open e) = None" "en_pooled (commit_open e) = en_pooled e"
  by (simp_all add: commit_open_def split: option.split)

lemma run_job_frame [simp]:
  "en_lock (run_job t j e) = en_lock e" "en_waiters (run_job t j e) = en_waiters e"
  "en_owner (run_job t j e) = en_owner e" "en_at (run_job t j e) = en_at e" "en_seen (run_job t j e) = en_seen e"
  "en_pooled (run_job t j e) = en_pooled e"
  by (cases j; simp add: run_statement_def split: option.split)+

lemma run_job_open: "en_open (run_job t j e) \<noteq> None \<Longrightarrow> en_open e \<noteq> None"
  by (cases j) (auto simp: run_statement_def commit_open_def split: option.splits)

definition no_reads :: "'d engine \<Rightarrow> bool" where
  "no_reads e \<longleftrightarrow> (\<forall>t n k. dict_get (en_at e) t \<noteq> Some (n, Reads k))"

lemma data_commit: "data_part d0 e \<Longrightarrow> no_reads e \<Longrightarrow> data_part d0 (commit_open e)"
  by (cases "en_open e") (auto simp: data_part_def commit_open_def no_reads_def dest: one_task_owned)

lemma data_statement:
  "data_part d0 e \<Longrightarrow> no_reads e \<Longrightarrow> en_owner e = Some t \<or> en_open e = None \<Longrightarrow> data_part d0 (run_statement t f e)"
  by (cases "en_open e") (auto simp: data_part_def run_statement_def no_reads_def run_all_def)

lemma data_run_job:
  assumes "data_part d0 e" "no_reads e" "en_owner e = Some t \<or> en_open e = None"
  shows "data_part d0 (run_job t j e)"
proof (cases j)
  case (Script f)
  have "no_reads (commit_open e)" using assms(2) by (simp add: no_reads_def)
  with Script show ?thesis using data_statement [OF data_commit] assms by simp
next
  case RollbackOpen
  then show ?thesis using assms by (simp add: data_part_def)
qed (simp_all add: data_statement data_commit assms)

text \<open>The data do not depend on where the tasks are, but for the reads under way.\<close>

lemma data_frame:
  assumes "data_part d0 e" "en_committed e' = en_committed e" "en_open e' = en_open e" "en_done e' = en_done e"
    and "en_pend e' = en_pend e" "en_seen e' = en_seen e" "en_pend e = [] \<or> en_owner e' = en_owner e"
    and "\<And>t n k. dict_get (en_at e') t = Some (n, Reads k) \<Longrightarrow> dict_get (en_at e) t = Some (n, Reads k) \<or> k = length (en_done e)"
  shows "data_part d0 e'"
proof -
  have "\<forall>x\<in>set (en_pend e). en_owner e' = Some (fst x)"
    using assms(1,7) by (auto simp: data_part_def)
  moreover have "\<forall>t n k. dict_get (en_at e') t = Some (n, Reads k) \<longrightarrow> k = length (en_done e)"
    using assms(1,8) unfolding data_part_def by blast
  ultimately show ?thesis using assms(1-6) by (cases "en_open e") (simp_all add: data_part_def)
qed

lemma pend_Nil: "data_part d0 e \<Longrightarrow> en_open e = None \<Longrightarrow> en_pend e = []"
  by (simp add: data_part_def)

lemma entry_is_set [simp]: "entry_is P t (dict_set t' p a) = (if t = t' then P p else entry_is P t a)"
  by (simp add: entry_is_def dict_simps)

lemma entry_is_pop [simp]: "entry_is P t (dict_pop t' a) = (t \<noteq> t' \<and> entry_is P t a)"
  by (simp add: entry_is_def dict_simps)

lemma owner_partD:
  assumes "owner_part ow opened a"
  shows "dict_get a t = Some p \<Longrightarrow> owner_at p \<Longrightarrow> ow = Some t"
    "ow = Some t \<Longrightarrow> entry_is owner_at t a"
    "opened \<Longrightarrow> ow = Some t \<Longrightarrow> entry_is in_body t a" "opened \<Longrightarrow> ow \<noteq> None"
proof -
  have own: "entry_is owner_at t a \<longleftrightarrow> ow = Some t" for t using assms by (simp add: owner_part_def)
  show "dict_get a t = Some p \<Longrightarrow> owner_at p \<Longrightarrow> ow = Some t" using own [of t] by (simp add: entry_isI)
  show "ow = Some t \<Longrightarrow> entry_is owner_at t a" using own [of t] by simp
  show "opened \<Longrightarrow> ow = Some t \<Longrightarrow> entry_is in_body t a" "opened \<Longrightarrow> ow \<noteq> None"
    using assms unfolding owner_part_def by blast+
qed

lemma in_body_owner: "entry_is in_body t a \<Longrightarrow> entry_is owner_at t a"
  by (auto simp: entry_is_def split: option.splits)

text \<open>A task that moves without becoming the owner or ceasing to be it.\<close>

lemma owner_part_set:
  assumes "owner_part ow opened a" "owner_at p = entry_is owner_at t a" "opened \<Longrightarrow> ow = Some t \<Longrightarrow> in_body p"
  shows "owner_part ow opened (dict_set t p a)"
  using assms unfolding owner_part_def by auto

lemma owner_part_pop:
  assumes "owner_part ow opened a" "\<not> entry_is owner_at t a"
  shows "owner_part ow opened (dict_pop t a)"
  using assms in_body_owner unfolding owner_part_def by auto

lemma owner_part_left:
  assumes "owner_part ow opened a" "(0 < n) = entry_is owner_at t a"
  shows "owner_part ow opened (left_at t n a)"
  using assms by (auto simp: left_at_def intro!: owner_part_pop owner_part_set)

lemma owner_part_gone: "owner_part (Some t) opened a \<Longrightarrow> owner_part None False (dict_pop t a)"
  unfolding owner_part_def by auto

lemma owner_part_new:
  "owner_part None opened a \<Longrightarrow> owner_part (Some t) False (dict_set t (n, Begins) a)"
  unfolding owner_part_def by auto


subsection \<open>Every step keeps the invariant\<close>

text \<open>Where a task is when it asks for the lock: outside, in a body, or in the queue.\<close>

definition asks :: "nat \<Rightarrow> nat \<Rightarrow> (nat, nat \<times> 'd ecall) dict \<Rightarrow> bool" where
  "asks t n a \<longleftrightarrow>
     (case dict_get a t of None \<Rightarrow> n = 0 | Some (m, c) \<Rightarrow> m = n \<and> (c = Body \<or> wants c))"

lemma wants_places:
  "wants c \<Longrightarrow> well_placed (n, c) \<longleftrightarrow> n \<le> 1" "wants c \<Longrightarrow> \<not> reading_at (n, c)"
  "wants c \<Longrightarrow> holding_at (n, c) \<longleftrightarrow> 0 < n" "wants c \<Longrightarrow> c \<noteq> Begins"
  by (cases c; simp)+

lemma asks_entry:
  assumes "asks t n a" "\<And>p. dict_get a t = Some p \<Longrightarrow> well_placed p"
  shows "\<not> entry_is reading_at t a" "entry_is holding_at t a \<longleftrightarrow> 0 < n" "entry_is owner_at t a \<longleftrightarrow> 0 < n"
    "entry_is in_body t a \<longleftrightarrow> 0 < n" "n \<le> 1"
proof -
  have "n \<le> 1 \<and> \<not> entry_is reading_at t a \<and> (entry_is holding_at t a \<longleftrightarrow> 0 < n) \<and>
        (entry_is owner_at t a \<longleftrightarrow> 0 < n) \<and> (entry_is in_body t a \<longleftrightarrow> 0 < n)"
  proof (cases "dict_get a t")
    case (Some p)
    then obtain c where "p = (n, c)" "c = Body \<or> wants c"
      using assms(1) by (cases p) (auto simp: asks_def)
    with Some show ?thesis using assms(2) [OF Some] by (auto simp: entry_isI wants_places)
  qed (use assms(1) in \<open>simp add: asks_def entry_is_def\<close>)
  then show "\<not> entry_is reading_at t a" "entry_is holding_at t a \<longleftrightarrow> 0 < n" "entry_is owner_at t a \<longleftrightarrow> 0 < n"
    "entry_is in_body t a \<longleftrightarrow> 0 < n" "n \<le> 1" by blast+
qed

lemma eng_invD:
  assumes "eng_inv d0 e"
  shows "lock_part (en_lock e) (en_waiters e) (en_at e)"
    "owner_part (en_owner e) (en_open e \<noteq> None) (en_at e)" "data_part d0 e"
  using assms by (simp_all add: eng_inv_def)

lemma inv_waits:
  assumes inv: "eng_inv d0 e" and "wants c" and asks: "asks t n (en_at e)"
    and l': "rw_inv l'" "distinct ws'" "t \<notin> set ws'" "list_all2 (waits_as (en_at e)) ws' ks'"
    and q: "map fst (rs_queue l') = ks' @ [lock_kind c]" "rs_reading l' = rs_reading (en_lock e)"
      "rs_writing l' = rs_writing (en_lock e)"
  shows "eng_inv d0 (at_call t n c (e\<lparr>en_lock := l', en_waiters := ws' @ [t]\<rparr>))"
proof -
  note parts = eng_invD [OF inv]
  note at = asks_entry [OF asks lock_partD(7) [OF parts(1)]]
  have "lock_part l' (ws' @ [t]) (dict_set t (n, c) (en_at e))"
    by (rule lock_part_set [OF parts(1)])
      (use assms(2) l' q at in \<open>simp_all add: wants_places waits_as_def dict_simps list_all2_appendI\<close>)
  moreover have "owner_part (en_owner e) (en_open e \<noteq> None) (dict_set t (n, c) (en_at e))"
    by (rule owner_part_set [OF parts(2)]) (use assms(2) at owner_partD(3) [OF parts(2)] in \<open>simp_all add: wants_places\<close>)
  moreover have "data_part d0 (at_call t n c (e\<lparr>en_lock := l', en_waiters := ws' @ [t]\<rparr>))"
    by (rule data_frame [OF parts(3)]) (use assms(2) in \<open>auto simp: at_call_def dict_simps split: if_splits\<close>)
  ultimately show ?thesis by (simp add: eng_inv_def at_call_def)
qed

lemma no_owner:
  assumes "eng_inv d0 e" "\<not> k_blocked k (en_lock e)"
  shows "en_owner e = None" "en_open e = None"
proof -
  note parts = eng_invD [OF assms(1)]
  show *: "en_owner e = None"
  proof (cases "en_owner e")
    case (Some t)
    then obtain n c where "dict_get (en_at e) t = Some (n, c)" "owner_at (n, c)"
      using owner_partD(2) [OF parts(2) Some] by (auto simp: entry_is_def split: option.splits)
    moreover from this(2) have "holding_at (n, c)" by (cases c) simp_all
    ultimately show ?thesis using free_for(1) [OF parts(1) assms(2)] by blast
  qed
  show "en_open e = None" using owner_partD(4) [OF parts(2)] * by blast
qed

lemma inv_goes:
  assumes inv: "eng_inv d0 e" and "wants c" and asks: "asks t n (en_at e)"
    and l': "rw_inv l'" "distinct ws'" "t \<notin> set ws'" "list_all2 (waits_as (en_at e)) ws' (map fst (rs_queue l'))"
    and free: "\<not> k_blocked (lock_kind c) (en_lock e)" and got: "got_lock (lock_kind c) (en_lock e) l'"
  shows "eng_inv d0 (with_lock t n c (e\<lparr>en_lock := l', en_waiters := ws'\<rparr>))"
proof -
  let ?e = "e\<lparr>en_lock := l', en_waiters := ws'\<rparr>"
  note parts = eng_invD [OF inv]
  note at = asks_entry [OF asks lock_partD(7) [OF parts(1)]]
  note none = no_owner [OF inv free]
  have n: "n = 0" using at(3) none(1) parts(2) by (auto simp: owner_part_def)
  have lock: "lock_part l' ws' (dict_set t p (en_at e))"
    if "well_placed p" "reading_at p = (lock_kind c = Reader)" "holding_at p = (lock_kind c = Writer)" for p
    by (rule lock_part_set [OF parts(1)]) (use that l' at n got in \<open>simp_all add: got_lock_def\<close>)
  have own: "owner_part None False (dict_set t p (en_at e))" if "\<not> owner_at p" for p
    using owner_part_set [OF parts(2), of p t] that at(3) n none by simp
  have data: "data_part d0 e'" if "en_committed e' = en_committed e" "en_open e' = en_open e" "en_done e' = en_done e"
    "en_pend e' = en_pend e" "en_seen e' = en_seen e"
    "en_at e' = dict_set t p (en_at e)" "\<And>n k. p = (n, Reads k) \<Longrightarrow> k = length (en_done e)" for e' p
    by (rule data_frame [OF parts(3) that(1-5)])
      (use that pend_Nil [OF parts(3) none(2)] in \<open>auto simp: dict_simps split: if_splits\<close>)
  show ?thesis
  proof (cases c)
    case WantRead
    then have e: "with_lock t n c ?e = at_call t 0 (Reads (length (en_done e))) ?e" by (simp add: with_lock_def n)
    show ?thesis unfolding e
      using lock [of "(0, Reads (length (en_done e)))"] own [of "(0, Reads (length (en_done e)))"] WantRead none
      by (simp add: eng_inv_def at_call_def) (rule data [where p = "(0, Reads (length (en_done e)))"]; simp)
  next
    case (WantWrite j)
    then have e: "with_lock t n c ?e = at_call t 0 (Writes j) ?e" by (simp add: with_lock_def n)
    show ?thesis unfolding e
      using lock [of "(0, Writes j)"] own [of "(0, Writes j)"] WantWrite none
      by (simp add: eng_inv_def at_call_def) (rule data [where p = "(0, Writes j)"]; simp)
  next
    case WantTx
    then have e: "with_lock t n c ?e = at_call t 0 Begins (?e\<lparr>en_owner := Some t\<rparr>)" by (simp add: with_lock_def n)
    show ?thesis unfolding e
      using lock [of "(0, Begins)"] owner_part_new [of False "en_at e" t 0] parts(2) WantTx none
      by (simp add: eng_inv_def at_call_def) (rule data [where p = "(0, Begins)"]; simp)
  qed (use assms(2) in simp_all)
qed

lemma lock_blocked_eq: "lock_blocked k e = k_blocked k (en_lock e)"
  by (simp add: lock_blocked_def k_blocked_def)

lemma inv_queue_or_go:
  assumes "eng_inv d0 e" "wants c" "asks t n (en_at e)"
    and "rw_inv l'" "distinct ws'" "t \<notin> set ws'" "list_all2 (waits_as (en_at e)) ws' ks'"
    and "\<not> k_blocked (lock_kind c) (en_lock e) \<Longrightarrow> got_lock (lock_kind c) (en_lock e) l' \<and> map fst (rs_queue l') = ks'"
    and "k_blocked (lock_kind c) (en_lock e) \<Longrightarrow> map fst (rs_queue l') = ks' @ [lock_kind c] \<and>
           rs_reading l' = rs_reading (en_lock e) \<and> rs_writing l' = rs_writing (en_lock e)"
  shows "eng_inv d0 (queue_or_go t n c (lock_blocked (lock_kind c) e) (e\<lparr>en_lock := l', en_waiters := ws'\<rparr>))"
  using assms inv_waits [OF assms(1-7)] inv_goes [OF assms(1-6)]
  by (cases "k_blocked (lock_kind c) (en_lock e)") (simp_all add: queue_or_go_def lock_blocked_eq)


text \<open>The calls that ask for the lock, and the waiters of its queue.\<close>

lemma call_depth_asks: "call_depth t e = Some n \<Longrightarrow> asks t n (en_at e)"
  by (auto simp: call_depth_def asks_def split: option.splits ecall.splits)

lemma not_in_queue:
  assumes "eng_inv d0 e" "call_depth t e = Some n"
  shows "t \<notin> set (en_waiters e)"
  using not_waiting [OF eng_invD(1) [OF assms(1)], of t] assms(2)
  by (auto simp: call_depth_def split: option.splits ecall.splits)

lemma inv_take_lock:
  assumes "eng_inv d0 e" "wants c" "call_depth t e = Some n"
  shows "eng_inv d0 (take_lock t n c e)"
proof -
  note parts = eng_invD [OF assms(1)]
  note lock = lock_partD [OF parts(1)]
  have "eng_inv d0 (queue_or_go t n c (lock_blocked (lock_kind c) e)
      (e\<lparr>en_lock := k_acquire (lock_kind c) (en_lock e), en_waiters := en_waiters e\<rparr>))"
    by (rule inv_queue_or_go [OF assms(1,2) call_depth_asks [OF assms(3)] k_acquire(1) [OF lock(1)] lock(3)
          not_in_queue [OF assms(1,3)] lock(4)])
      (simp_all add: k_acquire)
  then show ?thesis by (simp add: take_lock_def k_acquire_def)
qed

lemma inv_wake_at:
  assumes "eng_inv d0 e" "i < length (en_waiters e)" "snd (rs_queue (en_lock e) ! i)"
  shows "eng_inv d0 (eng_wake i e)"
proof -
  note parts = eng_invD [OF assms(1)]
  note lock = lock_partD [OF parts(1)]
  have i: "i < length (rs_queue (en_lock e))" using assms(2) lock(8) by simp
  obtain n c where c: "dict_get (en_at e) (en_waiters e ! i) = Some (n, c)" "wants c" "lock_kind c = fst (rs_queue (en_lock e) ! i)"
    using waits_nth [OF lock(4) assms(2)] i by auto
  have "asks (en_waiters e ! i) n (en_at e)" using c by (simp add: asks_def)
  from inv_queue_or_go [OF assms(1) c(2) this inv_wake [OF lock(1) i assms(3)] drop_nth_simps(2) [OF lock(3)]
      drop_nth_simps(3) [OF lock(3) assms(2)] drop_nth_simps(1) [OF lock(4)]]
  show ?thesis using c k_wake [OF i c(3) [symmetric]] by (simp add: eng_wake_def)
qed

lemma leave_call_eq: "leave_call t n e = e\<lparr>en_at := left_at t n (en_at e)\<rparr>"
  by (simp add: leave_call_def left_at_def at_call_def)

lemma left_at_reads: "dict_get (left_at t n a) t' = Some (m, Reads k) \<Longrightarrow> dict_get a t' = Some (m, Reads k)"
  by (auto simp: left_at_def dict_simps split: if_splits)

lemma data_left:
  assumes "data_part d0 e" "en_pend e = [] \<or> ow = en_owner e"
  shows "data_part d0 (e\<lparr>en_lock := l, en_waiters := ws, en_owner := ow, en_at := left_at t n (en_at e)\<rparr>)"
  by (rule data_frame [OF assms(1)]) (use assms(2) in \<open>auto dest: left_at_reads\<close>)

lemma engine_eta: "e\<lparr>en_owner := en_owner e\<rparr> = e" "e\<lparr>en_waiters := en_waiters e\<rparr> = e" "e\<lparr>en_lock := en_lock e\<rparr> = e"
  by simp_all

lemma inv_cancel_at:
  assumes "eng_inv d0 e" "i < length (en_waiters e)"
  shows "eng_inv d0 (eng_cancel i e)"
proof -
  note parts = eng_invD [OF assms(1)]
  note lock = lock_partD [OF parts(1)]
  let ?t = "en_waiters e ! i" and ?ws = "drop_nth i (en_waiters e)" and ?l = "cancel_waiter i (en_lock e)"
  have i: "i < length (rs_queue (en_lock e))" using assms(2) lock(8) by simp
  obtain n c where c: "dict_get (en_at e) ?t = Some (n, c)" "wants c"
    using waits_nth [OF lock(4) assms(2)] by auto
  then have "asks ?t n (en_at e)" by (simp add: asks_def)
  note at = asks_entry [OF this lock(7)]
  have "lock_part ?l ?ws (left_at ?t n (en_at e))"
    by (rule lock_part_left [OF parts(1) inv_cancel [OF lock(1) i] drop_nth_simps(2) [OF lock(3)]
          drop_nth_simps(3) [OF lock(3) assms(2)] at(5)])
      (use at drop_nth_simps(1) [OF lock(4)] in simp_all)
  moreover have "owner_part (en_owner e) (en_open e \<noteq> None) (left_at ?t n (en_at e))"
    by (rule owner_part_left [OF parts(2)]) (use at in simp)
  moreover have "data_part d0 (e\<lparr>en_lock := ?l, en_waiters := ?ws, en_owner := en_owner e, en_at := left_at ?t n (en_at e)\<rparr>)"
    by (rule data_left [OF parts(3)]) simp
  ultimately show ?thesis using c by (simp add: eng_cancel_def leave_call_eq eng_inv_def)
qed

text \<open>A task of the owner's places that moves on without the lock.\<close>

lemma inv_owner_moves:
  assumes "eng_inv d0 e" "dict_get (en_at e) t = Some (1, c)" "\<not> wants c" "well_placed (1, c')" "\<not> wants c'"
  shows "eng_inv d0 (at_call t 1 c' e)"
proof -
  note parts = eng_invD [OF assms(1)]
  note lock = lock_partD [OF parts(1)]
  have t: "t \<notin> set (en_waiters e)" by (rule not_waiting [OF parts(1)]) (use assms in simp)
  have h: "entry_is holding_at t (en_at e)" "\<not> entry_is reading_at t (en_at e)" "entry_is owner_at t (en_at e)"
    using assms(2,3) lock(7) [OF assms(2)] by (cases c; simp add: entry_isI)+
  have p: "holding_at (1, c')" "\<not> reading_at (1, c')" "owner_at (1, c')" "in_body (1, c')"
    using assms(4,5) by (cases c'; simp)+
  have "lock_part (en_lock e) (en_waiters e) (dict_set t (1, c') (en_at e))"
    by (rule lock_part_set [OF parts(1) lock(1,3)]) (use assms h p t lock(4) in simp_all)
  moreover have "owner_part (en_owner e) (en_open e \<noteq> None) (dict_set t (1, c') (en_at e))"
    by (rule owner_part_set [OF parts(2)]) (use h p in simp_all)
  moreover have "data_part d0 (at_call t 1 c' e)"
    by (rule data_frame [OF parts(3)]) (use p(2) in \<open>auto simp: at_call_def dict_simps split: if_splits\<close>)
  ultimately show ?thesis by (simp add: eng_inv_def at_call_def)
qed


text \<open>Giving the lock back.\<close>

lemma left_at_0 [simp]: "left_at t 0 a = dict_pop t a"
  by (simp add: left_at_def)

lemma reader_sees:
  assumes "eng_inv d0 e" "dict_get (en_at e) t = Some (n, Reads k)"
  shows "en_open e = None" "en_owner e = None" "k = length (en_done e)" "visible e = replayed (en_done e) d0" "n = 0"
proof -
  note parts = eng_invD [OF assms(1)]
  show "n = 0" using lock_partD(7) [OF parts(1) assms(2)] by simp
  show none: "en_owner e = None"
  proof (cases "en_owner e")
    case (Some t')
    then obtain m c where "dict_get (en_at e) t' = Some (m, c)" "owner_at (m, c)"
      using owner_partD(2) [OF parts(2) Some] by (auto simp: entry_is_def split: option.splits)
    moreover from this(2) have "holding_at (m, c)" by (cases c) simp_all
    ultimately show ?thesis using reader_counted(3) [OF parts(1) assms(2)] by auto
  qed
  then show shut: "en_open e = None" using owner_partD(4) [OF parts(2)] by blast
  show "k = length (en_done e)" using parts(3) assms(2) by (simp add: data_part_def)
  show "visible e = replayed (en_done e) d0" using parts(3) shut by (simp add: visible_def data_part_def)
qed

lemma inv_read_leaves:
  assumes "eng_inv d0 e" "dict_get (en_at e) t = Some (n, Reads k)"
  shows "eng_inv d0 (leave_call t n (drop_read e))"
proof -
  note parts = eng_invD [OF assms(1)]
  note lock = lock_partD [OF parts(1)]
  have n: "n = 0" using lock(7) [OF assms(2)] by simp
  have pos: "0 < rs_reading (en_lock e)" by (rule reader_counted(1) [OF parts(1) assms(2)]) simp
  have t: "t \<notin> set (en_waiters e)" by (rule not_waiting [OF parts(1)]) (use assms in simp)
  have "lock_part (release_read (en_lock e)) (en_waiters e) (left_at t 0 (en_at e))"
    by (rule lock_part_left [OF parts(1) inv_release_read [OF lock(1) pos] lock(3) t])
      (use lock(4) pos assms(2) n in \<open>simp_all add: entry_isI\<close>)
  moreover have "owner_part (en_owner e) (en_open e \<noteq> None) (left_at t 0 (en_at e))"
    by (rule owner_part_left [OF parts(2)]) (use assms(2) n in \<open>simp add: entry_isI\<close>)
  moreover have "data_part d0 (e\<lparr>en_lock := release_read (en_lock e), en_waiters := en_waiters e,
      en_owner := en_owner e, en_at := left_at t 0 (en_at e)\<rparr>)"
    by (rule data_left [OF parts(3)]) simp
  ultimately show ?thesis by (simp add: n leave_call_eq drop_read_def eng_inv_def)
qed

lemma inv_seen:
  assumes "eng_inv d0 e" "dict_get (en_at e) t = Some (n, Reads k)"
  shows "eng_inv d0 (e\<lparr>en_seen := en_seen e @ [(t, k, visible e)]\<rparr>)"
  using assms(1) reader_sees [OF assms] by (auto simp: eng_inv_def data_part_def)

lemma lock_part_written:
  assumes "eng_inv d0 e" "dict_get (en_at e) t = Some (n, c)" "holding_at (n, c)" "\<not> wants c"
  shows "lock_part (release_write (en_lock e)) (en_waiters e) (left_at t 0 (en_at e))"
proof -
  note parts = eng_invD [OF assms(1)]
  note lock = lock_partD [OF parts(1)]
  have pos: "rs_writing (en_lock e) = 1" by (rule holder_alone(1) [OF parts(1) assms(2,3)])
  have t: "t \<notin> set (en_waiters e)" by (rule not_waiting [OF parts(1)]) (use assms in simp)
  have r: "\<not> reading_at (n, c)" using assms(3) lock(7) [OF assms(2)] by (cases c) simp_all
  show ?thesis
    by (rule lock_part_left [OF parts(1) inv_release_write [OF lock(1)] lock(3) t])
      (use lock(4) pos assms(2,3) r in \<open>simp_all add: entry_isI\<close>)
qed

lemma inv_write_leaves:
  assumes "eng_inv d0 e" "dict_get (en_at e) t = Some (n, Writes j)"
  shows "eng_inv d0 (leave_call t n (drop_write e))"
proof -
  note parts = eng_invD [OF assms(1)]
  have n: "n = 0" using lock_partD(7) [OF parts(1) assms(2)] by simp
  have "owner_part (en_owner e) (en_open e \<noteq> None) (left_at t 0 (en_at e))"
    by (rule owner_part_left [OF parts(2)]) (use assms(2) n in \<open>simp add: entry_isI\<close>)
  moreover have "data_part d0 (e\<lparr>en_lock := release_write (en_lock e), en_waiters := en_waiters e,
      en_owner := en_owner e, en_at := left_at t 0 (en_at e)\<rparr>)"
    by (rule data_left [OF parts(3)]) simp
  ultimately show ?thesis
    using lock_part_written [OF assms] by (simp add: n leave_call_eq drop_write_def eng_inv_def)
qed

lemma drop_owned_eq: "drop_owned e = e\<lparr>en_lock := release_write (en_lock e), en_owner := None\<rparr>"
  by (simp add: drop_owned_def drop_write_def)

lemma inv_owner_leaves:
  assumes "eng_inv d0 e" "dict_get (en_at e) t = Some (n, c)" "owner_at (n, c)" "\<not> wants c" "en_open e = None"
  shows "eng_inv d0 (leave_call t 0 (drop_owned e))"
proof -
  note parts = eng_invD [OF assms(1)]
  have h: "holding_at (n, c)" using assms(3) by (cases c) simp_all
  have "en_owner e = Some t" by (rule owner_partD(1) [OF parts(2) assms(2,3)])
  then have "owner_part None False (left_at t 0 (en_at e))"
    using owner_part_gone parts(2) by simp
  moreover have "data_part d0 (e\<lparr>en_lock := release_write (en_lock e), en_waiters := en_waiters e,
      en_owner := None, en_at := left_at t 0 (en_at e)\<rparr>)"
    by (rule data_left [OF parts(3)]) (simp add: pend_Nil [OF parts(3) assms(5)])
  ultimately show ?thesis
    using lock_part_written [OF assms(1,2) h assms(4)] assms(5)
    by (simp add: leave_call_eq drop_owned_eq eng_inv_def)
qed

lemma inv_run_job:
  assumes "eng_inv d0 e" "dict_get (en_at e) t = Some (n, c)" "holding_at (n, c)"
  shows "eng_inv d0 (run_job t j e)"
proof -
  note parts = eng_invD [OF assms(1)]
  have "no_reads e" using holder_alone(5) [OF parts(1) assms(2,3)] by (fastforce simp: no_reads_def)
  moreover have "en_owner e = Some t \<or> en_open e = None"
  proof (cases "en_owner e")
    case (Some t')
    then obtain m c' where "dict_get (en_at e) t' = Some (m, c')" "owner_at (m, c')"
      using owner_partD(2) [OF parts(2) Some] by (auto simp: entry_is_def split: option.splits)
    moreover from this(2) have "holding_at (m, c')" by (cases c') simp_all
    ultimately show ?thesis using holder_alone(4) [OF parts(1) assms(2,3)] Some by blast
  next
    case None
    then show ?thesis using owner_partD(4) [OF parts(2)] by blast
  qed
  ultimately have "data_part d0 (run_job t j e)" by (rule data_run_job [OF parts(3)])
  moreover have "owner_part (en_owner e) (en_open (run_job t j e) \<noteq> None) (en_at e)"
    using parts(2) run_job_open [of t j e] unfolding owner_part_def by blast
  ultimately show ?thesis using parts(1) by (simp add: eng_inv_def)
qed

lemma inv_begins:
  assumes "eng_inv d0 e" "dict_get (en_at e) t = Some (n, Begins)"
  shows "en_open e = None" "n = 0" "eng_inv d0 (at_call t (Suc n) Body (e\<lparr>en_open := Some (en_committed e)\<rparr>))"
proof -
  note parts = eng_invD [OF assms(1)]
  note lock = lock_partD [OF parts(1)]
  show n: "n = 0" using lock(7) [OF assms(2)] by simp
  have own: "en_owner e = Some t" by (rule owner_partD(1) [OF parts(2) assms(2)]) simp
  show shut: "en_open e = None"
  proof (rule ccontr)
    assume "en_open e \<noteq> None"
    from owner_partD(3) [OF parts(2) this own] show False using assms(2) n by (simp add: entry_isI)
  qed
  have t: "t \<notin> set (en_waiters e)" by (rule not_waiting [OF parts(1)]) (use assms in simp)
  have "lock_part (en_lock e) (en_waiters e) (dict_set t (1, Body) (en_at e))"
    by (rule lock_part_set [OF parts(1) lock(1,3)]) (use lock(4) t assms(2) n in \<open>simp_all add: entry_isI\<close>)
  moreover have "owner_part (Some t) True (dict_set t (1, Body) (en_at e))"
    using parts(2) own shut unfolding owner_part_def by auto
  moreover have "data_part d0 (e\<lparr>en_open := Some (en_committed e), en_at := dict_set t (1, Body) (en_at e)\<rparr>)"
    using parts(3) shut by (auto simp: data_part_def dict_simps split: if_splits)
  ultimately show "eng_inv d0 (at_call t (Suc n) Body (e\<lparr>en_open := Some (en_committed e)\<rparr>))"
    using own by (simp add: n eng_inv_def at_call_def)
qed


lemma inv_finish:
  assumes "eng_inv d0 e"
  shows "eng_inv d0 (eng_finish t e)"
proof (cases "dict_get (en_at e) t")
  case (Some p)
  obtain n c where p: "p = (n, c)" by (cases p)
  note at = Some [unfolded p]
  note placed = lock_partD(7) [OF eng_invD(1) [OF assms] at]
  show ?thesis
  proof (cases c)
    case (Reads k)
    then show ?thesis
      using inv_read_leaves [OF inv_seen [OF assms], of t n k t n k] at by (simp add: eng_finish_def)
  next
    case (Runs j)
    then have "eng_inv d0 (at_call t 1 Body (run_job t j e))"
      using inv_owner_moves [OF inv_run_job [OF assms at], of j t c Body] at placed by simp
    with Runs show ?thesis using at placed by (simp add: eng_finish_def leave_call_def)
  next
    case (Writes j)
    then show ?thesis
      using inv_write_leaves [OF inv_run_job [OF assms at], of j t n j] at by (simp add: eng_finish_def)
  next
    case Begins
    then show ?thesis using inv_begins [OF assms, of t n] at by (simp add: eng_finish_def)
  next
    case (Ends ok)
    let ?j = "if ok then CommitOpen else RollbackOpen"
    have "eng_inv d0 (leave_call t 0 (drop_owned (run_job t ?j e)))"
      by (rule inv_owner_leaves [OF inv_run_job [OF assms at], of ?j t n c]) (use Ends at placed in simp_all)
    with Ends show ?thesis using at placed by (simp add: eng_finish_def)
  qed (use assms at in \<open>simp_all add: eng_finish_def\<close>)
qed (use assms in \<open>simp add: eng_finish_def\<close>)

lemma inv_raise:
  assumes "eng_inv d0 e" "ends_cleanly (Raise t) e"
  shows "eng_inv d0 (eng_raise t e)"
proof (cases "dict_get (en_at e) t")
  case (Some p)
  obtain n c where p: "p = (n, c)" by (cases p)
  note at = Some [unfolded p]
  note placed = lock_partD(7) [OF eng_invD(1) [OF assms(1)] at]
  show ?thesis
  proof (cases c)
    case (Reads k)
    then show ?thesis using inv_read_leaves [OF assms(1)] at by (simp add: eng_raise_def)
  next
    case (Runs j)
    then show ?thesis using inv_owner_moves [OF assms(1), of t c Body] at placed
      by (simp add: eng_raise_def leave_call_def)
  next
    case (Writes j)
    then show ?thesis using inv_write_leaves [OF assms(1)] at by (simp add: eng_raise_def)
  next
    case Begins
    then show ?thesis using inv_owner_leaves [OF assms(1) at] inv_begins(1,2) [OF assms(1), of t n] at
      by (simp add: eng_raise_def)
  next
    case (Ends ok)
    with assms(2) at show ?thesis by (simp add: ends_cleanly_def)
  qed (use assms at in \<open>simp_all add: eng_raise_def\<close>)
qed (use assms in \<open>simp add: eng_raise_def\<close>)

lemma inv_write_call:
  assumes "eng_inv d0 e" "call_depth t e = Some n"
  shows "eng_inv d0 (eng_write j t n e)"
proof (cases "owns_write t e")
  case True
  note parts = eng_invD [OF assms(1)]
  from True have "entry_is owner_at t (en_at e)" using owner_partD(2) [OF parts(2)] by (simp add: owns_write_def)
  with assms(2) have at: "dict_get (en_at e) t = Some (n, Body)"
    by (auto simp: entry_is_def call_depth_def split: option.splits ecall.splits)
  with lock_partD(7) [OF parts(1) at] have "n = 1" by simp
  with True show ?thesis using inv_owner_moves [OF assms(1), of t Body "Runs j"] at by (simp add: eng_write_def)
qed (use inv_take_lock [OF assms(1)] assms(2) in \<open>simp add: eng_write_def\<close>)

lemma inv_exit_call:
  assumes "eng_inv d0 e" "call_depth t e = Some (Suc n)"
  shows "eng_inv d0 (eng_exit ok t (Suc n) e)"
proof -
  have at: "dict_get (en_at e) t = Some (Suc n, Body)"
    using assms(2) by (auto simp: call_depth_def split: option.splits ecall.splits)
  with lock_partD(7) [OF eng_invD(1) [OF assms(1)] at] have "n = 0" by simp
  with at show ?thesis using inv_owner_moves [OF assms(1), of t Body "Ends ok"] by (simp add: eng_exit_def)
qed

lemma inv_eng_act:
  assumes "eng_inv d0 e" "ends_cleanly x e"
  shows "eng_inv d0 (eng_act x e)"
  using assms
  by (cases x)
    (auto simp: eng_read_def eng_enter_def inv_take_lock inv_write_call inv_exit_call inv_finish inv_raise inv_wake_at
      inv_cancel_at split: option.splits nat.splits)

lemma eng_inv_init: "eng_inv d0 (engine_init pooled d0)"
  using rw_inv_start [of rw_init]
  by (auto simp: eng_inv_def lock_part_def owner_part_def data_part_def engine_init_def rw_init_def rw_start_def
      entry_is_def replayed_def)

interpretation eng: invariant_system "\<lambda>e. e = engine_init pooled d0" eng_step "eng_inv d0"
  by unfold_locales (auto simp: eng_step_def eng_inv_init inv_eng_act)

text \<open>
  The runs: every COMMIT and ROLLBACK ran, and a wait that ended with an exception is that of a
  statement that had no effect (it failed, or its task was cancelled before the worker started it).
\<close>

abbreviation reachable_engine :: "bool \<Rightarrow> 'd \<Rightarrow> 'd engine \<Rightarrow> bool" where
  "reachable_engine pooled d0 \<equiv> reach (\<lambda>e. e = engine_init pooled d0) eng_step"


section \<open>While one task has the lock\<close>

text \<open>The actions of a task: what it calls, what its wait for the worker brings, and its cancellation.\<close>

fun of_task :: "nat \<Rightarrow> 'd eaction \<Rightarrow> 'd engine \<Rightarrow> bool" where
  "of_task t (CallRead t') e = (t' = t)"
| "of_task t (CallWrite t' j) e = (t' = t)"
| "of_task t (CallEnter t') e = (t' = t)"
| "of_task t (CallExit t' ok) e = (t' = t)"
| "of_task t (Finish t') e = (t' = t)"
| "of_task t (Raise t') e = (t' = t)"
| "of_task t (WakeAt i) e = False"
| "of_task t (CancelAt i) e = (i < length (en_waiters e) \<and> en_waiters e ! i = t)"

text \<open>Nothing that the task or a reader can see has changed.\<close>

definition unchanged_for :: "nat \<Rightarrow> 'd engine \<Rightarrow> 'd engine \<Rightarrow> bool" where
  "unchanged_for t e e' \<longleftrightarrow>
     dict_get (en_at e') t = dict_get (en_at e) t \<and> en_owner e' = en_owner e \<and> en_pooled e' = en_pooled e \<and>
     en_committed e' = en_committed e \<and> en_open e' = en_open e \<and> en_done e' = en_done e \<and>
     en_pend e' = en_pend e \<and> en_seen e' = en_seen e"

lemma unchanged_refl [simp]: "unchanged_for t e e"
  by (simp add: unchanged_for_def)

lemma unchanged_trans: "unchanged_for t e e' \<Longrightarrow> unchanged_for t e' e'' \<Longrightarrow> unchanged_for t e e''"
  by (simp add: unchanged_for_def)

lemma unchanged_queue:
  assumes "t' \<noteq> t \<or> dict_get (en_at e) t = Some (n, c)"
  shows "unchanged_for t e (queue_or_go t' n c True (e\<lparr>en_lock := l, en_waiters := ws\<rparr>))"
  using assms by (auto simp: unchanged_for_def queue_or_go_def at_call_def dict_simps)

lemma unchanged_leave: "t' \<noteq> t \<Longrightarrow> unchanged_for t e (leave_call t' n (e\<lparr>en_lock := l, en_waiters := ws\<rparr>))"
  by (auto simp: unchanged_for_def leave_call_eq left_at_def dict_simps)

lemma take_lock_blocked:
  assumes "k_blocked (lock_kind c) (en_lock e)" "t' \<noteq> t \<or> dict_get (en_at e) t = Some (n, c)"
  shows "unchanged_for t e (take_lock t' n c e)"
  using assms unchanged_queue [OF assms(2), of "en_waiters e" "k_acquire (lock_kind c) (en_lock e)"]
  by (simp add: take_lock_def lock_blocked_eq k_acquire_def)

text \<open>A task of another place than the holder's only asks for the lock or waits for it.\<close>

lemma others_wait:
  assumes "eng_inv d0 e" "dict_get (en_at e) t = Some p" "holding_at p" "t' \<noteq> t" "dict_get (en_at e) t' = Some (n, c)"
  shows "wants c" "n = 0"
proof -
  note lock = eng_invD(1) [OF assms(1)]
  have h: "\<not> holding_at (n, c)" using holder_alone(4) [OF lock assms(2,3,5)] assms(4) by blast
  then show n: "n = 0" by (cases c) simp_all
  have "\<not> reading_at (n, c)" using holder_alone(5) [OF lock assms(2,3,5)] .
  then show "wants c" using h n lock_partD(7) [OF lock assms(5)] by (cases c) simp_all
qed

lemma others_change_nothing:
  assumes inv: "eng_inv d0 e" and at: "dict_get (en_at e) t = Some p" "holding_at p" and other: "\<not> of_task t x e"
  shows "unchanged_for t e (eng_act x e)"
proof -
  note lock = eng_invD(1) [OF inv]
  have blocked: "k_blocked k (en_lock e)" for k by (rule holder_alone(3) [OF lock at])
  note wait = others_wait [OF inv at]
  have depth: "call_depth t' e = Some n \<Longrightarrow> n = 0 \<and> dict_get (en_at e) t' = None" if "t' \<noteq> t" for t' n
    using wait [OF that] by (force simp: call_depth_def split: option.splits ecall.splits)
  have not_owner: "t' \<noteq> t \<Longrightarrow> \<not> owns_write t' e" for t'
  proof
    assume "t' \<noteq> t" "owns_write t' e"
    then obtain n c where "dict_get (en_at e) t' = Some (n, c)" "owner_at (n, c)"
      using owner_partD(2) [OF eng_invD(2) [OF inv]] by (auto simp: owns_write_def entry_is_def split: option.splits)
    with wait [OF \<open>t' \<noteq> t\<close> this(1)] show False by (auto simp: wants_places)
  qed
  show ?thesis
  proof (cases x)
    case (CallRead t')
    with other show ?thesis
      by (auto simp: eng_read_def intro!: take_lock_blocked blocked split: option.splits)
  next
    case (CallWrite t' j)
    with other show ?thesis
      by (auto simp: eng_write_def not_owner intro!: take_lock_blocked blocked split: option.splits)
  next
    case (CallEnter t')
    with other show ?thesis
      by (auto simp: eng_enter_def intro!: take_lock_blocked blocked split: option.splits)
  next
    case (CallExit t' ok)
    with other show ?thesis using depth [of t'] by (auto split: option.splits nat.splits)
  next
    case (Finish t')
    with other show ?thesis using wait [of t'] by (auto simp: eng_finish_def split: option.splits ecall.splits)
  next
    case (Raise t')
    with other show ?thesis using wait [of t'] by (auto simp: eng_raise_def split: option.splits ecall.splits)
  next
    case (WakeAt i)
    then show ?thesis
      by (auto simp: eng_wake_def lock_blocked_eq blocked split: option.splits intro!: unchanged_queue)
  next
    case (CancelAt i)
    with other show ?thesis by (auto simp: eng_cancel_def split: option.splits intro!: unchanged_leave)
  qed
qed

lemma others_end_cleanly:
  assumes "eng_inv d0 e" "dict_get (en_at e) t = Some p" "holding_at p" "\<not> of_task t x e"
  shows "ends_cleanly x e"
proof (cases x)
  case (Raise t')
  with assms(4) others_wait(1) [OF assms(1-3), of t'] show ?thesis
    by (fastforce simp: ends_cleanly_def split: option.splits ecall.splits)
qed (simp_all add: ends_cleanly_def)

fun only_others :: "nat \<Rightarrow> 'd eaction list \<Rightarrow> 'd engine \<Rightarrow> bool" where
  "only_others t [] e = True"
| "only_others t (x # xs) e = (\<not> of_task t x e \<and> only_others t xs (eng_act x e))"

lemma eng_run_simps [simp]: "eng_run [] e = e" "eng_run (x # xs) e = eng_run xs (eng_act x e)"
  by (simp_all add: eng_run_def)

lemma others_run:
  assumes "eng_inv d0 e" "dict_get (en_at e) t = Some p" "holding_at p" "only_others t xs e"
  shows "eng_inv d0 (eng_run xs e) \<and> unchanged_for t e (eng_run xs e)"
  using assms
proof (induction xs arbitrary: e)
  case (Cons x xs)
  then have other: "\<not> of_task t x e" by simp
  note inv = inv_eng_act [OF Cons.prems(1) others_end_cleanly [OF Cons.prems(1-3) other]]
  note same = others_change_nothing [OF Cons.prems(1-3) other]
  then have "dict_get (en_at (eng_act x e)) t = Some p" using Cons.prems(2) by (simp add: unchanged_for_def)
  with Cons.IH [OF inv this Cons.prems(3)] Cons.prems(4) show ?case using same by (auto intro: unchanged_trans)
qed simp


section \<open>Properties\<close>

text \<open>
  Reads see whole transactions, all that were committed: in every reachable state, cancelled
  waits for the lock and failed or withdrawn statements included, the committed database is the initial one with the
  transactions and single statements of \<open>en_done\<close> run one after the other, none of which has a
  statement of a second task in it; each read that was answered saw exactly what had been
  committed when it got the lock, however long ago its answer is; and while a read is under way
  nothing is committed and no transaction is open.
\<close>

theorem reads_see_committed_writes:
  assumes "reachable_engine pooled d0 e"
  shows "en_committed e = replayed (en_done e) d0 \<and> list_all one_task (en_done e) \<and>
         list_all (\<lambda>(t, k, d). k \<le> length (en_done e) \<and> d = replayed (take k (en_done e)) d0) (en_seen e) \<and>
         (\<forall>t n k. dict_get (en_at e) t = Some (n, Reads k) \<longrightarrow> k = length (en_done e) \<and> en_open e = None)"
proof -
  have inv: "eng_inv d0 e" using assms by (rule eng.reachable_inv)
  then show ?thesis using reader_sees [OF inv] by (auto simp: eng_inv_def data_part_def list_all_iff)
qed

text \<open>
  How the wait of a task for the worker ends: normally, or with an exception.  A statement of a body
  whose task is cancelled while the worker runs it has its effect before anything else reaches the
  writer, so it counts as one that was run, whatever the body then does; one that failed, or was
  withdrawn before the worker started it, had none.
\<close>

definition answered :: "nat \<Rightarrow> bool \<Rightarrow> 'd eaction" where
  "answered t fine = (if fine then Finish t else Raise t)"

text \<open>
  The body of a transaction: statements, with whatever other tasks do before and during each of
  them, and how each wait ends.
\<close>

type_synonym 'd tx_body = "('d eaction list \<times> ('d \<Rightarrow> 'd) \<times> 'd eaction list \<times> bool) list"

fun body_run :: "nat \<Rightarrow> 'd tx_body \<Rightarrow> 'd engine \<Rightarrow> 'd engine" where
  "body_run t [] e = e"
| "body_run t ((xs, f, ys, fine) # bs) e =
     body_run t bs (eng_act (answered t fine) (eng_run ys (eng_act (CallWrite t (Statement f)) (eng_run xs e))))"

fun body_others :: "nat \<Rightarrow> 'd tx_body \<Rightarrow> 'd engine \<Rightarrow> bool" where
  "body_others t [] e = True"
| "body_others t ((xs, f, ys, fine) # bs) e =
     (only_others t xs e \<and> only_others t ys (eng_act (CallWrite t (Statement f)) (eng_run xs e)) \<and>
      body_others t bs (eng_act (answered t fine) (eng_run ys (eng_act (CallWrite t (Statement f)) (eng_run xs e)))))"

text \<open>The statements of a body that the worker ran.\<close>

fun ran_in :: "'d tx_body \<Rightarrow> ('d \<Rightarrow> 'd) list" where
  "ran_in [] = []"
| "ran_in ((xs, f, ys, fine) # bs) = (if fine then f # ran_in bs else ran_in bs)"

text \<open>In the body: the owner, with its statements so far in the open transaction.\<close>

definition in_tx_body :: "'d \<Rightarrow> nat \<Rightarrow> 'd engine \<Rightarrow> bool" where
  "in_tx_body d0 t e \<longleftrightarrow>
     eng_inv d0 e \<and> dict_get (en_at e) t = Some (1, Body) \<and> en_open e \<noteq> None"

lemma in_tx_body_owner: "in_tx_body d0 t e \<Longrightarrow> en_owner e = Some t"
  unfolding in_tx_body_def using owner_partD(1) [OF eng_invD(2), of d0 e t "(1, Body)"] by simp

lemma in_tx_body_others:
  assumes "in_tx_body d0 t e" "only_others t xs e"
  shows "in_tx_body d0 t (eng_run xs e)" "unchanged_for t e (eng_run xs e)"
proof -
  have *: "eng_inv d0 e" "dict_get (en_at e) t = Some (1, Body)" "en_open e \<noteq> None"
    using assms(1) by (simp_all add: in_tx_body_def)
  from others_run [OF *(1,2) _ assms(2)] * show "in_tx_body d0 t (eng_run xs e)" "unchanged_for t e (eng_run xs e)"
    by (simp_all add: in_tx_body_def unchanged_for_def)
qed

lemma statement_in_body:
  fixes fine :: bool
  assumes "in_tx_body d0 t e" "only_others t ys (eng_act (CallWrite t (Statement f)) e)"
  defines "e' \<equiv> eng_act (answered t fine) (eng_run ys (eng_act (CallWrite t (Statement f)) e))"
  shows "in_tx_body d0 t e'" "en_pend e' = en_pend e @ (if fine then [(t, f)] else [])" "en_done e' = en_done e"
    "en_committed e' = en_committed e" "en_seen e' = en_seen e"
proof -
  have *: "eng_inv d0 e" "dict_get (en_at e) t = Some (1, Body)" "en_open e \<noteq> None"
    using assms(1) by (simp_all add: in_tx_body_def)
  have own: "owns_write t e" using in_tx_body_owner [OF assms(1)] by (simp add: owns_write_def)
  let ?e1 = "eng_act (CallWrite t (Statement f)) e"
  have e1: "?e1 = at_call t 1 (Runs (Statement f)) e"
    using * own by (simp add: call_depth_def eng_write_def)
  have inv1: "eng_inv d0 ?e1" by (rule inv_eng_act [OF *(1)]) (simp add: ends_cleanly_def)
  have "dict_get (en_at ?e1) t = Some (1, Runs (Statement f))" unfolding e1 by (simp add: at_call_def dict_simps)
  note run = others_run [OF inv1 this _ assms(2)]
  let ?e2 = "eng_run ys ?e1"
  have at2: "dict_get (en_at ?e2) t = Some (1, Runs (Statement f))" and
    same: "en_open ?e2 = en_open e" "en_pend ?e2 = en_pend e" "en_done ?e2 = en_done e"
      "en_committed ?e2 = en_committed e" "en_seen ?e2 = en_seen e"
    using run unfolding e1 by (simp_all add: unchanged_for_def at_call_def dict_simps)
  have e': "e' = at_call t 1 Body (if fine then run_statement t f ?e2 else ?e2)"
    using at2 by (simp add: e'_def answered_def eng_finish_def eng_raise_def leave_call_def)
  have "eng_inv d0 e'" unfolding e'_def
    by (rule inv_eng_act) (use run at2 in \<open>simp_all add: ends_cleanly_def answered_def\<close>)
  then show "in_tx_body d0 t e'" using *(3) same(1) unfolding in_tx_body_def
    by (auto simp: e' at_call_def dict_simps run_statement_def)
  show "en_pend e' = en_pend e @ (if fine then [(t, f)] else [])" "en_done e' = en_done e"
    "en_committed e' = en_committed e" "en_seen e' = en_seen e"
    using *(3) same by (auto simp: e' at_call_def run_statement_def)
qed

text \<open>What a body leaves: its statements in the open transaction, the rest as it was.\<close>

definition body_done :: "'d \<Rightarrow> nat \<Rightarrow> ('d \<Rightarrow> 'd) list \<Rightarrow> 'd engine \<Rightarrow> 'd engine \<Rightarrow> bool" where
  "body_done d0 t fs e e' \<longleftrightarrow>
     in_tx_body d0 t e' \<and> en_pend e' = en_pend e @ map (Pair t) fs \<and> en_done e' = en_done e \<and>
     en_committed e' = en_committed e \<and> en_seen e' = en_seen e"

lemma body_done_others:
  assumes "body_done d0 t fs e e'" "only_others t xs e'"
  shows "body_done d0 t fs e (eng_run xs e')"
  using assms in_tx_body_others [of d0 t e' xs] by (simp add: body_done_def unchanged_for_def)

lemma body_done_statement:
  assumes "body_done d0 t fs e e'" "only_others t ys (eng_act (CallWrite t (Statement f)) e')"
  shows "body_done d0 t (fs @ (if fine then [f] else [])) e
    (eng_act (answered t fine) (eng_run ys (eng_act (CallWrite t (Statement f)) e')))"
proof -
  have "in_tx_body d0 t e'" using assms(1) by (simp add: body_done_def)
  note after = statement_in_body [OF this assms(2), of fine]
  from assms(1) after(2-) show ?thesis
    unfolding body_done_def by (intro conjI after(1)) (simp_all del: eng_act.simps)
qed

lemma body_runs:
  "body_done d0 t fs e0 e \<Longrightarrow> body_others t bs e \<Longrightarrow> body_done d0 t (fs @ ran_in bs) e0 (body_run t bs e)"
proof (induction t bs e arbitrary: fs rule: body_run.induct)
  case (2 t xs f ys fine bs e)
  from 2(3) have o: "only_others t xs e" "only_others t ys (eng_act (CallWrite t (Statement f)) (eng_run xs e))"
    "body_others t bs (eng_act (answered t fine) (eng_run ys (eng_act (CallWrite t (Statement f)) (eng_run xs e))))"
    by simp_all
  from 2(1) [OF body_done_statement [OF body_done_others [OF 2(2) o(1)] o(2)] o(3)] show ?case by (cases fine) simp_all
qed simp

text \<open>
  A transaction from its BEGIN to the end of its COMMIT or ROLLBACK: the body, then the exit, each
  with what others do meanwhile, and whether the COMMIT or ROLLBACK runs or its wait ends with an
  exception.
\<close>

fun tx_run :: "nat \<Rightarrow> 'd tx_body \<Rightarrow> 'd eaction list \<Rightarrow> bool \<Rightarrow> 'd eaction list \<Rightarrow> bool \<Rightarrow> 'd engine \<Rightarrow> 'd engine" where
  "tx_run t bs xs ok ys fine e =
     eng_act (answered t fine) (eng_run ys (eng_act (CallExit t ok) (eng_run xs (body_run t bs (eng_act (Finish t) e)))))"

fun tx_others :: "nat \<Rightarrow> 'd tx_body \<Rightarrow> 'd eaction list \<Rightarrow> bool \<Rightarrow> 'd eaction list \<Rightarrow> 'd engine \<Rightarrow> bool" where
  "tx_others t bs xs ok ys e =
     (body_others t bs (eng_act (Finish t) e) \<and> only_others t xs (body_run t bs (eng_act (Finish t) e)) \<and>
      only_others t ys (eng_act (CallExit t ok) (eng_run xs (body_run t bs (eng_act (Finish t) e)))))"

lemma transaction_starts:
  assumes "eng_inv d0 e" "dict_get (en_at e) t = Some (0, Begins)"
  shows "body_done d0 t [] e (eng_act (Finish t) e)"
proof -
  note parts = eng_invD [OF assms(1)]
  have "eng_act (Finish t) e = at_call t 1 Body (e\<lparr>en_open := Some (en_committed e)\<rparr>)"
    using inv_begins(1) [OF assms] assms(2) by (simp add: eng_finish_def)
  then show ?thesis
    using inv_begins(3) [OF assms] by (simp add: body_done_def in_tx_body_def at_call_def dict_simps)
qed

lemma transaction_ends:
  fixes fine :: bool
  assumes "body_done d0 t fs e0 e" "en_pend e0 = []" "only_others t ys (eng_act (CallExit t ok) e)"
  defines "e' \<equiv> eng_act (answered t fine) (eng_run ys (eng_act (CallExit t ok) e))"
  shows "en_done e' = (if fine \<and> ok then en_done e0 @ [map (Pair t) fs] else en_done e0) \<and>
         en_committed e' = (if fine \<and> ok then fold id fs (en_committed e0) else en_committed e0) \<and>
         en_open e' = (if fine then None else Some (fold id fs (en_committed e0))) \<and>
         en_seen e' = en_seen e0 \<and> en_owner e' = None \<and> dict_get (en_at e') t = None"
proof -
  have *: "eng_inv d0 e" "dict_get (en_at e) t = Some (1, Body)" "en_open e \<noteq> None" "en_pend e = map (Pair t) fs"
    "en_done e = en_done e0" "en_committed e = en_committed e0" "en_seen e = en_seen e0"
    using assms(1,2) by (simp_all add: body_done_def in_tx_body_def)
  let ?e1 = "eng_act (CallExit t ok) e"
  have e1: "?e1 = at_call t 1 (Ends ok) e" using * by (simp add: call_depth_def eng_exit_def)
  have inv1: "eng_inv d0 ?e1" by (rule inv_eng_act [OF *(1)]) (simp add: ends_cleanly_def)
  have "dict_get (en_at ?e1) t = Some (1, Ends ok)" unfolding e1 by (simp add: at_call_def dict_simps)
  note run = others_run [OF inv1 this _ assms(3)]
  let ?e2 = "eng_run ys ?e1"
  have at2: "dict_get (en_at ?e2) t = Some (1, Ends ok)" and
    same: "en_open ?e2 = en_open e" "en_pend ?e2 = en_pend e" "en_done ?e2 = en_done e"
      "en_committed ?e2 = en_committed e" "en_seen ?e2 = en_seen e"
    using run unfolding e1 by (simp_all add: unchanged_for_def at_call_def dict_simps)
  have e': "e' = leave_call t 0 (drop_owned (if fine then run_job t (if ok then CommitOpen else RollbackOpen) ?e2 else ?e2))"
    using at2 by (simp add: e'_def answered_def eng_finish_def eng_raise_def)
  have "run_all (map (Pair t) fs) d = fold id fs d" for d
    by (induction fs arbitrary: d) (simp_all add: run_all_def)
  then have d: "en_open e = Some (fold id fs (en_committed e0))"
    using eng_invD(3) [OF *(1)] *(3,4,6) by (auto simp: data_part_def)
  then show ?thesis
    using same * by (cases fine; cases ok) (simp_all add: e' leave_call_eq drop_owned_eq commit_open_def dict_simps)
qed

text \<open>
  C22. Transactions are atomic and isolated, in every state reached with each COMMIT and ROLLBACK
  run to its end so far and with each abandoned single statement or BEGIN withdrawn without effect
  (\<open>reachable_engine\<close>).  From then on other tasks may call anything, be woken, answered or cancelled
  between and during the statements of the body, and each statement of the body may succeed, fail,
  be withdrawn by a cancellation, or be cancelled while the worker runs it, which counts as run.
  When the body ends normally and the COMMIT runs, exactly the statements that ran are appended,
  as one unit and in their order, to what was committed at BEGIN; when the body ends by an exception and
  the ROLLBACK runs, everything is as it was.  When the COMMIT or ROLLBACK itself raises, or is cancelled
  before it starts, nothing is committed, but the lock is free and the transaction is left
  open with those statements in it.  In each case no other task reads or writes between BEGIN and
  that end.
\<close>

theorem transactions_atomic:
  fixes fine :: bool
  assumes "reachable_engine pooled d0 e" "dict_get (en_at e) t = Some (0, Begins)" "tx_others t bs xs ok ys e"
  defines "e' \<equiv> tx_run t bs xs ok ys fine e" and "fs \<equiv> ran_in bs"
  shows "en_done e' = (if fine \<and> ok then en_done e @ [map (Pair t) fs] else en_done e) \<and>
         en_committed e' = (if fine \<and> ok then fold id fs (en_committed e) else en_committed e) \<and>
         en_open e' = (if fine then None else Some (fold id fs (en_committed e))) \<and>
         en_seen e' = en_seen e \<and> en_owner e' = None \<and> dict_get (en_at e') t = None"
proof -
  have inv: "eng_inv d0 e" using assms(1) by (rule eng.reachable_inv)
  have o: "body_others t bs (eng_act (Finish t) e)" "only_others t xs (body_run t bs (eng_act (Finish t) e))"
    "only_others t ys (eng_act (CallExit t ok) (eng_run xs (body_run t bs (eng_act (Finish t) e))))"
    using assms(3) by simp_all
  have "body_done d0 t fs e (eng_run xs (body_run t bs (eng_act (Finish t) e)))"
    using body_done_others [OF body_runs [OF transaction_starts [OF inv assms(2)] o(1)] o(2)] by (simp add: fs_def)
  from transaction_ends [OF this _ o(3), of fine] pend_Nil [OF eng_invD(3) [OF inv]] inv_begins(1) [OF inv assms(2)]
  show ?thesis by (simp add: e'_def)
qed


fun not_cancelled :: "nat \<Rightarrow> 'd eaction list \<Rightarrow> 'd engine \<Rightarrow> bool" where
  "not_cancelled t [] e = True"
| "not_cancelled t (x # xs) e =
     ((case x of CancelAt i \<Rightarrow> \<not> of_task t x e | _ \<Rightarrow> True) \<and> not_cancelled t xs (eng_act x e))"

lemma stuck_step:
  assumes "eng_inv d0 e" "dict_get (en_at e) t = Some (1, c)" "wants c"
    and "case x of CancelAt i \<Rightarrow> \<not> of_task t x e | _ \<Rightarrow> True"
  shows "eng_inv d0 (eng_act x e) \<and> unchanged_for t e (eng_act x e)"
proof (cases "of_task t x e")
  case True
  then have "eng_act x e = e" using assms(2-4)
    by (cases x; cases c) (simp_all add: call_depth_def eng_finish_def eng_raise_def)
  with assms(1) show ?thesis by simp
next
  case False
  have h: "holding_at (1, c)" using assms(3) by (cases c) simp_all
  from inv_eng_act [OF assms(1) others_end_cleanly [OF assms(1,2) h False]] others_change_nothing [OF assms(1,2) h False]
  show ?thesis by blast
qed

lemma stuck_run:
  "eng_inv d0 e \<Longrightarrow> dict_get (en_at e) t = Some (1, c) \<Longrightarrow> wants c \<Longrightarrow> not_cancelled t xs e \<Longrightarrow>
   unchanged_for t e (eng_run xs e)"
proof (induction xs arbitrary: e)
  case (Cons x xs)
  then have step: "eng_inv d0 (eng_act x e) \<and> unchanged_for t e (eng_act x e)" by (intro stuck_step) simp_all
  then have "unchanged_for t (eng_act x e) (eng_run xs (eng_act x e))"
    using Cons.prems by (intro Cons.IH) (simp_all add: unchanged_for_def)
  with step show ?case by (auto intro: unchanged_trans)
qed simp

text \<open>
  C24. A task that reads, or opens a second transaction, inside its own transaction stops the
  database: only writes skip the lock for the owner, so the call waits for the lock that its task
  holds. Until somebody cancels it the call does not return, whatever all tasks do and however
  long, and nobody else reads, writes or begins a transaction any more.
\<close>

theorem read_in_transaction_blocks:
  assumes "reachable_engine pooled d0 e" "dict_get (en_at e) t = Some (1, Body)"
    and "x = CallRead t \<or> x = CallEnter t" "not_cancelled t xs (eng_act x e)"
  defines "e' \<equiv> eng_run xs (eng_act x e)"
  shows "call_depth t e' = None \<and> en_owner e' = Some t \<and> en_committed e' = en_committed e \<and>
         en_done e' = en_done e \<and> en_seen e' = en_seen e"
proof -
  have inv: "eng_inv d0 e" using assms(1) by (rule eng.reachable_inv)
  note parts = eng_invD [OF inv]
  have own: "en_owner e = Some t" by (rule owner_partD(1) [OF parts(2) assms(2)]) simp
  have blocked: "k_blocked k (en_lock e)" for k by (rule holder_alone(3) [OF parts(1) assms(2)]) simp
  obtain c where c: "wants c" "eng_act x e = take_lock t 1 c e"
    using assms(2,3) by (auto simp: call_depth_def eng_read_def eng_enter_def intro: that [of WantRead] that [of WantTx])
  let ?e1 = "eng_act x e"
  have e1: "?e1 = at_call t 1 c (e\<lparr>en_lock := k_acquire (lock_kind c) (en_lock e), en_waiters := en_waiters e @ [t]\<rparr>)"
    using c(2) blocked by (simp add: take_lock_def queue_or_go_def lock_blocked_eq k_acquire_def)
  have at1: "dict_get (en_at ?e1) t = Some (1, c)" unfolding e1 by (simp add: at_call_def dict_simps)
  have "eng_inv d0 ?e1" by (rule inv_eng_act [OF inv]) (use assms(3) in \<open>auto simp: ends_cleanly_def\<close>)
  from stuck_run [OF this at1 c(1) assms(4)]
  have "unchanged_for t ?e1 e'" by (simp only: e'_def)
  then have "dict_get (en_at e') t = Some (1, c)" "en_owner e' = Some t" "en_committed e' = en_committed e"
    "en_done e' = en_done e" "en_seen e' = en_seen e"
    using at1 own unfolding e1 by (simp_all add: unchanged_for_def at_call_def)
  then show ?thesis using c(1) by (cases c) (simp_all add: call_depth_def)
qed

section \<open>Witnesses\<close>

fun clean_run :: "'d eaction list \<Rightarrow> 'd engine \<Rightarrow> bool" where
  "clean_run [] e = True"
| "clean_run (x # xs) e = (ends_cleanly x e \<and> clean_run xs (eng_act x e))"

lemma clean_run_reachable:
  "reachable_engine pooled d0 e \<Longrightarrow> clean_run xs e \<Longrightarrow> reachable_engine pooled d0 (eng_run xs e)"
proof (induction xs arbitrary: e)
  case (Cons x xs)
  have "reachable_engine pooled d0 (eng_act x e)"
    by (rule reach_step [OF Cons.prems(1)]) (use Cons.prems(2) in \<open>auto simp: eng_step_def\<close>)
  with Cons show ?case by simp
qed simp

text \<open>Task 1 begins a transaction while task 2 writes; then task 3 waits to read.\<close>

definition eng_demo :: "int engine" where
  "eng_demo =
     eng_run [CallWrite 2 (Statement (\<lambda>d. d + 1)), CallEnter 1, Finish 2, WakeAt 0, CallRead 3] (engine_init True 0)"

lemma eng_demo_reachable: "reachable_engine True 0 eng_demo"
  unfolding eng_demo_def
  by (rule clean_run_reachable [OF reach_init]) (simp, code_simp)

text \<open>Where a task is, as a test that computes.\<close>

definition at_now :: "('d ecall \<Rightarrow> bool) \<Rightarrow> nat \<Rightarrow> nat \<Rightarrow> 'd engine \<Rightarrow> bool" where
  "at_now P n t e = (case dict_get (en_at e) t of None \<Rightarrow> False | Some (m, c) \<Rightarrow> m = n \<and> P c)"

fun is_begins :: "'d ecall \<Rightarrow> bool" where
  "is_begins Begins = True"
| "is_begins _ = False"

fun is_body :: "'d ecall \<Rightarrow> bool" where
  "is_body Body = True"
| "is_body _ = False"

lemma now_at:
  "at_now is_begins n t e \<Longrightarrow> dict_get (en_at e) t = Some (n, Begins)"
  "at_now is_body n t e \<Longrightarrow> dict_get (en_at e) t = Some (n, Body)"
proof -
  have *: "is_begins c \<Longrightarrow> c = Begins" "is_body c \<Longrightarrow> c = Body" for c :: "'d ecall" by (cases c; simp)+
  show "at_now is_begins n t e \<Longrightarrow> dict_get (en_at e) t = Some (n, Begins)"
    "at_now is_body n t e \<Longrightarrow> dict_get (en_at e) t = Some (n, Body)"
    by (cases "dict_get (en_at e) t"; auto simp: at_now_def *)+
qed

theorem transactions_atomic_witness:
  "en_committed (tx_run 1 [([CallRead 4], \<lambda>d. d * 5, [CancelAt 0], True), ([], \<lambda>d. 0, [], False),
     ([], \<lambda>d. d + 2, [CallWrite 6 (Statement (\<lambda>d. 9))], True)] [WakeAt 0] True [] True eng_demo) = 7 \<and>
   en_committed (tx_run 1 [([], \<lambda>d. 0, [], False)] [WakeAt 0] False [] False eng_demo) = 1"
proof -
  have at: "at_now is_begins 0 1 eng_demo" and one: "en_committed eng_demo = 1" by code_simp+
  note main = transactions_atomic [OF eng_demo_reachable now_at(1) [OF at]]
  have "tx_others 1 [([CallRead 4], \<lambda>d. d * 5, [CancelAt 0], True), ([], \<lambda>d. 0, [], False),
     ([], \<lambda>d. d + 2, [CallWrite 6 (Statement (\<lambda>d. 9))], True)] [WakeAt 0] True [] eng_demo"
    by code_simp
  moreover have "tx_others 1 [([], \<lambda>d. 0, [], False)] [WakeAt 0] False [] eng_demo" by code_simp
  ultimately show ?thesis
    using main [of _ _ True _ True] main [of _ _ False _ False] by (simp add: one del: tx_run.simps tx_others.simps)
qed

text \<open>The transaction commits, the waiting read gets its turn and is answered.\<close>

definition eng_demo_read :: "int engine" where
  "eng_demo_read =
     eng_run [Finish 1, CallWrite 1 (Statement (\<lambda>d. d * 5)), Finish 1, CallExit 1 True, Finish 1, WakeAt 0, Finish 3] eng_demo"

theorem reads_see_committed_writes_witness:
  "en_seen eng_demo_read = [(3, 2, 5)] \<and> replayed (take 2 (en_done eng_demo_read)) 0 = (5::int)"
proof -
  have "clean_run [Finish 1, CallWrite 1 (Statement (\<lambda>d. d * 5)), Finish 1, CallExit 1 True, Finish 1, WakeAt 0, Finish 3] eng_demo"
    by code_simp
  note r = clean_run_reachable [OF eng_demo_reachable this, folded eng_demo_read_def]
  have seen: "en_seen eng_demo_read = [(3, 2, 5)]" by code_simp
  from reads_see_committed_writes [OF r] show ?thesis by (simp add: seen)
qed

theorem read_in_transaction_blocks_witness:
  "call_depth 1 (eng_run [CallWrite 5 (Statement (\<lambda>d. 0)), WakeAt 0, Finish 1, WakeAt 1, CancelAt 0]
     (eng_act (CallRead 1) (eng_run [Finish 1] eng_demo))) = None"
proof -
  have "clean_run [Finish 1] eng_demo" by code_simp
  note r = clean_run_reachable [OF eng_demo_reachable this]
  have at: "at_now is_body 1 1 (eng_run [Finish 1] eng_demo)" by code_simp
  have "not_cancelled 1 [CallWrite 5 (Statement (\<lambda>d. 0)), WakeAt 0, Finish 1, WakeAt 1, CancelAt 0]
     (eng_act (CallRead 1) (eng_run [Finish 1] eng_demo))"
    by code_simp
  from read_in_transaction_blocks [OF r now_at(2) [OF at] disjI1 [OF refl] this]
  show ?thesis by blast
qed

end
