(* ===== verification/Engine_SQLite.thy ===== *)
theory Engine_SQLite
  imports Engine SQLite
begin

text \<open>
  The two models of \<open>AsyncSQLite\<close> put together: \<open>SQLite\<close>, which the durability is built on, runs
  one operation after the other; \<open>Engine\<close> interleaves the tasks.  What the tasks do together is
  what the sequential model does with the same transactions, one at a time, in the order in
  which they were committed.
\<close>

section \<open>The sequential run\<close>

text \<open>The body of a transaction, statement by statement; it stops at the first that raises.\<close>

fun execute_all :: "(nat \<times> (sql_db \<Rightarrow> sql_db)) list \<Rightarrow> unit sql_op" where
  "execute_all [] c = (Inr (), c)"
| "execute_all ((t, f) # fs) c =
     (case execute f c of
        (Inl e, c') \<Rightarrow> (Inl e, c')
      | (Inr _, c') \<Rightarrow> execute_all fs c')"

fun one_by_one :: "(nat \<times> (sql_db \<Rightarrow> sql_db)) list list \<Rightarrow> unit sql_op" where
  "one_by_one [] c = (Inr (), c)"
| "one_by_one (g # gs) c =
     (case transaction (execute_all g) c of
        (Inl e, c') \<Rightarrow> (Inl e, c')
      | (Inr _, c') \<Rightarrow> one_by_one gs c')"

text \<open>An open connection where no statement fails.\<close>

definition faultless :: "sqlite \<Rightarrow> bool" where
  "faultless c \<longleftrightarrow> \<not> sq_closed c \<and> (\<forall>n. sq_faults c n = None) \<and> (\<forall>n. sq_end_faults c n = None)"

lemma faultless_tick [simp]: "faultless (tick c) = faultless c"
  by (simp add: faultless_def tick_def)

lemma faultless_fields [simp]:
  "faultless (c\<lparr>sq_open := d\<rparr>) = faultless c" "faultless (c\<lparr>sq_committed := x\<rparr>) = faultless c"
  by (simp_all add: faultless_def)

lemma tick_fields [simp]: "sq_open (tick c) = sq_open c" "sq_committed (tick c) = sq_committed c"
  by (simp_all add: tick_def)

lemma execute_all_open:
  "faultless c \<Longrightarrow> sq_open c = Some d \<Longrightarrow>
   \<exists>c'. execute_all fs c = (Inr (), c') \<and> faultless c' \<and> sq_open c' = Some (run_all fs d) \<and>
        sq_committed c' = sq_committed c"
proof (induction fs arbitrary: c d)
  case (Cons x fs)
  obtain t f where x: "x = (t, f)" by (cases x)
  let ?c = "tick (c\<lparr>sq_open := Some (f d)\<rparr>)"
  have "execute f c = (Inr (), ?c)" using Cons.prems by (simp add: execute_def faultless_def)
  with Cons.IH [of ?c "f d"] Cons.prems x show ?case by (simp add: run_all_def)
qed (simp add: run_all_def)

lemma transaction_runs:
  assumes "faultless c" "sq_open c = None"
  shows "\<exists>c'. transaction (execute_all g) c = (Inr (), c') \<and> faultless c' \<and> sq_open c' = None \<and>
              sq_committed c' = run_all g (sq_committed c)"
proof -
  let ?c = "tick (c\<lparr>sq_open := Some (sq_committed c)\<rparr>)"
  have "begin_tx c = (Inr (), ?c)" using assms by (simp add: begin_tx_def faultless_def)
  moreover obtain c2 where "execute_all g ?c = (Inr (), c2)" "faultless c2"
    "sq_open c2 = Some (run_all g (sq_committed c))" "sq_committed c2 = sq_committed c"
    using execute_all_open [of ?c "sq_committed c" g] assms by auto
  ultimately show ?thesis by (auto simp: transaction_def commit_tx_def faultless_def tick_def)
qed

lemma one_by_one_runs:
  "faultless c \<Longrightarrow> sq_open c = None \<Longrightarrow>
   \<exists>c'. one_by_one gs c = (Inr (), c') \<and> faultless c' \<and> sq_open c' = None \<and> sq_committed c' = replayed gs (sq_committed c)"
proof (induction gs arbitrary: c)
  case (Cons g gs)
  obtain c1 where c1: "transaction (execute_all g) c = (Inr (), c1)" "faultless c1" "sq_open c1 = None"
    "sq_committed c1 = run_all g (sq_committed c)"
    using transaction_runs [OF Cons.prems] by blast
  with Cons.IH [of c1] show ?case by (simp add: replayed_def)
qed (simp add: replayed_def)

lemma fetch_sees: "faultless c \<Longrightarrow> sq_open c = None \<Longrightarrow> fst (fetch f c) = Inr (f (sq_committed c))"
  by (simp add: fetch_def faultless_def)

section \<open>Properties\<close>

text \<open>
  C23. The engine is linearizable, as long as every COMMIT and ROLLBACK runs to its end and a statement
  whose wait ends with an exception had no effect (it failed, or its task was cancelled before the
  worker started it): \<open>reachable_engine\<close> has exactly these runs, with any number of tasks and with
  waits for the lock cancelled at any time.  In every state so reached, running the transactions and
  statements that were committed one after the other on a single connection gives the same database; and
  each read that was answered saw what a query gives on that connection after the first of them,
  namely all that had been committed when the read got the lock. So every task may reason about the
  sequential model.
\<close>

theorem engine_linearizable:
  assumes "reachable_engine pooled d0 e" "faultless c" "sq_open c = None" "sq_committed c = d0"
  shows "\<exists>c'. one_by_one (en_done e) c = (Inr (), c') \<and> sq_committed c' = en_committed e \<and> sq_open c' = None \<and>
           (\<forall>(t, k, d)\<in>set (en_seen e). \<exists>c1. one_by_one (take k (en_done e)) c = (Inr (), c1) \<and>
              (\<forall>f. fst (fetch f c1) = Inr (f d)))"
proof -
  note seen = reads_see_committed_writes [OF assms(1)]
  have "\<exists>c1. one_by_one (take k (en_done e)) c = (Inr (), c1) \<and> (\<forall>f. fst (fetch f c1) = Inr (f d))"
    if "(t, k, d) \<in> set (en_seen e)" for t k d
  proof -
    obtain c1 where "one_by_one (take k (en_done e)) c = (Inr (), c1)" "faultless c1" "sq_open c1 = None"
      "sq_committed c1 = replayed (take k (en_done e)) d0"
      using one_by_one_runs [OF assms(2,3), of "take k (en_done e)"] assms(4) by auto
    moreover have "d = replayed (take k (en_done e)) d0" using seen that by (auto simp: list_all_iff)
    ultimately show ?thesis by (metis fetch_sees)
  qed
  moreover obtain c' where "one_by_one (en_done e) c = (Inr (), c')" "sq_open c' = None"
    "sq_committed c' = replayed (en_done e) (sq_committed c)"
    using one_by_one_runs [OF assms(2,3), of "en_done e"] by blast
  ultimately show ?thesis using seen assms(4) by auto
qed

text \<open>A batch in a transaction and an ack of another task at the same time; then a read.\<close>

definition sql_actions :: "sql_db eaction list" where
  "sql_actions =
     [CallEnter 1, CallWrite 2 (Statement (upsert_ack ''s'' ''m'')), Finish 1,
      CallWrite 1 (Statement (insert_message (''m'', ''a'', [], [], 5))), Finish 1, CallExit 1 True, Finish 1,
      WakeAt 0, CallRead 3, Finish 2, WakeAt 0, Finish 3]"

definition sql_demo :: "sql_db engine" where
  "sql_demo = eng_run sql_actions (engine_init True empty_db)"

theorem engine_linearizable_witness:
  "\<exists>c'. one_by_one (en_done sql_demo) (sqlite_start tiny_pack tiny_unpack 4) = (Inr (), c') \<and>
     sq_committed c' = en_committed sql_demo \<and> length (en_done sql_demo) = 2 \<and> length (en_seen sql_demo) = 1"
proof -
  have "clean_run sql_actions (engine_init True empty_db)" by code_simp
  then have r: "reachable_engine True empty_db sql_demo"
    unfolding sql_demo_def by (intro clean_run_reachable reach_init refl)
  have "length (en_done sql_demo) = 2" "length (en_seen sql_demo) = 1" by code_simp+
  moreover have "faultless (sqlite_start tiny_pack tiny_unpack 4)" "sq_open (sqlite_start tiny_pack tiny_unpack 4) = None"
    "sq_committed (sqlite_start tiny_pack tiny_unpack 4) = empty_db"
    by (simp_all add: faultless_def sqlite_start_def)
  ultimately show ?thesis using engine_linearizable [OF r] by blast
qed

end
