(* ===== verification/Subscribers.thy ===== *)
theory Subscribers
  imports Broker_Effects Client
begin

text \<open>
  The contract \<open>Subscriber\<close> (\<open>pubsub/client/subscriber.py\<close>) as a locale: the stream of deliveries
  with its acknowledgement controls.  It is met by the stream of the broker
  (\<open>_SubscriptionStream\<close>) and by the handle of a client (\<open>_Subscription\<close>), so a consumer that
  is written against it behaves alike on both.
\<close>

section \<open>The contract\<close>

text \<open>
  \<open>pull\<close> is \<open>__anext__\<close> when nothing else runs meanwhile; \<open>items\<close> are the deliveries that are
  ready, \<open>own\<close> the ones a consumer of the stream can hold.
\<close>

locale subscriber =
  fixes pull :: "'s \<Rightarrow> next_result \<times> 's"
    and acknowledge :: "delivery \<Rightarrow> 's \<Rightarrow> unit result \<times> 's"
    and refuse :: "delivery \<Rightarrow> 's \<Rightarrow> unit result \<times> 's"
    and leave :: "'s \<Rightarrow> unit result \<times> 's"
    and ok :: "'s \<Rightarrow> bool"
    and own :: "delivery \<Rightarrow> 's \<Rightarrow> bool"
    and items :: "'s \<Rightarrow> delivery list"
    and ended :: "'s \<Rightarrow> bool"
  assumes pull_ready:
      "ok s \<Longrightarrow> items s = d # ds \<Longrightarrow> pull s = (r, s') \<Longrightarrow>
       r = Next d \<and> ok s' \<and> own d s' \<and> items s' = ds \<and> ended s' = ended s"
    and pull_empty:
      "ok s \<Longrightarrow> items s = [] \<Longrightarrow> pull s = (r, s') \<Longrightarrow>
       r = (if ended s then Ended else Waiting) \<and> ok s' \<and> items s' = [] \<and> ended s' = ended s"
    and acknowledge_keeps:
      "ok s \<Longrightarrow> own d s \<Longrightarrow> acknowledge d s = (x, s') \<Longrightarrow> ok s' \<and> items s' = items s \<and> ended s' = ended s"
    and refuse_keeps:
      "ok s \<Longrightarrow> own d s \<Longrightarrow> refuse d s = (x, s') \<Longrightarrow> ok s' \<and> items s' = items s"
    and leave_ends:
      "ok s \<Longrightarrow> leave s = (Inr u, s') \<Longrightarrow> ok s' \<and> items s' = items s \<and> ended s'"

text \<open>
  \<open>async for d in subscriber: await subscriber.ack(d)\<close>, for at most \<open>n\<close> rounds: the deliveries it
  got, each with how its ack went, and what ended it.
\<close>

fun consume ::
    "('s \<Rightarrow> next_result \<times> 's) \<Rightarrow> (delivery \<Rightarrow> 's \<Rightarrow> unit result \<times> 's) \<Rightarrow> nat \<Rightarrow> 's \<Rightarrow>
     (delivery \<times> unit result) list \<times> next_result \<times> 's" where
  "consume pull acknowledge 0 s = ([], Waiting, s)"
| "consume pull acknowledge (Suc n) s =
     (case pull s of
        (Next d, s1) \<Rightarrow>
          (let (r, s2) = acknowledge d s1; (ds, e, s3) = consume pull acknowledge n s2 in ((d, r) # ds, e, s3))
      | (e, s1) \<Rightarrow> ([], e, s1))"

context subscriber
begin

lemma consume_all:
  "ok s \<Longrightarrow> length (items s) < n \<Longrightarrow> consume pull acknowledge n s = (ds, e, s') \<Longrightarrow>
   map fst ds = items s \<and> e = (if ended s then Ended else Waiting) \<and> ok s' \<and> items s' = []"
proof (induction n arbitrary: s ds)
  case (Suc n)
  obtain r1 s1 where p: "pull s = (r1, s1)" by fastforce
  show ?case
  proof (cases "items s")
    case Nil
    with pull_empty [OF Suc.prems(1) Nil p] Suc.prems(3) p show ?thesis by (auto split: if_splits)
  next
    case (Cons d rest)
    from pull_ready [OF Suc.prems(1) Cons p]
    have one: "r1 = Next d" "ok s1" "own d s1" "items s1 = rest" "ended s1 = ended s" by simp_all
    obtain r s2 where a: "acknowledge d s1 = (r, s2)" by fastforce
    from acknowledge_keeps [OF one(2,3) a] one have two: "ok s2" "items s2 = rest" "ended s2 = ended s" by simp_all
    obtain ds2 where "consume pull acknowledge n s2 = (ds2, e, s')" "ds = (d, r) # ds2"
      using Suc.prems(3) p one(1) a by (auto split: prod.splits)
    with Suc.IH [OF two(1) _ this(1)] Suc.prems(2) Cons two show ?thesis by simp
  qed
qed simp

lemma consume_after_leave:
  assumes "ok s" "leave s = (Inr u, s1)" "length (items s) < n" "consume pull acknowledge n s1 = (ds, e, s')"
  shows "map fst ds = items s \<and> e = Ended"
  using leave_ends [OF assms(1,2)] consume_all [of s1 n ds e s'] assms(3,4) by simp

end

section \<open>The stream of the broker\<close>

definition stream_ok :: "nat \<Rightarrow> 'd broker \<Rightarrow> bool" where
  "stream_ok a b \<longleftrightarrow> core_inv b \<and> a < length (bk_regs b)"

lemma stream_okD:
  assumes "stream_ok a b"
  shows "core_inv b" "a < length (bk_regs b)" "st_queue (bk_stream_heap b ! a) = a"
    "a < length (bk_queues b)" "a < length (bk_stream_heap b)"
  using assms core_heapD [of b a] by (auto simp: stream_ok_def)

lemma stream_ok_evolves: "stream_ok a b \<Longrightarrow> core_inv b' \<Longrightarrow> evolves b b' \<Longrightarrow> stream_ok a b'"
  using evolves_length [of b b'] by (simp add: stream_ok_def)

lemma ack_stream [simp]:
  "bk_queues (snd (ack d b)) = bk_queues b" "bk_stream_heap (snd (ack d b)) = bk_stream_heap b"
  by (simp_all add: ack_def Let_def frame_simps split: prod.split)

lemma nack_queues [simp]: "bk_queues (snd (nack d b)) = bk_queues b"
  by (simp add: nack_def Let_def frame_simps schedule_frame split: option.split)

lemma unsubscribe_stream [simp]:
  "bk_queues (unsubscribe s b) = bk_queues b" "bk_stream_heap (unsubscribe s b) = bk_stream_heap b"
  by (simp_all add: unsubscribe_def Let_def frame_simps)

interpretation bstream: subscriber "stream_next a" stream_ack stream_nack "\<lambda>b. (Inr (), stream_unsubscribe a b)"
  "stream_ok a" "\<lambda>d b. good_delivery (statics b) a d" "\<lambda>b. q_items (bk_queues b ! a)"
  "\<lambda>b. st_closed (bk_stream_heap b ! a)" for a
proof unfold_locales
  fix b d ds r b'
  assume ok: "stream_ok a b" and ds: "q_items (bk_queues b ! a) = d # ds" and p: "stream_next a b = (r, b')"
  note facts = stream_okD [OF ok]
  from p ds facts have b': "r = Next d" "b' = set_queue a ((bk_queues b ! a)\<lparr>q_items := ds\<rparr>) b"
    by (auto simp: stream_next_def get_ready_def Let_def)
  from stream_next_safe [OF facts(1,2) p] b'(1)
  have safe: "core_inv b'" "evolves b b'" "good_delivery (statics b) a d" by simp_all
  show "r = Next d \<and> stream_ok a b' \<and> good_delivery (statics b') a d \<and> q_items (bk_queues b' ! a) = ds \<and>
      st_closed (bk_stream_heap b' ! a) = st_closed (bk_stream_heap b ! a)"
    using b' facts stream_ok_evolves [OF ok safe(1,2)] evolves_good [OF safe(2,3)] by (simp add: set_queue_def)
next
  fix b r b'
  assume ok: "stream_ok a b" and "q_items (bk_queues b ! a) = []" "stream_next a b = (r, b')"
  with stream_okD [OF ok] have "b' = b" "r = (if st_closed (bk_stream_heap b ! a) then Ended else Waiting)"
    by (auto simp: stream_next_def get_ready_def Let_def split: if_splits)
  with ok \<open>q_items (bk_queues b ! a) = []\<close>
  show "r = (if st_closed (bk_stream_heap b ! a) then Ended else Waiting) \<and> stream_ok a b' \<and>
      q_items (bk_queues b' ! a) = [] \<and> st_closed (bk_stream_heap b' ! a) = st_closed (bk_stream_heap b ! a)" by simp
next
  fix b d r b'
  assume ok: "stream_ok a b" and b': "stream_ack d b = (r, b')"
  then have "b' = snd (ack d b)" by simp
  with ack_safe [of b d] stream_okD(1) [OF ok] stream_ok_evolves [OF ok]
  show "stream_ok a b' \<and> q_items (bk_queues b' ! a) = q_items (bk_queues b ! a) \<and>
      st_closed (bk_stream_heap b' ! a) = st_closed (bk_stream_heap b ! a)" by simp
next
  fix b d r b'
  assume ok: "stream_ok a b" and d: "good_delivery (statics b) a d" and b': "stream_nack d b = (r, b')"
  then have "b' = snd (nack d b)" by simp
  with nack_safe [OF _ d] stream_okD(1) [OF ok] stream_ok_evolves [OF ok]
  show "stream_ok a b' \<and> q_items (bk_queues b' ! a) = q_items (bk_queues b ! a)" by simp
next
  fix b u b'
  assume ok: "stream_ok a b" and "(Inr (), stream_unsubscribe a b) = (Inr u, b')"
  then have b': "b' = stream_unsubscribe a b" by simp
  note facts = stream_okD [OF ok]
  have "stream_ok a b'" using stream_unsubscribe_safe [OF facts(1,2)] stream_ok_evolves [OF ok] b' by simp
  then show "stream_ok a b' \<and> q_items (bk_queues b' ! a) = q_items (bk_queues b ! a) \<and> st_closed (bk_stream_heap b' ! a)"
    using facts b' by (simp add: stream_unsubscribe_def mark_closed_def)
qed

section \<open>The handle of a client\<close>

text \<open>\<open>__anext__\<close> of \<open>Anext\<close> in one go; where it would wait, the call is given up.\<close>

definition handle_next :: "nat \<Rightarrow> client \<Rightarrow> next_result \<times> client" where
  "handle_next a c =
     (case anext_begin (cl_handles c ! a) of
        (Some y, h) \<Rightarrow> (Ended, c)
      | (None, h) \<Rightarrow>
          (case anext_wakes (get_runs h) of
             (Some (Yield d), h') \<Rightarrow> (Next d, upd_handle a (\<lambda>_. h') c)
           | (Some y, h') \<Rightarrow> (Ended, upd_handle a (\<lambda>_. h') c)
           | (None, h') \<Rightarrow> (Waiting, c)))"

definition handle_ok :: "nat \<Rightarrow> client \<Rightarrow> bool" where
  "handle_ok a c \<longleftrightarrow> a < length (cl_handles c) \<and> se_get (cl_handles c ! a) = NoTask"

lemma raw_send_handles [simp]: "cl_handles (snd (raw_send lost f c)) = cl_handles c"
  by (simp add: raw_send_def Let_def split: option.split sum.split)

lemma note_ack_stream [simp]:
  "se_queue (note_ack ts h) = se_queue h" "se_closed (note_ack ts h) = se_closed h" "se_get (note_ack ts h) = se_get h"
  by (simp_all add: note_ack_def)

interpretation handle: subscriber "handle_next a" "client_ack lost a" "client_nack lost a" "client_unsubscribe lost a"
  "handle_ok a" "\<lambda>d c. True" "\<lambda>c. se_queue (cl_handles c ! a)" "\<lambda>c. se_closed (cl_handles c ! a)" for a lost
proof unfold_locales
  fix c d ds r c'
  assume "handle_ok a c" "se_queue (cl_handles c ! a) = d # ds" "handle_next a c = (r, c')"
  then show "r = Next d \<and> handle_ok a c' \<and> True \<and> se_queue (cl_handles c' ! a) = ds \<and>
      se_closed (cl_handles c' ! a) = se_closed (cl_handles c ! a)"
    by (auto simp: handle_next_def handle_ok_def anext_begin_def get_runs_def anext_wakes_def upd_handle_def)
next
  fix c r c'
  assume "handle_ok a c" "se_queue (cl_handles c ! a) = []" "handle_next a c = (r, c')"
  then show "r = (if se_closed (cl_handles c ! a) then Ended else Waiting) \<and> handle_ok a c' \<and>
      se_queue (cl_handles c' ! a) = [] \<and> se_closed (cl_handles c' ! a) = se_closed (cl_handles c ! a)"
    by (auto simp: handle_next_def handle_ok_def anext_begin_def get_runs_def anext_wakes_def split: if_splits)
next
  fix c d r c'
  assume "handle_ok a c" "client_ack lost a d c = (r, c')"
  moreover from this(2) have "c' = snd (client_ack lost a d c)" by simp
  ultimately show "handle_ok a c' \<and> se_queue (cl_handles c' ! a) = se_queue (cl_handles c ! a) \<and>
      se_closed (cl_handles c' ! a) = se_closed (cl_handles c ! a)"
    by (simp add: client_ack_def handle_ok_def upd_handle_def)
next
  fix c d r c'
  assume "handle_ok a c" "client_nack lost a d c = (r, c')"
  moreover from this(2) have "c' = snd (client_nack lost a d c)" by simp
  ultimately show "handle_ok a c' \<and> se_queue (cl_handles c' ! a) = se_queue (cl_handles c ! a)"
    by (simp add: client_nack_def handle_ok_def)
next
  fix c u c'
  assume ok: "handle_ok a c" and l: "client_unsubscribe lost a c = (Inr u, c')"
  have sent: "cl_handles c2 = cl_handles c1" if "raw_send lost f c1 = (r, c2)" for f c1 c2 r
    using raw_send_handles [of lost f c1] that by simp
  from l have "\<exists>c2. c' = upd_handle a se_close c2 \<and> cl_handles c2 = cl_handles c"
    by (auto simp: client_unsubscribe_def Let_def split: option.splits sum.splits prod.splits if_splits dest!: sent)
  with ok show "handle_ok a c' \<and> se_queue (cl_handles c' ! a) = se_queue (cl_handles c ! a) \<and> se_closed (cl_handles c' ! a)"
    by (auto simp: handle_ok_def upd_handle_def se_close_def)
qed

section \<open>Properties\<close>

text \<open>
  A consumer loses nothing by unsubscribing: in every state of the broker that keeps its
  invariant, a consumer that leaves its stream and goes on reading and acknowledging gets exactly
  the deliveries that were queued, in order, and then the end of the stream.
\<close>

theorem unsubscribed_stream_drains:
  assumes "core_inv b" "a < length (bk_regs b)" "length (q_items (bk_queues b ! a)) < n"
    and "consume (stream_next a) stream_ack n (stream_unsubscribe a b) = (ds, e, b')"
  shows "map fst ds = q_items (bk_queues b ! a) \<and> e = Ended"
  by (rule bstream.consume_after_leave [of a b "()" "stream_unsubscribe a b" n ds e b'])
    (use assms in \<open>simp_all add: stream_ok_def\<close>)

text \<open>So does one on the handle of a client, whatever becomes of its connection.\<close>

theorem unsubscribed_handle_drains:
  assumes "a < length (cl_handles c)" "se_get (cl_handles c ! a) = NoTask" "length (se_queue (cl_handles c ! a)) < n"
    and "client_unsubscribe lost a c = (Inr u, c1)" "consume (handle_next a) (client_ack lost a) n c1 = (ds, e, c2)"
  shows "map fst ds = se_queue (cl_handles c ! a) \<and> e = Ended"
  by (rule handle.consume_after_leave [OF _ assms(4,3,5)]) (use assms in \<open>simp add: handle_ok_def\<close>)

definition parting_client :: client where
  "parting_client = (client_init True 1 30 None (\<lambda>_. Inr []))\<lparr>cl_handles := [(new_handle ''1'' ''a'' FutureOnly)\<lparr>se_queue :=
     [\<lparr>dl_id = ''d'', dl_sid = ''s'', dl_message = \<lparr>msg_id = ''m'', msg_topic = ''a'', msg_payload = MNone, msg_extras = [],
        msg_created_at = 1\<rparr>, dl_attempt = 1\<rparr>]\<rparr>]\<rparr>"

theorem unsubscribed_handle_drains_witness:
  "\<exists>c1 ds c2. client_unsubscribe True 0 parting_client = (Inr (), c1) \<and>
     consume (handle_next 0) (client_ack True 0) 2 c1 = (ds, Ended, c2) \<and> map fst ds = se_queue (cl_handles parting_client ! 0)"
proof -
  have h: "cs_server_sid (cl_handles parting_client ! 0) = None" "0 < length (cl_handles parting_client)"
    "se_get (cl_handles parting_client ! 0) = NoTask" "length (se_queue (cl_handles parting_client ! 0)) < 2"
    by (simp_all add: parting_client_def new_handle_def)
  obtain c1 where l: "client_unsubscribe True 0 parting_client = (Inr (), c1)"
    using h(1) by (simp add: client_unsubscribe_def Let_def)
  obtain ds e c2 where c: "consume (handle_next 0) (client_ack True 0) 2 c1 = (ds, e, c2)" by (metis surj_pair)
  from unsubscribed_handle_drains [OF h(2,3,4) l c] l c show ?thesis by auto
qed

end
